(* ===== verification/Prelude.thy ===== *)
theory Prelude
  imports Main "HOL-Library.Word" "HOL-Library.Multiset"
begin

unbundle bit_operations_syntax

text \<open>
  Shared vocabulary of the development: C characters and NUL-terminated strings, the character
  classes of \<^verbatim>\<open>ctype.h\<close> and of GLib's \<^verbatim>\<open>g_ascii_*\<close>, the word sizes of
  the modelled integer types, and the list lemmas that several components use.

  A C buffer is a \<^typ>\<open>string\<close>. A C string of the source is the \<^typ>\<open>string\<close> of the
  characters before its terminator, so reading index \<open>length s\<close> yields NUL; a loop that may run
  past the terminator says so with an option result.
\<close>

named_theorems wf_simps \<open>unfolding rules of the well-formedness predicates\<close>
named_theorems cstring_simps \<open>unfolding rules of the C character and string primitives\<close>

subsection \<open>Machine integers\<close>

type_synonym guint8 = "8 word"
type_synonym guint16 = "16 word"
type_synonym guint32 = "32 word"
type_synonym guint64 = "64 word"

text \<open>\<^verbatim>\<open>NV_TABLE_MAX_BYTES\<close> and \<open>G_MAXUINT32\<close>-like limits are plain numerals in the
  component theories; here only the wrap-around of a \<^verbatim>\<open>gsize\<close> sum, written out on \<^typ>\<open>nat\<close>.\<close>

definition gsize_add :: "nat \<Rightarrow> nat \<Rightarrow> nat" where
  "gsize_add a b = (a + b) mod 2 ^ 64"

lemma gsize_add_exact [simp]: "a + b < 2 ^ 64 \<Longrightarrow> gsize_add a b = a + b"
  by (simp add: gsize_add_def)

subsection \<open>Characters\<close>

abbreviation NUL :: char where
  "NUL \<equiv> CHR 0x00"

abbreviation code :: "char \<Rightarrow> nat" where
  "code c \<equiv> of_char c"

definition isdigit :: "char \<Rightarrow> bool" where
  "isdigit c \<longleftrightarrow> code (CHR ''0'') \<le> code c \<and> code c \<le> code (CHR ''9'')"

definition isupper :: "char \<Rightarrow> bool" where
  "isupper c \<longleftrightarrow> code (CHR ''A'') \<le> code c \<and> code c \<le> code (CHR ''Z'')"

definition islower :: "char \<Rightarrow> bool" where
  "islower c \<longleftrightarrow> code (CHR ''a'') \<le> code c \<and> code c \<le> code (CHR ''z'')"

definition isalnum :: "char \<Rightarrow> bool" where
  "isalnum c \<longleftrightarrow> isdigit c \<or> isupper c \<or> islower c"

definition isxdigit :: "char \<Rightarrow> bool" where
  "isxdigit c \<longleftrightarrow> isdigit c \<or> (code (CHR ''A'') \<le> code c \<and> code c \<le> code (CHR ''F'')) \<or>
     (code (CHR ''a'') \<le> code c \<and> code c \<le> code (CHR ''f''))"

text \<open>The white space of the C locale: space, and the controls HT, LF, VT, FF, CR.\<close>

definition isspace :: "char \<Rightarrow> bool" where
  "isspace c \<longleftrightarrow> c = CHR '' '' \<or> (9 \<le> code c \<and> code c \<le> 13)"

definition digit_value :: "char \<Rightarrow> nat" where
  "digit_value c = code c - 48"

definition xdigit_value :: "char \<Rightarrow> nat" where
  "xdigit_value c = (if isdigit c then code c - 48
     else if isupper c then code c - 65 + 10 else code c - 97 + 10)"

definition tolower :: "char \<Rightarrow> char" where
  "tolower c = (if isupper c then char_of (code c + 32) else c)"

lemma digit_value_less [simp]: "isdigit c \<Longrightarrow> digit_value c < 10"
  by (auto simp: isdigit_def digit_value_def)

lemma isdigit_code: "isdigit c \<longleftrightarrow> 48 \<le> code c \<and> code c \<le> 57"
  by (simp add: isdigit_def)

lemma NUL_classes [simp]:
  "\<not> isdigit NUL" "\<not> isalnum NUL" "\<not> isxdigit NUL" "\<not> isspace NUL"
  by (simp_all add: isdigit_def isalnum_def isxdigit_def isspace_def isupper_def islower_def)

lemma isdigit_not_space: "isdigit c \<Longrightarrow> \<not> isspace c"
  by (auto simp: isdigit_code isspace_def)

subsection \<open>C strings\<close>

text \<open>\<open>cstr_at s i\<close> is \<^verbatim>\<open>s[i]\<close>; \<open>None\<close> is a read past the terminator.\<close>

definition cstr_at :: "string \<Rightarrow> nat \<Rightarrow> char option" where
  "cstr_at s i = (if i < length s then Some (s ! i) else if i = length s then Some NUL else None)"

definition no_nul :: "string \<Rightarrow> bool" where
  "no_nul s \<longleftrightarrow> NUL \<notin> set s"

text \<open>\<^verbatim>\<open>strchr(s, c) != NULL\<close>: the terminator counts as part of the string.\<close>

definition strchr_hit :: "string \<Rightarrow> char \<Rightarrow> bool" where
  "strchr_hit s c \<longleftrightarrow> c = NUL \<or> c \<in> set s"

text \<open>\<^verbatim>\<open>strchr\<close> as an index; searching for NUL finds the terminator.\<close>

fun strchr_idx :: "string \<Rightarrow> char \<Rightarrow> nat option" where
  "strchr_idx [] c = (if c = NUL then Some 0 else None)"
| "strchr_idx (x # xs) c = (if x = c then Some 0 else map_option Suc (strchr_idx xs c))"

definition strcasecmp_eq :: "string \<Rightarrow> string \<Rightarrow> bool" where
  "strcasecmp_eq a b \<longleftrightarrow> map tolower a = map tolower b"

lemma strchr_idx_Some_iff: "(\<exists>i. strchr_idx s c = Some i) \<longleftrightarrow> strchr_hit s c"
  by (induction s) (auto simp: strchr_hit_def)

lemma strchr_idx_le: "strchr_idx s c = Some i \<Longrightarrow> i \<le> length s"
  by (induction s arbitrary: i) (auto split: if_splits)

lemma strchr_idx_prefix: "strchr_idx s c = Some i \<Longrightarrow> c \<notin> set (take i s)"
  by (induction s arbitrary: i) (auto split: if_splits)

lemma strchr_idx_nth: "strchr_idx s c = Some i \<Longrightarrow> i < length s \<Longrightarrow> s ! i = c"
  by (induction s arbitrary: i) (auto split: if_splits)

lemma strchr_idx_append [simp]:
  "c \<notin> set u \<Longrightarrow> strchr_idx (u @ c # v) c = Some (length u)"
  by (induction u) auto

lemma strchr_idx_None_iff: "strchr_idx s c = None \<longleftrightarrow> c \<noteq> NUL \<and> c \<notin> set s"
  by (induction s) auto

lemma strcasecmp_eq_refl [simp]: "strcasecmp_eq a a"
  by (simp add: strcasecmp_eq_def)

lemma cstr_at_less [simp]: "i < length s \<Longrightarrow> cstr_at s i = Some (s ! i)"
  by (simp add: cstr_at_def)

lemma cstr_at_end [simp]: "cstr_at s (length s) = Some NUL"
  by (simp add: cstr_at_def)

subsection \<open>Lists\<close>

lemma sorted_wrt_nth_gap:
  assumes "sorted_wrt (<) (xs :: 'a :: linorder list)" "i < j" "j < length xs"
  shows "xs ! i < xs ! j"
  using assms by (simp add: sorted_wrt_iff_nth_less)

lemma takeWhile_all_append: "(\<forall>x \<in> set u. P x) \<Longrightarrow> takeWhile P (u @ v) = u @ takeWhile P v"
  by (induction u) auto

lemma dropWhile_all_append: "(\<forall>x \<in> set u. P x) \<Longrightarrow> dropWhile P (u @ v) = dropWhile P v"
  by (induction u) auto

lemma mset_concat_update:
  "i < length xss \<Longrightarrow> mset (concat (xss[i := ys])) + mset (xss ! i) = mset (concat xss) + mset ys"
proof (induction xss arbitrary: i)
  case (Cons xs xss)
  then show ?case by (cases i) (auto simp: ac_simps)
qed simp

end
