(* ===== verification/Syslog_Names.thy ===== *)
theory Syslog_Names
  imports Prelude
begin

text \<open>
  \<^verbatim>\<open>lib/syslog-names.c\<close>: the tables of severity and facility names, the case-insensitive
  lookups in both directions, and the bit mask of a severity range that the filters use.
\<close>

subsection \<open>Tables\<close>

record sl_name =
  sl_nam :: "string option"
  sl_value :: int

definition LEVEL_CODE :: "int \<Rightarrow> int" where
  "LEVEL_CODE n = n AND 7"

definition FACILITY_CODE :: "int \<Rightarrow> int" where
  "FACILITY_CODE n = push_bit 3 n"

definition sl_entry :: "string \<Rightarrow> int \<Rightarrow> sl_name" where
  "sl_entry s v = \<lparr>sl_nam = Some s, sl_value = v\<rparr>"

definition sl_terminator :: sl_name where
  "sl_terminator = \<lparr>sl_nam = None, sl_value = -1\<rparr>"

definition sl_levels :: "sl_name list" where
  "sl_levels =
    [sl_entry ''emerg'' (LEVEL_CODE 0),
     sl_entry ''panic'' (LEVEL_CODE 0),
     sl_entry ''alert'' (LEVEL_CODE 1),
     sl_entry ''crit'' (LEVEL_CODE 2),
     sl_entry ''err'' (LEVEL_CODE 3),
     sl_entry ''error'' (LEVEL_CODE 3),
     sl_entry ''warning'' (LEVEL_CODE 4),
     sl_entry ''warn'' (LEVEL_CODE 4),
     sl_entry ''notice'' (LEVEL_CODE 5),
     sl_entry ''info'' (LEVEL_CODE 6),
     sl_entry ''debug'' (LEVEL_CODE 7),
     sl_terminator]"

definition sl_facilities :: "sl_name list" where
  "sl_facilities =
    [sl_entry ''kern'' (FACILITY_CODE 0),
     sl_entry ''user'' (FACILITY_CODE 1),
     sl_entry ''mail'' (FACILITY_CODE 2),
     sl_entry ''daemon'' (FACILITY_CODE 3),
     sl_entry ''auth'' (FACILITY_CODE 4),
     sl_entry ''syslog'' (FACILITY_CODE 5),
     sl_entry ''lpr'' (FACILITY_CODE 6),
     sl_entry ''news'' (FACILITY_CODE 7),
     sl_entry ''uucp'' (FACILITY_CODE 8),
     sl_entry ''cron'' (FACILITY_CODE 9),
     sl_entry ''authpriv'' (FACILITY_CODE 10),
     sl_entry ''megasafe'' (FACILITY_CODE 10),
     sl_entry ''ftp'' (FACILITY_CODE 11),
     sl_entry ''ntp'' (FACILITY_CODE 12),
     sl_entry ''security'' (FACILITY_CODE 13),
     sl_entry ''console'' (FACILITY_CODE 14),
     sl_entry ''solaris-cron'' (FACILITY_CODE 15),
     sl_entry ''local0'' (FACILITY_CODE 16),
     sl_entry ''local1'' (FACILITY_CODE 17),
     sl_entry ''local2'' (FACILITY_CODE 18),
     sl_entry ''local3'' (FACILITY_CODE 19),
     sl_entry ''local4'' (FACILITY_CODE 20),
     sl_entry ''local5'' (FACILITY_CODE 21),
     sl_entry ''local6'' (FACILITY_CODE 22),
     sl_entry ''local7'' (FACILITY_CODE 23),
     sl_terminator]"

subsection \<open>Lookups\<close>

text \<open>The loop of \<^verbatim>\<open>syslog_name_find_name\<close>, with its counter \<open>i\<close>; the source stops at the
  entry whose name is \<^verbatim>\<open>NULL\<close>.\<close>

fun syslog_name_find_from :: "int \<Rightarrow> string \<Rightarrow> sl_name list \<Rightarrow> int" where
  "syslog_name_find_from i name [] = -1"
| "syslog_name_find_from i name (e # es) =
     (case sl_nam e of
        None \<Rightarrow> -1
      | Some n \<Rightarrow> if strcasecmp_eq name n then i else syslog_name_find_from (i + 1) name es)"

definition syslog_name_find_name :: "string \<Rightarrow> sl_name list \<Rightarrow> int" where
  "syslog_name_find_name name names = syslog_name_find_from 0 name names"

definition syslog_name_lookup_id_by_name :: "string \<Rightarrow> sl_name list \<Rightarrow> int" where
  "syslog_name_lookup_id_by_name name names = syslog_name_find_name name names"

definition syslog_name_lookup_value_by_name :: "string \<Rightarrow> sl_name list \<Rightarrow> int" where
  "syslog_name_lookup_value_by_name name names =
     (let i = syslog_name_find_name name names
      in if i \<noteq> -1 then sl_value (names ! nat i) else -1)"

fun syslog_name_lookup_name_by_value :: "int \<Rightarrow> sl_name list \<Rightarrow> string option" where
  "syslog_name_lookup_name_by_value value [] = None"
| "syslog_name_lookup_name_by_value value (e # es) =
     (case sl_nam e of
        None \<Rightarrow> None
      | Some n \<Rightarrow> if sl_value e = value then Some n else syslog_name_lookup_name_by_value value es)"

text \<open>The wrappers of the header convert the \<^verbatim>\<open>int\<close> to \<^verbatim>\<open>guint32\<close>, so that an unknown name is
  \<open>0xffffffff\<close>.\<close>

definition syslog_name_lookup_level_by_name :: "string \<Rightarrow> guint32" where
  "syslog_name_lookup_level_by_name name = word_of_int (syslog_name_lookup_value_by_name name sl_levels)"

definition syslog_name_lookup_facility_by_name :: "string \<Rightarrow> guint32" where
  "syslog_name_lookup_facility_by_name name =
     word_of_int (syslog_name_lookup_value_by_name name sl_facilities)"

text \<open>\<^verbatim>\<open>syslog_make_range\<close>. A shift of the \<^verbatim>\<open>int\<close> literal 1 by 31 or more is undefined in C:
  \<open>None\<close>. Its callers pass severities, which are below 8.\<close>

definition syslog_make_range :: "guint32 \<Rightarrow> guint32 \<Rightarrow> guint32 option" where
  "syslog_make_range value1 value2 =
     (let (v1, v2) = (if value1 > value2 then (value2, value1) else (value1, value2))
      in if unat v2 + 1 \<ge> 31 then None
         else Some ((push_bit (unat v2 + 1) 1 - 1) AND NOT (push_bit (unat v1) 1 - 1)))"

subsection \<open>Properties\<close>

lemmas sl_table_defs = sl_levels_def sl_facilities_def sl_entry_def sl_terminator_def
  LEVEL_CODE_def FACILITY_CODE_def

lemma find_from_bounds:
  "syslog_name_find_from i name names = r \<Longrightarrow> 0 \<le> i \<Longrightarrow>
     r = -1 \<or> (i \<le> r \<and> r < i + int (length names))"
  by (induction i name names arbitrary: r rule: syslog_name_find_from.induct)
     (force split: option.splits if_splits)+

lemma find_from_hit:
  "syslog_name_find_from i name names = r \<Longrightarrow> r \<noteq> -1 \<Longrightarrow> 0 \<le> i \<Longrightarrow>
     \<exists>n. sl_nam (names ! nat (r - i)) = Some n \<and> strcasecmp_eq name n"
proof (induction i name names arbitrary: r rule: syslog_name_find_from.induct)
  case (2 i name e es)
  show ?case
  proof (cases "\<exists>n. sl_nam e = Some n \<and> \<not> strcasecmp_eq name n")
    case True
    then obtain n where n: "sl_nam e = Some n" "\<not> strcasecmp_eq name n" by blast
    with "2.prems" have r: "syslog_name_find_from (i + 1) name es = r" by simp
    with find_from_bounds[OF r] "2.prems" have "i + 1 \<le> r" by auto
    then have "nat (r - i) = Suc (nat (r - (i + 1)))" by simp
    with "2.IH"[OF n r] "2.prems" show ?thesis by simp
  next
    case False
    with "2.prems" show ?thesis by (auto split: option.splits if_splits)
  qed
qed simp

lemma find_from_miss:
  "syslog_name_find_from i name (es @ [sl_terminator]) = -1 \<Longrightarrow> 0 \<le> i \<Longrightarrow>
     \<forall>e \<in> set es. sl_nam e \<noteq> None \<Longrightarrow>
     \<forall>e \<in> set es. \<forall>n. sl_nam e = Some n \<longrightarrow> \<not> strcasecmp_eq name n"
proof (induction es arbitrary: i)
  case (Cons e es)
  then show ?case by (auto split: option.splits if_splits)
qed simp


text \<open>A name of a terminated table is found by its value and leads back to it, as long as no earlier
  entry has the same name in another case.\<close>

lemma lookup_value_hit:
  assumes "syslog_name_lookup_value_by_name name names = v" "v \<noteq> -1"
  shows "\<exists>e \<in> set names. \<exists>n. sl_nam e = Some n \<and> strcasecmp_eq name n \<and> sl_value e = v"
proof -
  let ?i = "syslog_name_find_from 0 name names"
  from assms have i: "?i \<noteq> -1" and v: "v = sl_value (names ! nat ?i)"
    by (auto simp: syslog_name_lookup_value_by_name_def syslog_name_find_name_def Let_def split: if_splits)
  from find_from_bounds[of 0 name names] i have "nat ?i < length names" by auto
  with find_from_hit[of 0 name names] i v show ?thesis
    by (metis diff_zero nth_mem order_refl)
qed

lemma exp_minus_one_mask: "(push_bit n 1 - 1 :: guint32) = mask n"
  by (simp add: mask_eq_exp_minus_1)

text \<open>Every severity 0 to 7 and every facility 0 to 23 has a name, and looking that name up gives the
  code back; so a name printed by the \<^verbatim>\<open>$LEVEL\<close> and \<^verbatim>\<open>$FACILITY\<close> macros is accepted by the
  filters with its own meaning.\<close>

definition name_table_roundtrip :: "sl_name list \<Rightarrow> int list \<Rightarrow> bool" where
  "name_table_roundtrip names vs \<longleftrightarrow>
     (\<forall>v \<in> set vs. case syslog_name_lookup_name_by_value v names of
        None \<Rightarrow> False | Some n \<Rightarrow> syslog_name_lookup_value_by_name n names = v)"

text \<open>The names of both tables are in lower case, so on them the case-insensitive comparison is equality.\<close>

definition lower_table :: "sl_name list \<Rightarrow> bool" where
  "lower_table names \<longleftrightarrow> list_all (\<lambda>e. case sl_nam e of None \<Rightarrow> True | Some n \<Rightarrow> map tolower n = n) names"

fun find_eq_from :: "int \<Rightarrow> string \<Rightarrow> sl_name list \<Rightarrow> int" where
  "find_eq_from i name [] = -1"
| "find_eq_from i name (e # es) =
     (case sl_nam e of None \<Rightarrow> -1 | Some n \<Rightarrow> if name = n then i else find_eq_from (i + 1) name es)"

lemma find_from_lower:
  "lower_table names \<Longrightarrow> map tolower name = name \<Longrightarrow>
     syslog_name_find_from i name names = find_eq_from i name names"
  by (induction names arbitrary: i) (auto simp: lower_table_def strcasecmp_eq_def split: option.splits)

lemma lookup_name_lower:
  "lower_table names \<Longrightarrow> syslog_name_lookup_name_by_value v names = Some n \<Longrightarrow> map tolower n = n"
  by (induction v names rule: syslog_name_lookup_name_by_value.induct)
     (auto simp: lower_table_def split: option.splits if_splits)

lemma lookup_value_lower:
  assumes "lower_table names" "syslog_name_lookup_name_by_value v names = Some n"
  shows "syslog_name_lookup_value_by_name n names =
    (let i = find_eq_from 0 n names in if i \<noteq> -1 then sl_value (names ! nat i) else -1)"
  using assms find_from_lower[OF assms(1) lookup_name_lower[OF assms], of 0]
  by (simp add: syslog_name_lookup_value_by_name_def syslog_name_find_name_def)

lemma name_table_roundtrip_lower:
  assumes "lower_table names"
    and "list_all (\<lambda>v. case syslog_name_lookup_name_by_value v names of None \<Rightarrow> False
           | Some n \<Rightarrow> (let i = find_eq_from 0 n names in i \<noteq> -1 \<and> sl_value (names ! nat i) = v)) vs"
  shows "name_table_roundtrip names vs"
  unfolding name_table_roundtrip_def
proof
  fix v assume "v \<in> set vs"
  with assms(2) obtain n where n: "syslog_name_lookup_name_by_value v names = Some n"
      "find_eq_from 0 n names \<noteq> -1" "sl_value (names ! nat (find_eq_from 0 n names)) = v"
    by (auto simp: list_all_iff Let_def split: option.splits)
  with lookup_value_lower[OF assms(1) n(1)]
  show "case syslog_name_lookup_name_by_value v names of None \<Rightarrow> False
     | Some n \<Rightarrow> syslog_name_lookup_value_by_name n names = v"
    by simp
qed

lemmas lower_defs = lower_table_def tolower_def isupper_def

lemma lower_levels: "lower_table sl_levels"
  by (simp add: lower_defs sl_table_defs)

lemma lower_facilities: "lower_table sl_facilities"
  by (simp add: lower_defs sl_table_defs)

lemma levels_roundtrip: "name_table_roundtrip sl_levels [0, 1, 2, 3, 4, 5, 6, 7]"
  by (rule name_table_roundtrip_lower[OF lower_levels]) (simp add: sl_table_defs)

lemma facilities_roundtrip:
  "name_table_roundtrip sl_facilities
     [0, 8, 16, 24, 32, 40, 48, 56, 64, 72, 80, 88, 96, 104, 112, 120, 128, 136, 144, 152, 160, 168, 176, 184]"
  by (rule name_table_roundtrip_lower[OF lower_facilities]) (simp add: sl_table_defs push_bit_eq_mult)



text \<open>For severities (any values below 30, where no shift leaves the \<^verbatim>\<open>int\<close>),
  \<^verbatim>\<open>syslog_make_range\<close> returns the mask whose set bits are exactly those between the two
  ends, in either order of the arguments.\<close>

theorem syslog_make_range_bits:
  assumes "unat a < 30" "unat b < 30"
  shows "\<exists>m. syslog_make_range a b = Some m \<and>
     (\<forall>i. bit m i \<longleftrightarrow> unat (min a b) \<le> i \<and> i \<le> unat (max a b))"
proof -
  have hi: "unat (max a b) + 1 < 31" using assms by (simp add: max_def)
  have eq: "syslog_make_range a b =
      Some ((push_bit (unat (max a b) + 1) 1 - 1) AND NOT (push_bit (unat (min a b)) 1 - 1))"
    using assms by (auto simp: syslog_make_range_def max_def min_def not_less)
  show ?thesis
    unfolding eq exp_minus_one_mask using hi
    by (auto simp: bit_and_iff bit_not_iff bit_mask_iff)
qed

theorem syslog_make_range_bits_witness:
  "\<exists>m. syslog_make_range 4 1 = Some m \<and>
     (\<forall>i. bit m i \<longleftrightarrow> unat (min 4 (1 :: guint32)) \<le> i \<and> i \<le> unat (max 4 (1 :: guint32)))"
  by (rule syslog_make_range_bits) simp_all

end
