(* ===== verification/Interning.thy ===== *)
theory Interning
  imports Prelude
begin

text \<open>
  The contract of an interning table, which the name registry and the tag table both promise:
  interning a name yields an identifier that later lookups return, that no later interning
  changes, and that leads back to the name when the name was new. The clients' facts about
  sequences of interned names are proved here once.
\<close>

fun intern_all :: "('s \<Rightarrow> 'n \<Rightarrow> 's \<times> 'i option) \<Rightarrow> 's \<Rightarrow> 'n list \<Rightarrow> 's" where
  "intern_all f s [] = s"
| "intern_all f s (n # ns) = intern_all f (fst (f s n)) ns"

locale interner =
  fixes invar :: "'s \<Rightarrow> bool"
    and find :: "'s \<Rightarrow> 'n \<Rightarrow> 'i option"
    and intern :: "'s \<Rightarrow> 'n \<Rightarrow> 's \<times> 'i option"
    and name_of :: "'s \<Rightarrow> 'i \<Rightarrow> 'n option"
  assumes invar_intern: "invar s \<Longrightarrow> invar (fst (intern s n))"
    and intern_finds: "invar s \<Longrightarrow> intern s n = (s', Some i) \<Longrightarrow> find s' n = Some i"
    and intern_known: "invar s \<Longrightarrow> find s n = Some i \<Longrightarrow> intern s n = (s, Some i)"
    and find_keeps: "invar s \<Longrightarrow> find s m = Some i \<Longrightarrow> find (fst (intern s n)) m = Some i"
    and name_keeps: "invar s \<Longrightarrow> name_of s i = Some m \<Longrightarrow> name_of (fst (intern s n)) i = Some m"
    and fresh_name: "invar s \<Longrightarrow> find s n = None \<Longrightarrow> intern s n = (s', Some i) \<Longrightarrow> name_of s' i = Some n"
begin

lemma invar_all: "invar s \<Longrightarrow> invar (intern_all intern s ns)"
  by (induction ns arbitrary: s) (auto intro: invar_intern)

lemma find_keeps_all:
  "invar s \<Longrightarrow> find s m = Some i \<Longrightarrow> find (intern_all intern s ns) m = Some i"
  by (induction ns arbitrary: s) (auto intro: invar_intern find_keeps)

lemma name_keeps_all:
  "invar s \<Longrightarrow> name_of s i = Some m \<Longrightarrow> name_of (intern_all intern s ns) i = Some m"
  by (induction ns arbitrary: s) (auto intro: invar_intern name_keeps)

text \<open>An identifier handed out once is returned for that name for ever after.\<close>

lemma intern_stable:
  assumes "invar s" "intern s n = (s1, Some i)"
  shows "intern (intern_all intern s1 ns) n = (intern_all intern s1 ns, Some i)"
proof -
  have "invar s1" using invar_intern[of s n] assms by simp
  then show ?thesis
    using assms intern_finds find_keeps_all intern_known invar_all by metis
qed

text \<open>Two names that were new when they were interned have different identifiers.\<close>

lemma fresh_distinct:
  assumes "invar s" "find s m = None" "intern s m = (s1, Some i)"
    and "find (intern_all intern s1 ns) n = None"
    and "intern (intern_all intern s1 ns) n = (s2, Some j)" and "m \<noteq> n"
  shows "i \<noteq> j"
proof -
  let ?s = "intern_all intern s1 ns"
  have inv: "invar s1" "invar ?s" using invar_intern[of s m] assms invar_all by simp_all
  have "name_of ?s i = Some m" using fresh_name name_keeps_all inv assms by blast
  then have "name_of s2 i = Some m" using name_keeps[OF inv(2), of i m n] assms by simp
  moreover have "name_of s2 j = Some n" using fresh_name inv assms by blast
  ultimately show ?thesis using assms(6) by auto
qed

end

end
