(* ===== verification/NV_Registry.thy ===== *)
theory NV_Registry
  imports Interning
begin

text \<open>
  The name registry of \<^verbatim>\<open>lib/nvtable.c\<close>: names of name-value pairs are interned once and
  used by handle afterwards. Handle 0 means ``no such name'' and handle \<open>h\<close> is index \<open>h - 1\<close> of
  the \<^verbatim>\<open>names\<close> array. GLib's hash table is a map and its array a list; the mutex only serialises
  the operations.
\<close>

subsection \<open>State and operations\<close>

type_synonym nv_handle = nat

record nv_handle_desc =
  hd_name :: string
  hd_flags :: guint16
  hd_name_len :: guint8

record nv_registry =
  reg_names :: "nv_handle_desc list"
  reg_name_map :: "string \<Rightarrow> nv_handle option"

definition nv_registry_get_handle :: "nv_registry \<Rightarrow> string \<Rightarrow> nv_handle" where
  "nv_registry_get_handle self name =
     (case reg_name_map self name of Some p \<Rightarrow> (if p \<noteq> 0 then p else 0) | None \<Rightarrow> 0)"

text \<open>The allocating part of \<^verbatim>\<open>nv_registry_alloc_handle\<close>, reached when the hash lookup yields
  \<^verbatim>\<open>NULL\<close>.\<close>

definition nv_registry_new_handle :: "nv_registry \<Rightarrow> string \<Rightarrow> nv_registry \<times> nv_handle" where
  "nv_registry_new_handle self name =
     (if length name = 0 then (self, 0)
      else if length name > 255 then (self, 0)
      else if length (reg_names self) \<ge> 65535 then (self, 0)
      else let stored = \<lparr>hd_name = name, hd_flags = 0, hd_name_len = of_nat (length name)\<rparr>;
               names' = reg_names self @ [stored]
           in (\<lparr>reg_names = names', reg_name_map = (reg_name_map self)(name \<mapsto> length names')\<rparr>,
               length names'))"

definition nv_registry_alloc_handle :: "nv_registry \<Rightarrow> string \<Rightarrow> nv_registry \<times> nv_handle" where
  "nv_registry_alloc_handle self name =
     (case reg_name_map self name of
        Some p \<Rightarrow> if p \<noteq> 0 then (self, p) else nv_registry_new_handle self name
      | None \<Rightarrow> nv_registry_new_handle self name)"

definition nv_registry_add_alias :: "nv_registry \<Rightarrow> nv_handle \<Rightarrow> string \<Rightarrow> nv_registry" where
  "nv_registry_add_alias self handle alias =
     self\<lparr>reg_name_map := (reg_name_map self)(alias \<mapsto> handle)\<rparr>"

text \<open>\<open>None\<close> is an index past the end of the \<^verbatim>\<open>names\<close> array.\<close>

definition nv_registry_set_handle_flags ::
    "nv_registry \<Rightarrow> nv_handle \<Rightarrow> guint16 \<Rightarrow> nv_registry option" where
  "nv_registry_set_handle_flags self handle flags =
     (if handle = 0 then Some self
      else if handle - 1 < length (reg_names self)
      then Some (self\<lparr>reg_names := (reg_names self)[handle - 1 :=
                   (reg_names self ! (handle - 1))\<lparr>hd_flags := flags\<rparr>]\<rparr>)
      else None)"

definition nv_registry_get_handle_flags :: "nv_registry \<Rightarrow> nv_handle \<Rightarrow> guint16 option" where
  "nv_registry_get_handle_flags self handle =
     (if handle = 0 then Some 0
      else if handle - 1 < length (reg_names self)
      then Some (hd_flags (reg_names self ! (handle - 1))) else None)"

definition nv_registry_get_handle_name :: "nv_registry \<Rightarrow> nv_handle \<Rightarrow> (string \<times> nat) option" where
  "nv_registry_get_handle_name self handle =
     (if handle = 0 then Some (''None'', 4)
      else if handle - 1 < length (reg_names self)
      then (let stored = reg_names self ! (handle - 1)
            in Some (hd_name stored, unat (hd_name_len stored))) else None)"

fun nv_registry_alloc_all :: "nv_registry \<Rightarrow> string list \<Rightarrow> nv_registry" where
  "nv_registry_alloc_all self [] = self"
| "nv_registry_alloc_all self (n # ns) = nv_registry_alloc_all (fst (nv_registry_alloc_handle self n)) ns"

definition nv_registry_new :: "string list \<Rightarrow> nv_registry" where
  "nv_registry_new static_names =
     nv_registry_alloc_all \<lparr>reg_names = [], reg_name_map = Map.empty\<rparr> static_names"

subsection \<open>Invariant\<close>

text \<open>Every interned name leads to its own handle, every mapped handle is in the array, and the
  stored length is the length of the name.\<close>

definition reg_wf :: "nv_registry \<Rightarrow> bool" where
  "reg_wf r \<longleftrightarrow> length (reg_names r) \<le> 65535 \<and>
     (\<forall>i < length (reg_names r).
        reg_name_map r (hd_name (reg_names r ! i)) = Some (Suc i) \<and>
        0 < length (hd_name (reg_names r ! i)) \<and> length (hd_name (reg_names r ! i)) \<le> 255 \<and>
        unat (hd_name_len (reg_names r ! i)) = length (hd_name (reg_names r ! i))) \<and>
     (\<forall>n h. reg_name_map r n = Some h \<longrightarrow> h \<le> length (reg_names r))"

lemma reg_wf_empty: "reg_wf \<lparr>reg_names = [], reg_name_map = Map.empty\<rparr>"
  by (simp add: reg_wf_def)

lemma reg_wf_not_interned:
  assumes "reg_wf r" "reg_name_map r name = None \<or> reg_name_map r name = Some 0" "i < length (reg_names r)"
  shows "hd_name (reg_names r ! i) \<noteq> name"
  using assms by (auto simp: reg_wf_def)

lemma unat_of_nat_guint8: "n \<le> 255 \<Longrightarrow> unat (of_nat n :: guint8) = n"
  by (simp add: unat_of_nat)

lemma reg_wf_new_handle:
  assumes wf: "reg_wf r" and miss: "reg_name_map r name = None \<or> reg_name_map r name = Some 0"
  shows "reg_wf (fst (nv_registry_new_handle r name))"
proof -
  have other: "\<forall>i < length (reg_names r). hd_name (reg_names r ! i) \<noteq> name"
    using reg_wf_not_interned[OF wf miss] by blast
  have "\<forall>n h. reg_name_map r n = Some h \<longrightarrow> h \<le> Suc (length (reg_names r))"
    using wf by (auto simp: reg_wf_def le_SucI)
  with wf other show ?thesis
    unfolding nv_registry_new_handle_def
    by (auto simp: reg_wf_def Let_def nth_append less_Suc_eq unat_of_nat_guint8)
qed

lemma reg_wf_alloc: "reg_wf r \<Longrightarrow> reg_wf (fst (nv_registry_alloc_handle r name))"
  by (auto simp: nv_registry_alloc_handle_def reg_wf_new_handle split: option.splits)

lemma reg_wf_alloc_all: "reg_wf r \<Longrightarrow> reg_wf (nv_registry_alloc_all r ns)"
  by (induction r ns rule: nv_registry_alloc_all.induct) (simp_all add: reg_wf_alloc)

lemma reg_wf_registry_new: "reg_wf (nv_registry_new ns)"
  by (simp add: nv_registry_new_def reg_wf_alloc_all reg_wf_empty)

lemma reg_wf_add_alias:
  assumes "reg_wf r" "h \<le> length (reg_names r)" "\<forall>d \<in> set (reg_names r). hd_name d \<noteq> alias"
  shows "reg_wf (nv_registry_add_alias r h alias)"
  using assms by (auto simp: reg_wf_def nv_registry_add_alias_def)

lemma reg_wf_set_flags:
  "reg_wf r \<Longrightarrow> nv_registry_set_handle_flags r h f = Some r' \<Longrightarrow> reg_wf r'"
  by (auto simp: reg_wf_def nv_registry_set_handle_flags_def nth_list_update split: if_splits)

subsection \<open>The registry is an interning table\<close>

definition reg_find :: "nv_registry \<Rightarrow> string \<Rightarrow> nv_handle option" where
  "reg_find r n = (let h = nv_registry_get_handle r n in if h = 0 then None else Some h)"

definition reg_intern :: "nv_registry \<Rightarrow> string \<Rightarrow> nv_registry \<times> nv_handle option" where
  "reg_intern r n = (let (r', h) = nv_registry_alloc_handle r n in (r', if h = 0 then None else Some h))"

definition reg_name_of :: "nv_registry \<Rightarrow> nv_handle \<Rightarrow> string option" where
  "reg_name_of r h = (if h = 0 then None else map_option fst (nv_registry_get_handle_name r h))"

lemmas reg_defs = reg_find_def reg_intern_def reg_name_of_def nv_registry_get_handle_def
  nv_registry_alloc_handle_def nv_registry_new_handle_def nv_registry_get_handle_name_def

lemma reg_find_known: "reg_find r n = Some h \<longleftrightarrow> reg_name_map r n = Some h \<and> h \<noteq> 0"
  by (auto simp: reg_find_def nv_registry_get_handle_def Let_def split: option.splits if_splits)

interpretation reg: interner reg_wf reg_find reg_intern reg_name_of
proof unfold_locales
  show "reg_wf (fst (reg_intern s n))" if "reg_wf s" for s n
    using reg_wf_alloc[OF that, of n] by (simp add: reg_intern_def case_prod_beta)
  show "reg_find s' n = Some i" if "reg_wf s" "reg_intern s n = (s', Some i)" for s n s' i
    using that by (auto simp: reg_defs Let_def split: option.splits if_splits)
  show "reg_intern s n = (s, Some i)" if "reg_wf s" "reg_find s n = Some i" for s n i
    using that by (simp add: reg_find_known reg_intern_def nv_registry_alloc_handle_def)
  show "reg_find (fst (reg_intern s n)) m = Some i" if "reg_wf s" "reg_find s m = Some i" for s m i n
    using that by (auto simp: reg_find_known reg_defs Let_def split: option.splits if_splits)
  show "reg_name_of (fst (reg_intern s n)) i = Some m" if "reg_wf s" "reg_name_of s i = Some m" for s i m n
    using that by (auto simp: reg_defs Let_def nth_append split: option.splits if_splits)
  show "reg_name_of s' i = Some n"
    if "reg_wf s" "reg_find s n = None" "reg_intern s n = (s', Some i)" for s n s' i
    using that by (auto simp: reg_defs Let_def nth_append split: option.splits if_splits)
qed

text \<open>C26: \<^verbatim>\<open>nv_registry_alloc_handle\<close> keeps the registry well formed and all earlier handles
  unchanged; it returns 0 exactly when the name is unknown and empty, longer than 255 characters, or
  the 65535 handles are used up; otherwise the returned handle is what lookups of the name give, and
  a newly interned name is stored with its length under its handle.\<close>

theorem nv_registry_alloc_correct:
  assumes wf: "reg_wf r" and alloc: "nv_registry_alloc_handle r name = (r', h)"
  shows "reg_wf r' \<and>
    (h = 0 \<longleftrightarrow> nv_registry_get_handle r name = 0 \<and>
       (name = [] \<or> length name > 255 \<or> length (reg_names r) = 65535)) \<and>
    (h \<noteq> 0 \<longrightarrow> nv_registry_get_handle r' name = h) \<and>
    (\<forall>n. nv_registry_get_handle r n \<noteq> 0 \<longrightarrow> nv_registry_get_handle r' n = nv_registry_get_handle r n) \<and>
    (h \<noteq> 0 \<and> nv_registry_get_handle r name = 0 \<longrightarrow>
       nv_registry_get_handle_name r' h = Some (name, length name))"
proof -
  have "reg_wf r'" using reg_wf_alloc[OF wf, of name] alloc by simp
  moreover have "length (reg_names r) \<le> 65535" using wf by (simp add: reg_wf_def)
  ultimately show ?thesis
    using alloc by (auto simp: reg_defs Let_def nth_append unat_of_nat_guint8 split: option.splits if_splits)
qed

theorem nv_registry_alloc_correct_witness:
  "\<exists>r' h. nv_registry_alloc_handle (nv_registry_new [''HOST'']) ''PID'' = (r', h) \<and> h = 2 \<and>
     nv_registry_get_handle r' ''PID'' = 2 \<and> nv_registry_get_handle r' ''HOST'' = 1"
proof -
  let ?r = "nv_registry_new [''HOST'']"
  have eval: "nv_registry_alloc_handle ?r ''PID'' = (fst (nv_registry_alloc_handle ?r ''PID''), 2)"
    "nv_registry_get_handle ?r ''HOST'' = 1"
    by (simp_all add: nv_registry_new_def reg_defs)
  with nv_registry_alloc_correct[OF reg_wf_registry_new eval(1)] show ?thesis
    by (metis zero_neq_numeral zero_neq_one)
qed

text \<open>C27: Handles are permanent and separate names: after any sequence of further allocations the
  name still gets the same handle, and two names that were both unknown when first allocated never
  share one.\<close>

theorem nv_registry_handles_permanent:
  assumes "reg_wf r" "nv_registry_get_handle r m = 0" "nv_registry_alloc_handle r m = (ra, i)" "i \<noteq> 0"
    and "nv_registry_get_handle (nv_registry_alloc_all ra ns) n = 0"
    and "nv_registry_alloc_handle (nv_registry_alloc_all ra ns) n = (rb, j)" "j \<noteq> 0" and "m \<noteq> n"
  shows "nv_registry_alloc_handle (nv_registry_alloc_all ra ns) m = (nv_registry_alloc_all ra ns, i) \<and> i \<noteq> j"
proof -
  have all: "nv_registry_alloc_all r xs = intern_all reg_intern r xs" for r xs
    by (induction r xs rule: nv_registry_alloc_all.induct)
       (simp_all add: reg_intern_def split: prod.splits)
  have im: "reg_intern r m = (ra, Some i)" "reg_find r m = None"
    using assms by (simp_all add: reg_intern_def reg_find_def)
  have jn: "reg_intern (intern_all reg_intern ra ns) n = (rb, Some j)"
      "reg_find (intern_all reg_intern ra ns) n = None"
    using assms by (simp_all add: all reg_intern_def reg_find_def)
  have "i \<noteq> j"
    using reg.fresh_distinct[OF assms(1) im(2,1) jn(2,1) assms(8)] .
  moreover have "reg_intern (nv_registry_alloc_all ra ns) m = (nv_registry_alloc_all ra ns, Some i)"
    using reg.intern_stable[OF assms(1) im(1)] by (simp add: all)
  ultimately show ?thesis
    by (auto simp: reg_intern_def split: prod.splits if_splits)
qed

theorem nv_registry_handles_permanent_witness:
  "let r = nv_registry_new []; r1 = fst (nv_registry_alloc_handle r ''A'');
       s = nv_registry_alloc_all r1 [''B'']
   in nv_registry_alloc_handle s ''A'' = (s, 1) \<and> (1 :: nat) \<noteq> 3"
proof -
  let ?r = "nv_registry_new []"
  let ?r1 = "fst (nv_registry_alloc_handle ?r ''A'')"
  let ?s = "nv_registry_alloc_all ?r1 [''B'']"
  have "nv_registry_alloc_handle ?s ''A'' = (?s, 1) \<and> (1 :: nat) \<noteq> 3"
    by (rule nv_registry_handles_permanent[where r = ?r and n = "''C''" and
          rb = "fst (nv_registry_alloc_handle ?s ''C'')"])
       (simp_all add: reg_wf_registry_new, simp_all add: nv_registry_new_def reg_defs)
  then show ?thesis by (simp add: Let_def)
qed

end
