(* ===== verification/NV_Table.thy ===== *)
theory NV_Table
  imports NV_Registry
begin

text \<open>
  The name-value table of \<^verbatim>\<open>lib/nvtable.c\<close>, which stores the fields of a log message in one
  block of memory: the header, the offsets of the static values, the sorted array of dynamic values,
  free space, and the entries, allocated downwards from the top of the block.

  An entry is named by its offset from the top, as in the source, so that growing the block moves no
  entry; 0 is the null pointer. The entries are a map from offsets to records, and the block's
  layout (sizes, alignment, free space) is kept as numbers, so that what the allocator checks can be
  proved to be enough. Where the C code would write outside its block, dereference a null pointer or
  recurse without end, the result is \<open>None\<close>.
\<close>

subsection \<open>Data\<close>

text \<open>The union of \<^verbatim>\<open>struct _NVEntry\<close>: a stored value, or a reference to a part of another value.\<close>

datatype nv_body =
    VDirect (direct_value: string)
  | VIndirect (vi_handle: nv_handle) (vi_ofs: nat) (vi_len: nat) (vi_type: guint8)

record nv_entry =
  ne_referenced :: bool
  ne_alloc_len :: nat
  ne_name :: string
  ne_body :: nv_body

fun indirect_body :: "nv_body \<Rightarrow> bool" where
  "indirect_body (VDirect v) = False"
| "indirect_body (VIndirect h ofs len ty) = True"

abbreviation ne_indirect :: "nv_entry \<Rightarrow> bool" where
  "ne_indirect e \<equiv> indirect_body (ne_body e)"

record nv_table =
  nt_size :: nat
  nt_used :: nat
  nt_ref_cnt :: nat
  nt_borrowed :: bool
  nt_static :: "nat list"
  nt_dyn :: "(nv_handle \<times> nat) list"
  nt_heap :: "nat \<Rightarrow> nv_entry option"

text \<open>Sizes in bytes of the C structures: \<^verbatim>\<open>NVTable\<close> up to its variable part is 12 bytes (16 with
  the alignment member), an \<^verbatim>\<open>NVDynValue\<close> 8, a direct entry's header 12 and \<^verbatim>\<open>sizeof(NVEntry)\<close>
  24, of which the indirect name starts at 21.\<close>

definition NV_TABLE_MAX_BYTES :: nat where
  "NV_TABLE_MAX_BYTES = 256 * 1024 * 1024"

definition NV_TABLE_BOUND :: "nat \<Rightarrow> nat" where
  "NV_TABLE_BOUND x = (x + 3) div 4 * 4"

definition NV_ENTRY_DIRECT_HDR :: nat where
  "NV_ENTRY_DIRECT_HDR = 12"

definition NV_ENTRY_INDIRECT_HDR :: nat where
  "NV_ENTRY_INDIRECT_HDR = 24"

abbreviation num_static_entries :: "nv_table \<Rightarrow> nat" where
  "num_static_entries t \<equiv> length (nt_static t)"

abbreviation num_dyn_entries :: "nv_table \<Rightarrow> nat" where
  "num_dyn_entries t \<equiv> length (nt_dyn t)"

subsection \<open>Creation\<close>

definition nv_table_get_alloc_size :: "nat \<Rightarrow> nat \<Rightarrow> nat \<Rightarrow> nat" where
  "nv_table_get_alloc_size num_static num_dyn init_length =
     (let size = NV_TABLE_BOUND init_length + NV_TABLE_BOUND (16 + num_static * 4 + num_dyn * 8)
      in if size < 128 then 128
         else if size > NV_TABLE_MAX_BYTES then NV_TABLE_MAX_BYTES else size)"

text \<open>\<open>None\<close>: the assertion on the length fails. The static count is a \<^verbatim>\<open>guint8\<close>.\<close>

definition nv_table_init :: "nat \<Rightarrow> nat \<Rightarrow> nv_table option" where
  "nv_table_init alloc_length num_static =
     (if alloc_length \<le> NV_TABLE_MAX_BYTES
      then Some \<lparr>nt_size = alloc_length, nt_used = 0, nt_ref_cnt = 1, nt_borrowed = False,
                 nt_static = replicate (num_static mod 256) 0, nt_dyn = [], nt_heap = Map.empty\<rparr>
      else None)"

definition nv_table_new :: "nat \<Rightarrow> nat \<Rightarrow> nat \<Rightarrow> nv_table option" where
  "nv_table_new num_static num_dyn init_length =
     nv_table_init (nv_table_get_alloc_size num_static num_dyn init_length) num_static"

definition nv_table_init_borrowed :: "nat \<Rightarrow> nat \<Rightarrow> nv_table option" where
  "nv_table_init_borrowed space_len num_static =
     (let space_len = space_len div 4 * 4
      in if space_len > num_static * 4 + 16
         then map_option (\<lambda>t. t\<lparr>nt_borrowed := True\<rparr>) (nv_table_init (NV_TABLE_BOUND space_len) num_static)
         else None)"

definition nv_table_clear :: "nv_table \<Rightarrow> nv_table option" where
  "nv_table_clear self =
     (if nt_ref_cnt self = 1
      then Some (self\<lparr>nt_used := 0, nt_dyn := [], nt_static := replicate (num_static_entries self) 0,
                      nt_heap := Map.empty\<rparr>)
      else None)"

subsection \<open>Finding an entry\<close>

text \<open>The binary search of \<^verbatim>\<open>nv_table_get_entry_slow\<close> and, with the stored handle cut to a
  \<^verbatim>\<open>guint16\<close> by \<open>key\<close>, of \<^verbatim>\<open>nv_table_reserve_table_entry\<close>: the index of the handle if it is
  found, and the final lower end.\<close>

definition guint16_of :: "nat \<Rightarrow> nat" where
  "guint16_of mv = mv mod 2 ^ 16"

function nv_dyn_search ::
    "(nat \<Rightarrow> nat) \<Rightarrow> (nv_handle \<times> nat) list \<Rightarrow> nv_handle \<Rightarrow> int \<Rightarrow> int \<Rightarrow> int option \<times> int" where
  "nv_dyn_search key dyn handle l h =
     (if l \<le> h then
        (let m = (l + h) div 2; mv = key (fst (dyn ! nat m))
         in if mv = handle then (Some m, l)
            else if mv > handle then nv_dyn_search key dyn handle l (m - 1)
            else nv_dyn_search key dyn handle (m + 1) h)
      else (None, l))"
  by pat_completeness auto
termination
  by (relation "measure (\<lambda>(key, dyn, handle, l, h). nat (h - l + 1))") (auto simp: Let_def)

declare nv_dyn_search.simps [simp del]

text \<open>A pair of the entry's offset (0: no entry) and the index of the dynamic slot.\<close>

definition nv_table_get_entry_slow :: "nv_table \<Rightarrow> nv_handle \<Rightarrow> nat \<times> nat option" where
  "nv_table_get_entry_slow self handle =
     (if nt_dyn self = [] then (0, None)
      else case fst (nv_dyn_search id (nt_dyn self) handle 0 (int (num_dyn_entries self) - 1)) of
             Some m \<Rightarrow> (snd (nt_dyn self ! nat m), Some (nat m))
           | None \<Rightarrow> (0, None))"

definition nv_table_get_entry :: "nv_table \<Rightarrow> nv_handle \<Rightarrow> nat \<times> nat option" where
  "nv_table_get_entry self handle =
     (if handle = 0 then (0, None)
      else if handle \<le> num_static_entries self then (nt_static self ! (handle - 1), None)
      else nv_table_get_entry_slow self handle)"

subsection \<open>Reading values\<close>

text \<open>The part of a referenced value: \<open>ofs + len\<close> is a \<^verbatim>\<open>guint32\<close> sum; \<open>None\<close> when it wraps
  around and the length would be negative.\<close>

definition nv_slice :: "string \<Rightarrow> nat \<Rightarrow> nat \<Rightarrow> string option" where
  "nv_slice referenced ofs len =
     (if ofs > length referenced then Some []
      else let e = min ((ofs + len) mod 2 ^ 32) (length referenced)
           in if e < ofs then None else Some (take (e - ofs) (drop ofs referenced)))"

text \<open>\<^verbatim>\<open>nv_table_get_value\<close> and \<^verbatim>\<open>nv_table_resolve_indirect\<close> call each other; the fuel bounds
  the chain of references. \<open>nv_table_get_value\<close> gives it one unit more than the table has slots,
  which is enough for every chain without a cycle.\<close>

fun nv_table_get_value_f :: "nat \<Rightarrow> nv_table \<Rightarrow> nv_handle \<Rightarrow> string option"
  and nv_table_resolve_entry_f :: "nat \<Rightarrow> nv_table \<Rightarrow> nv_entry \<Rightarrow> string option" where
  "nv_table_get_value_f 0 self handle = None"
| "nv_table_get_value_f (Suc fuel) self handle =
     (let (ofs, _) = nv_table_get_entry self handle
      in if ofs = 0 then Some []
         else case nt_heap self ofs of
                None \<Rightarrow> None
              | Some entry \<Rightarrow> nv_table_resolve_entry_f fuel self entry)"
| "nv_table_resolve_entry_f fuel self entry =
     (case ne_body entry of
        VDirect v \<Rightarrow> Some v
      | VIndirect h ofs len ty \<Rightarrow>
          (case fuel of
             0 \<Rightarrow> None
           | Suc n \<Rightarrow> (case nv_table_get_value_f fuel self h of
                        None \<Rightarrow> None
                      | Some v \<Rightarrow> nv_slice v ofs len)))"

definition nv_fuel :: "nv_table \<Rightarrow> nat" where
  "nv_fuel self = Suc (Suc (num_static_entries self + num_dyn_entries self))"

definition nv_table_get_value :: "nv_table \<Rightarrow> nv_handle \<Rightarrow> string option" where
  "nv_table_get_value self handle = nv_table_get_value_f (nv_fuel self) self handle"

definition nv_table_resolve_entry :: "nv_table \<Rightarrow> nv_entry \<Rightarrow> string option" where
  "nv_table_resolve_entry self entry = nv_table_resolve_entry_f (nv_fuel self) self entry"

subsection \<open>Allocation inside the block\<close>

definition nv_ofs_table_top :: "nv_table \<Rightarrow> nat" where
  "nv_ofs_table_top self = 12 + num_static_entries self * 4 + num_dyn_entries self * 8"

definition nv_table_get_bottom :: "nv_table \<Rightarrow> int" where
  "nv_table_get_bottom self = int (nt_size self) - int (nt_used self)"

definition nv_table_alloc_check :: "nv_table \<Rightarrow> nat \<Rightarrow> bool" where
  "nv_table_alloc_check self alloc_size \<longleftrightarrow>
     \<not> (nv_table_get_bottom self - int alloc_size < int (nv_ofs_table_top self))"

definition nv_table_alloc_value :: "nv_table \<Rightarrow> nat \<Rightarrow> (nat \<times> nv_table) option" where
  "nv_table_alloc_value self alloc_size =
     (let alloc_size = NV_TABLE_BOUND alloc_size
      in if \<not> nv_table_alloc_check self alloc_size then None
         else let ofs = nt_used self + alloc_size
              in Some (ofs, self\<lparr>nt_used := ofs,
                   nt_heap := (nt_heap self)(ofs \<mapsto> \<lparr>ne_referenced = False, ne_alloc_len = alloc_size,
                                                     ne_name = [], ne_body = VDirect []\<rparr>)\<rparr>))"

text \<open>\<open>None\<close>: no room for a slot. The \<^verbatim>\<open>memmove\<close> shifts the slots from the insertion point on;
  when the slot was found the count stays, so the last slot drops out.\<close>

definition nv_table_reserve_table_entry ::
    "nv_table \<Rightarrow> nv_handle \<Rightarrow> nat option \<Rightarrow> (nv_table \<times> nat option) option" where
  "nv_table_reserve_table_entry self handle dyn_slot =
     (if dyn_slot = None \<and> handle > num_static_entries self then
        (if \<not> nv_table_alloc_check self 8 then None
         else let (found, l) = nv_dyn_search guint16_of (nt_dyn self) handle 0
                                 (int (num_dyn_entries self) - 1);
                  ndx = nat (case found of Some m \<Rightarrow> m | None \<Rightarrow> l);
                  moved = take ndx (nt_dyn self) @ (handle, 0) # drop ndx (nt_dyn self)
              in Some (self\<lparr>nt_dyn := if found = None then moved
                                       else take (num_dyn_entries self) moved\<rparr>, Some ndx))
      else Some (self, dyn_slot))"

text \<open>\<open>None\<close>: handle 0 would write before the static array, a missing slot through a null pointer.\<close>

definition nv_table_set_table_entry ::
    "nv_table \<Rightarrow> nv_handle \<Rightarrow> nat \<Rightarrow> nat option \<Rightarrow> nv_table option" where
  "nv_table_set_table_entry self handle ofs dyn_slot =
     (if handle \<le> num_static_entries self then
        (if handle = 0 then None else Some (self\<lparr>nt_static := (nt_static self)[handle - 1 := ofs]\<rparr>))
      else case dyn_slot of
             None \<Rightarrow> None
           | Some i \<Rightarrow> Some (self\<lparr>nt_dyn := (nt_dyn self)[i := (handle, ofs)]\<rparr>))"

text \<open>Writing an entry in place.\<close>

definition nv_put :: "nat \<Rightarrow> nv_entry \<Rightarrow> nv_table \<Rightarrow> nv_table" where
  "nv_put ofs e self = self\<lparr>nt_heap := (nt_heap self)(ofs \<mapsto> e)\<rparr>"

subsection \<open>Iteration\<close>

text \<open>\<^verbatim>\<open>nv_table_foreach_entry\<close>: the callback gets the handle, the entry and the state, and stops the
  iteration by returning \<open>True\<close>. \<open>tab\<close> reads the table out of the state, for callbacks that change
  it; the two loops run over the indices that are in range when they start, which no callback of the
  source changes.\<close>

fun nv_foreach_static ::
    "(nv_handle \<Rightarrow> nat \<Rightarrow> 's \<Rightarrow> (bool \<times> 's) option) \<Rightarrow> ('s \<Rightarrow> nv_table) \<Rightarrow> nat list \<Rightarrow> 's \<Rightarrow> (bool \<times> 's) option" where
  "nv_foreach_static func tab [] s = Some (False, s)"
| "nv_foreach_static func tab (i # is) s =
     (let ofs = nt_static (tab s) ! i
      in if ofs = 0 then nv_foreach_static func tab is s
         else case func (i + 1) ofs s of
                None \<Rightarrow> None
              | Some (stop, s') \<Rightarrow> if stop then Some (True, s') else nv_foreach_static func tab is s')"

fun nv_foreach_dyn ::
    "(nv_handle \<Rightarrow> nat \<Rightarrow> 's \<Rightarrow> (bool \<times> 's) option) \<Rightarrow> ('s \<Rightarrow> nv_table) \<Rightarrow> nat list \<Rightarrow> 's \<Rightarrow> (bool \<times> 's) option" where
  "nv_foreach_dyn func tab [] s = Some (False, s)"
| "nv_foreach_dyn func tab (i # is) s =
     (let (handle, ofs) = nt_dyn (tab s) ! i
      in if ofs = 0 then nv_foreach_dyn func tab is s
         else case func handle ofs s of
                None \<Rightarrow> None
              | Some (stop, s') \<Rightarrow> if stop then Some (True, s') else nv_foreach_dyn func tab is s')"

definition nv_table_foreach_entry ::
    "(nv_handle \<Rightarrow> nat \<Rightarrow> 's \<Rightarrow> (bool \<times> 's) option) \<Rightarrow> ('s \<Rightarrow> nv_table) \<Rightarrow> 's \<Rightarrow> (bool \<times> 's) option" where
  "nv_table_foreach_entry func tab s =
     (case nv_foreach_static func tab [0..<num_static_entries (tab s)] s of
        None \<Rightarrow> None
      | Some (stop, s') \<Rightarrow>
          if stop then Some (True, s') else nv_foreach_dyn func tab [0..<num_dyn_entries (tab s')] s')"

definition nv_table_call_foreach ::
    "nv_table \<Rightarrow> nv_registry \<Rightarrow> (nv_handle \<Rightarrow> string \<Rightarrow> string \<Rightarrow> 'd \<Rightarrow> bool \<times> 'd) \<Rightarrow>
     nv_handle \<Rightarrow> nat \<Rightarrow> 'd \<Rightarrow> (bool \<times> 'd) option" where
  "nv_table_call_foreach self registry func handle ofs d =
     (case nt_heap self ofs of
        None \<Rightarrow> None
      | Some entry \<Rightarrow>
          (case (nv_table_resolve_entry self entry, nv_registry_get_handle_name registry handle) of
             (Some value, Some (name, _)) \<Rightarrow> Some (func handle name value d)
           | _ \<Rightarrow> None))"

definition nv_table_foreach ::
    "nv_table \<Rightarrow> nv_registry \<Rightarrow> (nv_handle \<Rightarrow> string \<Rightarrow> string \<Rightarrow> 'd \<Rightarrow> bool \<times> 'd) \<Rightarrow> 'd \<Rightarrow> (bool \<times> 'd) option" where
  "nv_table_foreach self registry func d =
     nv_table_foreach_entry (nv_table_call_foreach self registry func) (\<lambda>_. self) d"

subsection \<open>Storing values\<close>

text \<open>Results of the storing operations: what the function returns, what it wrote to
  \<^verbatim>\<open>*new_entry\<close>, and the table.\<close>

type_synonym nv_result = "(bool \<times> bool \<times> nv_table) option"

text \<open>\<^verbatim>\<open>nv_table_add_value\<close> from the point where nothing references the old value any more: overwrite
  in place when the value fits in the old allocation, otherwise reserve a slot and allocate.\<close>

definition nv_table_store_new ::
    "nv_table \<Rightarrow> nv_handle \<Rightarrow> string \<Rightarrow> string \<Rightarrow> bool \<Rightarrow> nat option \<Rightarrow> nv_result" where
  "nv_table_store_new self handle name value new_entry dyn_slot =
     (case nv_table_reserve_table_entry self handle dyn_slot of
        None \<Rightarrow> Some (False, new_entry, self)
      | Some (t1, slot) \<Rightarrow>
          (case nv_table_alloc_value t1 (NV_ENTRY_DIRECT_HDR + length name + length value + 2) of
             None \<Rightarrow> Some (False, new_entry, t1)
           | Some (ofs, t2) \<Rightarrow>
               let entry = the (nt_heap t2 ofs);
                   t3 = nv_put ofs (entry\<lparr>ne_name := if handle \<ge> num_static_entries self then name else [],
                                          ne_body := VDirect value\<rparr>) t2
               in map_option (\<lambda>t4. (True, new_entry, t4)) (nv_table_set_table_entry t3 handle ofs slot)))"

definition nv_table_store_value ::
    "nv_table \<Rightarrow> nv_handle \<Rightarrow> string \<Rightarrow> string \<Rightarrow> bool \<Rightarrow> nat \<Rightarrow> nat option \<Rightarrow> nv_result" where
  "nv_table_store_value self handle name value want_new ofs dyn_slot =
     (let entry = (if ofs = 0 then None else nt_heap self ofs)
      in if ofs \<noteq> 0 \<and> entry = None then None
         else case entry of
           Some e \<Rightarrow>
             if ne_alloc_len e \<ge> length value + NV_ENTRY_DIRECT_HDR + length name + 2
             then Some (True, False, nv_put ofs
                    (if ne_indirect e then e\<lparr>ne_name := name, ne_body := VDirect value\<rparr>
                     else e\<lparr>ne_body := VDirect value\<rparr>) self)
             else nv_table_store_new self handle name value False dyn_slot
         | None \<Rightarrow> nv_table_store_new self handle name value want_new dyn_slot)"

text \<open>\<^verbatim>\<open>nv_table_make_direct\<close>, the callback that turns an entry referring to \<open>ref\<close> into a direct one;
  \<open>add\<close> is \<^verbatim>\<open>nv_table_add_value\<close>, which calls it. It returns \<open>True\<close>, stopping the iteration, when
  the table is full.\<close>

definition nv_table_make_direct ::
    "(nv_table \<Rightarrow> nv_handle \<Rightarrow> string \<Rightarrow> string \<Rightarrow> nv_result) \<Rightarrow> nv_handle \<Rightarrow>
     nv_handle \<Rightarrow> nat \<Rightarrow> nv_table \<Rightarrow> (bool \<times> nv_table) option" where
  "nv_table_make_direct add ref handle ofs self =
     (case nt_heap self ofs of
        None \<Rightarrow> None
      | Some entry \<Rightarrow>
          if ne_indirect entry \<and> vi_handle (ne_body entry) = ref then
            (case nv_table_resolve_entry self entry of
               None \<Rightarrow> None
             | Some value \<Rightarrow>
                 (case add self handle (ne_name entry) value of
                    None \<Rightarrow> None
                  | Some (ok, _, t') \<Rightarrow> Some (\<not> ok, t')))
          else Some (False, self))"

text \<open>The fuel bounds the depth of the recursion through \<^verbatim>\<open>nv_table_make_direct\<close>; 2 is enough, since
  the entries it stores are indirect and an indirect entry starts no further iteration.\<close>

fun nv_table_add_value_f ::
    "nat \<Rightarrow> nv_table \<Rightarrow> nv_handle \<Rightarrow> string \<Rightarrow> string \<Rightarrow> bool \<Rightarrow> nv_result" where
  "nv_table_add_value_f 0 self handle name value want_new = None"
| "nv_table_add_value_f (Suc fuel) self handle name value want_new =
     (let value = take NV_TABLE_MAX_BYTES value;
          (ofs, dyn_slot) = nv_table_get_entry self handle
      in if ofs = 0 \<and> \<not> want_new \<and> value = [] then Some (True, False, self)
         else case (if ofs \<noteq> 0 \<and> (case nt_heap self ofs of None \<Rightarrow> False
                                   | Some e \<Rightarrow> \<not> ne_indirect e \<and> ne_referenced e)
                    then nv_table_foreach_entry
                           (nv_table_make_direct (\<lambda>t h n v. nv_table_add_value_f fuel t h n v False) handle) (\<lambda>t. t) self
                    else Some (False, self)) of
                None \<Rightarrow> None
              | Some (stopped, t1) \<Rightarrow>
                  if stopped then Some (False, False, t1)
                  else nv_table_store_value t1 handle name value want_new ofs dyn_slot)"

declare nv_table_add_value_f.simps [simp del]

definition nv_table_add_value ::
    "nv_table \<Rightarrow> nv_handle \<Rightarrow> string \<Rightarrow> string \<Rightarrow> bool \<Rightarrow> nv_result" where
  "nv_table_add_value self handle name value want_new =
     nv_table_add_value_f 2 self handle name value want_new"

subsection \<open>Storing references\<close>

text \<open>\<^verbatim>\<open>ref_entry->referenced = TRUE\<close>; \<open>None\<close> is the dereference of a null \<^verbatim>\<open>ref_entry\<close>.\<close>

definition nv_mark_referenced :: "nat \<Rightarrow> nv_table \<Rightarrow> nv_table option" where
  "nv_mark_referenced ref_ofs self =
     (if ref_ofs = 0 then None
      else map_option (\<lambda>e. nv_put ref_ofs (e\<lparr>ne_referenced := True\<rparr>) self) (nt_heap self ref_ofs))"

text \<open>The in-place part: the old allocation has room for the reference.\<close>

definition nv_table_overwrite_indirect ::
    "nv_table \<Rightarrow> nv_handle \<Rightarrow> string \<Rightarrow> nv_body \<Rightarrow> nat \<Rightarrow> nat \<Rightarrow> nv_result" where
  "nv_table_overwrite_indirect self handle name body ref_ofs ofs =
     (case nv_mark_referenced ref_ofs self of
        None \<Rightarrow> None
      | Some t1 \<Rightarrow>
          (case nt_heap t1 ofs of
             None \<Rightarrow> None
           | Some e \<Rightarrow>
               Some (True, False, nv_put ofs
                 (if ne_indirect e then e\<lparr>ne_body := body\<rparr>
                  else e\<lparr>ne_body := body,
                         ne_name := if handle \<ge> num_static_entries self then name else []\<rparr>) t1)))"

definition nv_table_store_new_indirect ::
    "nv_table \<Rightarrow> nv_handle \<Rightarrow> string \<Rightarrow> nv_body \<Rightarrow> nat \<Rightarrow> bool \<Rightarrow> nat option \<Rightarrow> nv_result" where
  "nv_table_store_new_indirect self handle name body ref_ofs new_entry dyn_slot =
     (case nv_table_reserve_table_entry self handle dyn_slot of
        None \<Rightarrow> Some (False, new_entry, self)
      | Some (t1, slot) \<Rightarrow>
          (case nv_table_alloc_value t1 (NV_ENTRY_INDIRECT_HDR + length name + 1) of
             None \<Rightarrow> Some (False, new_entry, t1)
           | Some (ofs, t2) \<Rightarrow>
               let entry = the (nt_heap t2 ofs);
                   t3 = nv_put ofs (entry\<lparr>ne_body := body,
                          ne_name := if handle \<ge> num_static_entries self then name else []\<rparr>) t2
               in case nv_mark_referenced ref_ofs t3 of
                    None \<Rightarrow> None
                  | Some t4 \<Rightarrow> map_option (\<lambda>t5. (True, new_entry, t5))
                                 (nv_table_set_table_entry t4 handle ofs slot)))"

text \<open>Note the test of the iteration's result: unlike \<^verbatim>\<open>nv_table_add_value\<close>, the function gives up when
  the iteration ran to its end and goes on when it was stopped.\<close>

definition nv_table_add_value_indirect ::
    "nv_table \<Rightarrow> nv_handle \<Rightarrow> string \<Rightarrow> nv_handle \<Rightarrow> guint8 \<Rightarrow> nat \<Rightarrow> nat \<Rightarrow> bool \<Rightarrow> nv_result" where
  "nv_table_add_value_indirect self handle name ref ty rofs rlen want_new =
     (let (ref_ofs, _) = nv_table_get_entry self ref;
          ref_entry = (if ref_ofs = 0 then None else nt_heap self ref_ofs)
      in if (case ref_entry of None \<Rightarrow> False | Some e \<Rightarrow> ne_indirect e) then
           (case nv_table_resolve_entry self (the ref_entry) of
              None \<Rightarrow> None
            | Some v \<Rightarrow>
                let (rofs, rlen) = (if rofs > length v then (0, 0)
                                    else (rofs, min ((rofs + rlen) mod 2 ^ 32) (length v) - rofs))
                in nv_table_add_value self handle name (take rlen (drop rofs v)) want_new)
         else
           let (ofs, dyn_slot) = nv_table_get_entry self handle
           in if ofs = 0 \<and> \<not> want_new \<and> (rlen = 0 \<or> ref_ofs = 0) then Some (True, False, self)
              else case (if ofs \<noteq> 0 \<and> (case nt_heap self ofs of None \<Rightarrow> False
                                        | Some e \<Rightarrow> \<not> ne_indirect e \<and> ne_referenced e)
                         then nv_table_foreach_entry
                                (nv_table_make_direct (\<lambda>t h n v. nv_table_add_value t h n v False) handle) (\<lambda>t. t) self
                         else Some (True, self)) of
                     None \<Rightarrow> None
                   | Some (stopped, t1) \<Rightarrow>
                       if \<not> stopped then Some (False, False, t1)
                       else if ofs \<noteq> 0 \<and> (case nt_heap t1 ofs of None \<Rightarrow> False
                               | Some e \<Rightarrow> ne_alloc_len e \<ge> NV_ENTRY_INDIRECT_HDR + length name + 1)
                       then nv_table_overwrite_indirect t1 handle name (VIndirect ref rofs rlen ty) ref_ofs ofs
                       else nv_table_store_new_indirect t1 handle name (VIndirect ref rofs rlen ty) ref_ofs
                              (ofs = 0 \<and> want_new) dyn_slot)"

subsection \<open>Growing, sharing and cloning\<close>

definition nv_table_ref :: "nv_table \<Rightarrow> nv_table" where
  "nv_table_ref self = self\<lparr>nt_ref_cnt := (nt_ref_cnt self + 1) mod 128\<rparr>"

text \<open>\<open>None\<close>: the block was freed.\<close>

definition nv_table_unref :: "nv_table \<Rightarrow> nv_table option" where
  "nv_table_unref self =
     (let cnt = (nt_ref_cnt self + 127) mod 128
      in if cnt = 0 \<and> \<not> nt_borrowed self then None else Some (self\<lparr>nt_ref_cnt := cnt\<rparr>))"

text \<open>\<^verbatim>\<open>nv_table_realloc\<close>: \<open>None\<close> when the table cannot grow, otherwise the new table and what is left
  of the old one. In the copying branch the header is copied with the old \<^verbatim>\<open>size\<close>, which the source
  does not change afterwards.\<close>

definition nv_table_realloc :: "nv_table \<Rightarrow> (nv_table \<times> nv_table option) option" where
  "nv_table_realloc self =
     (let old_size = nt_size self;
          new_size = min (old_size * 2) NV_TABLE_MAX_BYTES
      in if new_size = old_size then None
         else if nt_ref_cnt self = 1 \<and> \<not> nt_borrowed self
         then Some (self\<lparr>nt_size := new_size\<rparr>, None)
         else Some (self\<lparr>nt_ref_cnt := 1, nt_borrowed := False\<rparr>, nv_table_unref self))"

definition nv_table_clone :: "nv_table \<Rightarrow> nat \<Rightarrow> nv_table" where
  "nv_table_clone self additional_space =
     (let new_size = (if nv_table_get_bottom self - int (nv_ofs_table_top self) < int additional_space
                      then nt_size self else nt_size self + NV_TABLE_BOUND additional_space)
      in self\<lparr>nt_size := new_size, nt_ref_cnt := 1, nt_borrowed := False\<rparr>)"

end
