(* ===== verification/NV_Table_Props.thy ===== *)
theory NV_Table_Props
  imports NV_Table
begin

text \<open>
  Correctness of the name-value table. The dynamic array's binary search is a map lookup; the
  invariant \<open>nv_wf\<close> covers the layout of the block (entries aligned, disjoint, inside the used
  area, which never meets the offset tables) and the references (they point to stored values, which
  are marked); \<open>nv_val\<close> is the abstract content. Storing a value changes the abstract content at
  its own handle only, although values that refer to it have to be rewritten on the way.
\<close>

subsection \<open>The dynamic array\<close>

abbreviation dyn_keys :: "nv_table \<Rightarrow> nv_handle list" where
  "dyn_keys t \<equiv> map fst (nt_dyn t)"

definition dyn_ok :: "nv_table \<Rightarrow> bool" where
  "dyn_ok t \<longleftrightarrow> num_static_entries t < 256 \<and> sorted_wrt (<) (dyn_keys t) \<and>
     (\<forall>h \<in> set (dyn_keys t). num_static_entries t < h \<and> h < 2 ^ 16)"

lemma nv_dyn_search_spec:
  assumes "sorted_wrt (<) (map fst dyn)" "\<forall>x \<in> set (map fst dyn). key x = x"
    and "0 \<le> l" "h < int (length dyn)" "l \<le> h + 1"
    and "\<forall>i. i < nat l \<longrightarrow> fst (dyn ! i) < handle"
    and "\<forall>i. nat (h + 1) \<le> i \<and> i < length dyn \<longrightarrow> handle < fst (dyn ! i)"
  shows "case nv_dyn_search key dyn handle l h of
     (Some m, _) \<Rightarrow> 0 \<le> m \<and> nat m < length dyn \<and> fst (dyn ! nat m) = handle
   | (None, p) \<Rightarrow> 0 \<le> p \<and> nat p \<le> length dyn \<and> (\<forall>i < nat p. fst (dyn ! i) < handle) \<and>
       (\<forall>i. nat p \<le> i \<and> i < length dyn \<longrightarrow> handle < fst (dyn ! i))"
  using assms
proof (induction key dyn handle l h rule: nv_dyn_search.induct)
  case (1 key dyn handle l h)
  show ?case
  proof (cases "l \<le> h")
    case False
    with "1.prems" show ?thesis
      by (subst nv_dyn_search.simps) (auto simp: nat_le_iff)
  next
    case True
    define m where "m = (l + h) div 2"
    have m: "l \<le> m" "m \<le> h" "0 \<le> m" "nat m < length dyn"
      using True "1.prems" by (auto simp: m_def)
    have km: "key (fst (dyn ! nat m)) = fst (dyn ! nat m)" using "1.prems"(2) m by simp
    have mono: "fst (dyn ! i) < fst (dyn ! j)" if "i < j" "j < length dyn" for i j
      using sorted_wrt_nth_gap[OF "1.prems"(1), of i j] that by simp
    consider "fst (dyn ! nat m) = handle" | "fst (dyn ! nat m) > handle" | "fst (dyn ! nat m) < handle"
      by linarith
    then show ?thesis
    proof cases
      case 1
      with True m km show ?thesis
        by (subst nv_dyn_search.simps) (simp add: Let_def m_def[symmetric])
    next
      case 2
      have "\<forall>i. nat (m - 1 + 1) \<le> i \<and> i < length dyn \<longrightarrow> handle < fst (dyn ! i)"
        using 2 mono[of "nat m"] by (metis diff_add_cancel le_neq_implies_less less_trans)
      with "1.IH"(1)[OF True m_def refl] 2 "1.prems" m km True show ?thesis
        by (subst nv_dyn_search.simps) (simp add: Let_def m_def[symmetric])
    next
      case 3
      have lt: "\<forall>i. i < nat (m + 1) \<longrightarrow> fst (dyn ! i) < handle"
        using 3 mono[of _ "nat m"] m by (metis less_Suc_eq less_trans nat_add_distrib
          nat_one_as_int One_nat_def Suc_eq_plus1 zero_le_one)
      have nlt: "\<not> fst (dyn ! nat m) > handle" "fst (dyn ! nat m) \<noteq> handle" using 3 by auto
      show ?thesis
        using "1.IH"(2)[OF True m_def refl] nlt lt "1.prems" m km True
        by (subst nv_dyn_search.simps) (simp add: Let_def m_def[symmetric])
    qed
  qed
qed

lemma dyn_search_full:
  assumes "dyn_ok t" "key = id \<or> key = guint16_of"
  shows "case nv_dyn_search key (nt_dyn t) handle 0 (int (num_dyn_entries t) - 1) of
     (Some m, _) \<Rightarrow> 0 \<le> m \<and> nat m < num_dyn_entries t \<and> fst (nt_dyn t ! nat m) = handle
   | (None, p) \<Rightarrow> 0 \<le> p \<and> nat p \<le> num_dyn_entries t \<and> (\<forall>i < nat p. fst (nt_dyn t ! i) < handle) \<and>
       (\<forall>i. nat p \<le> i \<and> i < num_dyn_entries t \<longrightarrow> handle < fst (nt_dyn t ! i))"
  by (rule nv_dyn_search_spec) (use assms in \<open>auto simp: dyn_ok_def guint16_of_def\<close>)

text \<open>The abstract slot table: the offset stored for a handle, 0 when there is none.\<close>

definition nv_ofs :: "nv_table \<Rightarrow> nv_handle \<Rightarrow> nat" where
  "nv_ofs t h = (if h = 0 then 0 else if h \<le> num_static_entries t then nt_static t ! (h - 1)
     else case map_of (nt_dyn t) h of Some ofs \<Rightarrow> ofs | None \<Rightarrow> 0)"

text \<open>A slot index that \<^verbatim>\<open>nv_table_get_entry\<close> may have found for a handle.\<close>

definition slot_ok :: "nv_table \<Rightarrow> nv_handle \<Rightarrow> nat option \<Rightarrow> bool" where
  "slot_ok t h slot \<longleftrightarrow> (case slot of
      Some i \<Rightarrow> i < num_dyn_entries t \<and> fst (nt_dyn t ! i) = h \<and> num_static_entries t < h
    | None \<Rightarrow> h \<le> num_static_entries t \<or> h \<notin> set (dyn_keys t))"

lemma dyn_keys_distinct: "dyn_ok t \<Longrightarrow> distinct (dyn_keys t)"
  by (simp add: dyn_ok_def strict_sorted_iff)

lemma map_of_dyn_nth:
  assumes "dyn_ok t" "i < num_dyn_entries t"
  shows "map_of (nt_dyn t) (fst (nt_dyn t ! i)) = Some (snd (nt_dyn t ! i))"
  using assms dyn_keys_distinct by (simp add: map_of_eq_Some_iff)

lemma get_entry_slow_spec:
  assumes "dyn_ok t" "num_static_entries t < h"
  shows "fst (nv_table_get_entry_slow t h) = nv_ofs t h \<and> slot_ok t h (snd (nv_table_get_entry_slow t h))"
proof (cases "fst (nv_dyn_search id (nt_dyn t) h 0 (int (num_dyn_entries t) - 1))")
  case None
  then obtain p where p: "nv_dyn_search id (nt_dyn t) h 0 (int (num_dyn_entries t) - 1) = (None, p)"
    by (metis prod.collapse)
  with dyn_search_full[OF assms(1), of id h]
  have "\<forall>i < num_dyn_entries t. fst (nt_dyn t ! i) \<noteq> h"
    by (simp add: p) (metis less_irrefl not_le)
  then have "h \<notin> set (dyn_keys t)"
    by (metis in_set_conv_nth length_map nth_map)
  moreover from this have "map_of (nt_dyn t) h = None"
    by (simp add: map_of_eq_None_iff)
  ultimately show ?thesis
    using None assms by (simp add: nv_table_get_entry_slow_def nv_ofs_def slot_ok_def)
next
  case (Some m)
  then obtain p where p: "nv_dyn_search id (nt_dyn t) h 0 (int (num_dyn_entries t) - 1) = (Some m, p)"
    by (metis prod.collapse)
  with dyn_search_full[OF assms(1), of id h]
  have m: "nat m < num_dyn_entries t" "fst (nt_dyn t ! nat m) = h" by (simp_all add: p)
  with map_of_dyn_nth[OF assms(1) m(1)] assms Some show ?thesis
    by (auto simp: nv_table_get_entry_slow_def nv_ofs_def slot_ok_def)
qed

lemma get_entry_spec:
  assumes "dyn_ok t"
  shows "fst (nv_table_get_entry t h) = nv_ofs t h \<and> slot_ok t h (snd (nv_table_get_entry t h))"
  using assms get_entry_slow_spec[of t h]
  by (auto simp: nv_table_get_entry_def nv_ofs_def slot_ok_def)

lemma get_entry_pair:
  assumes "dyn_ok t"
  obtains slot where "nv_table_get_entry t h = (nv_ofs t h, slot)" "slot_ok t h slot"
  using get_entry_spec[OF assms, of h] by (metis prod.collapse)

text \<open>Reserving a slot keeps every stored offset and the order of the array.\<close>

lemma sorted_insert_at:
  assumes "sorted_wrt (<) (xs :: nat list)" "p \<le> length xs"
    and "\<forall>i < p. xs ! i < x" "\<forall>i. p \<le> i \<and> i < length xs \<longrightarrow> x < xs ! i"
  shows "sorted_wrt (<) (take p xs @ x # drop p xs)"
proof -
  have "\<forall>y \<in> set (take p xs). y < x" using assms(2,3) by (auto simp: in_set_conv_nth)
  moreover have "\<forall>y \<in> set (drop p xs). x < y"
    using assms(4) by (auto simp: in_set_conv_nth)
  moreover have "sorted_wrt (<) (take p xs @ drop p xs)" using assms(1) by simp
  ultimately show ?thesis
    by (auto simp: sorted_wrt_append simp del: append_take_drop_id intro: less_trans)
qed

lemma map_of_insert_at:
  "h \<notin> fst ` set xs \<Longrightarrow>
     map_of (take p xs @ (h, v) # drop p xs) = (map_of xs)(h \<mapsto> v)"
proof -
  assume h: "h \<notin> fst ` set xs"
  have "map_of xs = map_of (drop p xs) ++ map_of (take p xs)"
    by (simp flip: map_of_append)
  moreover have "h \<notin> dom (map_of (take p xs))"
    using h by (auto simp: dom_map_of_conv_image_fst dest: in_set_takeD)
  ultimately show ?thesis by (auto simp: map_add_def fun_eq_iff split: option.splits)
qed

lemma map_of_update_at:
  "i < length xs \<Longrightarrow> fst (xs ! i) = h \<Longrightarrow> h \<notin> fst ` set (take i xs) \<Longrightarrow>
     map_of (xs[i := (h, v)]) = (map_of xs)(h \<mapsto> v)"
proof (induction xs arbitrary: i)
  case (Cons x xs)
  then show ?case by (cases i) (auto simp: fun_eq_iff)
qed simp

lemma distinct_key_take:
  "distinct (map fst xs) \<Longrightarrow> i < length xs \<Longrightarrow> fst (xs ! i) \<notin> fst ` set (take i xs)"
proof (induction xs arbitrary: i)
  case (Cons x xs)
  then show ?case by (cases i) (auto, metis image_eqI nth_mem)
qed simp

lemma reserve_spec:
  assumes ok: "dyn_ok t" and slot: "slot_ok t h slot" and h: "h < 2 ^ 16"
    and r: "nv_table_reserve_table_entry t h slot = Some (t', slot')"
  shows "dyn_ok t' \<and> slot_ok t' h slot' \<and> (h > num_static_entries t \<longrightarrow> slot' \<noteq> None) \<and>
    nv_ofs t' = nv_ofs t \<and> nt_heap t' = nt_heap t \<and> nt_used t' = nt_used t \<and> nt_size t' = nt_size t \<and>
    nt_static t' = nt_static t \<and>
    (nv_ofs_table_top t + nt_used t \<le> nt_size t \<longrightarrow> nv_ofs_table_top t' + nt_used t' \<le> nt_size t')"
proof (cases "slot = None \<and> h > num_static_entries t")
  case False
  with r slot ok show ?thesis
    by (auto simp: nv_table_reserve_table_entry_def slot_ok_def split: if_splits option.splits)
next
  case True
  with slot have notin: "h \<notin> set (dyn_keys t)" by (simp add: slot_ok_def)
  let ?s = "nv_dyn_search guint16_of (nt_dyn t) h 0 (int (num_dyn_entries t) - 1)"
  obtain f p where fp: "?s = (f, p)" by (cases ?s)
  have f: "f = None"
  proof (cases f)
    case (Some m)
    with dyn_search_full[OF ok, of guint16_of h] fp
    have "nat m < num_dyn_entries t" "fst (nt_dyn t ! nat m) = h" by simp_all
    then have "h \<in> set (dyn_keys t)" by (metis length_map nth_map nth_mem)
    with notin show ?thesis by simp
  qed
  from dyn_search_full[OF ok, of guint16_of h] fp f
  have p: "nat p \<le> num_dyn_entries t" "\<forall>i < nat p. dyn_keys t ! i < h"
      "\<forall>i. nat p \<le> i \<and> i < length (dyn_keys t) \<longrightarrow> h < dyn_keys t ! i"
    by auto
  let ?d = "take (nat p) (nt_dyn t) @ (h, 0) # drop (nat p) (nt_dyn t)"
  from True r fp f have t': "t' = t\<lparr>nt_dyn := ?d\<rparr>" "slot' = Some (nat p)"
    and room: "nv_table_alloc_check t 8"
    by (auto simp: nv_table_reserve_table_entry_def Let_def split: if_splits)
  have keys: "dyn_keys t' = take (nat p) (dyn_keys t) @ h # drop (nat p) (dyn_keys t)"
    and ns: "nt_static t' = nt_static t"
    by (simp_all add: t' take_map drop_map)
  have sub: "set (take (nat p) (dyn_keys t)) \<subseteq> set (dyn_keys t)" "set (drop (nat p) (dyn_keys t)) \<subseteq> set (dyn_keys t)"
    by (rule set_take_subset, rule set_drop_subset)
  have "dyn_ok t'"
    using ok True h p sorted_insert_at[of "dyn_keys t" "nat p" h] sub
    unfolding dyn_ok_def keys ns by (auto simp del: set_map)
  moreover have "map_of ?d = (map_of (nt_dyn t))(h \<mapsto> 0)"
    using notin by (intro map_of_insert_at) simp
  then have "nv_ofs t' = nv_ofs t"
    using notin by (auto simp: fun_eq_iff nv_ofs_def t' map_of_eq_None_iff[symmetric] split: option.splits)
  moreover have "slot_ok t' h slot'"
    using p True by (simp add: slot_ok_def t' nth_append)
  ultimately show ?thesis
    using room p by (auto simp: t' nv_table_alloc_check_def nv_ofs_table_top_def nv_table_get_bottom_def)
qed

lemma set_table_entry_spec:
  assumes ok: "dyn_ok t" and slot: "slot_ok t h slot" and h: "0 < h"
    and some: "h > num_static_entries t \<longrightarrow> slot \<noteq> None"
  obtains t' where "nv_table_set_table_entry t h ofs slot = Some t'" "dyn_ok t'"
    "nv_ofs t' = (nv_ofs t)(h := ofs)" "nt_heap t' = nt_heap t" "nt_used t' = nt_used t"
    "nt_size t' = nt_size t" "num_static_entries t' = num_static_entries t" "dyn_keys t' = dyn_keys t"
proof (cases "h \<le> num_static_entries t")
  case True
  let ?t = "t\<lparr>nt_static := (nt_static t)[h - 1 := ofs]\<rparr>"
  have "nv_ofs ?t = (nv_ofs t)(h := ofs)"
    using True h by (auto simp: fun_eq_iff nv_ofs_def nth_list_update)
  with True h ok show thesis
    by (intro that[of ?t]) (simp_all add: nv_table_set_table_entry_def dyn_ok_def)
next
  case False
  then obtain i where i: "slot = Some i" "i < num_dyn_entries t" "fst (nt_dyn t ! i) = h"
    using slot some by (auto simp: slot_ok_def split: option.splits)
  let ?t = "t\<lparr>nt_dyn := (nt_dyn t)[i := (h, ofs)]\<rparr>"
  have keys: "dyn_keys ?t = dyn_keys t"
    using i by (simp add: map_update) (metis list_update_id nth_map)
  then have dk: "dyn_ok ?t" using ok by (simp add: dyn_ok_def)
  have "h \<notin> fst ` set (take i (nt_dyn t))"
    using distinct_key_take[OF dyn_keys_distinct[OF ok], of i] i by simp
  with i have "map_of (nt_dyn ?t) = (map_of (nt_dyn t))(h \<mapsto> ofs)"
    by (simp add: map_of_update_at)
  then have "nv_ofs ?t = (nv_ofs t)(h := ofs)"
    using False h by (auto simp: fun_eq_iff nv_ofs_def)
  with False i dk keys show thesis
    by (intro that[of ?t]) (simp_all add: nv_table_set_table_entry_def)
qed

subsection \<open>The invariant\<close>

text \<open>The entry stored for a handle.\<close>

definition nv_ent :: "nv_table \<Rightarrow> nv_handle \<Rightarrow> nv_entry option" where
  "nv_ent t h = (if nv_ofs t h = 0 then None else nt_heap t (nv_ofs t h))"

text \<open>What an entry occupies: the direct header, the name and the value with their terminators, or
  the indirect header up to the name and the name with its terminator.\<close>

definition entry_fits :: "nv_entry \<Rightarrow> bool" where
  "entry_fits e \<longleftrightarrow> (case ne_body e of
      VDirect v \<Rightarrow> 12 + length (ne_name e) + 1 + length v + 1 \<le> ne_alloc_len e
    | VIndirect h ofs len ty \<Rightarrow> 21 + length (ne_name e) + 1 \<le> ne_alloc_len e)"

definition nv_layout :: "nv_table \<Rightarrow> bool" where
  "nv_layout t \<longleftrightarrow> nv_ofs_table_top t + nt_used t \<le> nt_size t \<and> nt_size t \<le> NV_TABLE_MAX_BYTES \<and>
     4 dvd nt_used t \<and> 4 dvd nt_size t \<and>
     (\<forall>ofs e. nt_heap t ofs = Some e \<longrightarrow>
        0 < ne_alloc_len e \<and> ne_alloc_len e \<le> ofs \<and> ofs \<le> nt_used t \<and> 4 dvd ofs \<and> 4 dvd ne_alloc_len e \<and>
        (\<forall>ofs' e'. nt_heap t ofs' = Some e' \<longrightarrow> ofs < ofs' \<longrightarrow> ofs + ne_alloc_len e' \<le> ofs'))"

text \<open>The structural part of the invariant; \<open>nm\<close> gives the registered name of each handle.\<close>

definition nv_str_wf :: "(nv_handle \<Rightarrow> string) \<Rightarrow> nv_table \<Rightarrow> bool" where
  "nv_str_wf nm t \<longleftrightarrow> dyn_ok t \<and> nv_layout t \<and>
     (\<forall>h. nv_ofs t h \<noteq> 0 \<longrightarrow>
        (\<exists>e. nv_ent t h = Some e \<and> entry_fits e \<and> (ne_name e = [] \<or> ne_name e = nm h))) \<and>
     (\<forall>h h'. nv_ofs t h = nv_ofs t h' \<longrightarrow> nv_ofs t h \<noteq> 0 \<longrightarrow> h = h')"

definition refers :: "nv_table \<Rightarrow> nv_handle \<Rightarrow> nv_handle \<Rightarrow> bool" where
  "refers t g h \<longleftrightarrow> (\<exists>e. nv_ent t g = Some e \<and> ne_indirect e \<and> vi_handle (ne_body e) = h)"

text \<open>Every reference is to a stored value that is marked as referenced: references have depth one.\<close>

definition refs_ok :: "nv_table \<Rightarrow> bool" where
  "refs_ok t \<longleftrightarrow> (\<forall>g e. nv_ent t g = Some e \<and> ne_indirect e \<longrightarrow>
      vi_ofs (ne_body e) + vi_len (ne_body e) < 2 ^ 32 \<and>
      (\<exists>r. nv_ent t (vi_handle (ne_body e)) = Some r \<and> \<not> ne_indirect r \<and> ne_referenced r))"

definition nv_wf :: "(nv_handle \<Rightarrow> string) \<Rightarrow> nv_table \<Rightarrow> bool" where
  "nv_wf nm t \<longleftrightarrow> nv_str_wf nm t \<and> refs_ok t"

text \<open>The abstract content of a table: the value of each handle.\<close>

definition body_val :: "nv_table \<Rightarrow> nv_body \<Rightarrow> string" where
  "body_val t b = (case b of
      VDirect v \<Rightarrow> v
    | VIndirect h ofs len ty \<Rightarrow>
        (case nv_ent t h of
           Some r \<Rightarrow> (case ne_body r of VDirect v \<Rightarrow> the (nv_slice v ofs len) | VIndirect _ _ _ _ \<Rightarrow> [])
         | None \<Rightarrow> []))"

definition nv_val :: "nv_table \<Rightarrow> nv_handle \<Rightarrow> string" where
  "nv_val t h = (case nv_ent t h of None \<Rightarrow> [] | Some e \<Rightarrow> body_val t (ne_body e))"

lemma nv_slice_exact:
  assumes "ofs + len < 2 ^ 32"
  shows "nv_slice v ofs len = Some (take len (drop ofs v))"
proof (cases "ofs > length v")
  case False
  have "take (min (ofs + len) (length v) - ofs) (drop ofs v) = take len (drop ofs v)"
    by (simp add: min_def take_all_iff)
  with False assms show ?thesis by (simp add: nv_slice_def Let_def)
qed (simp add: nv_slice_def)

lemma str_wf_ent:
  "nv_str_wf nm t \<Longrightarrow> nv_ofs t h \<noteq> 0 \<Longrightarrow>
     \<exists>e. nv_ent t h = Some e \<and> entry_fits e \<and> (ne_name e = [] \<or> ne_name e = nm h)"
  unfolding nv_str_wf_def by blast

lemma wf_ent_heap:
  assumes "nv_str_wf nm t" "nv_ent t h = Some e"
  shows "nt_heap t (nv_ofs t h) = Some e \<and> nv_ofs t h \<noteq> 0 \<and> entry_fits e \<and>
    ne_alloc_len e \<le> NV_TABLE_MAX_BYTES \<and> (ne_name e = [] \<or> ne_name e = nm h)"
proof -
  have o: "nv_ofs t h \<noteq> 0" and hp: "nt_heap t (nv_ofs t h) = Some e"
    using assms(2) by (auto simp: nv_ent_def split: if_splits)
  then have "ne_alloc_len e \<le> nt_used t" "nt_used t \<le> NV_TABLE_MAX_BYTES"
    using assms(1) unfolding nv_str_wf_def nv_layout_def by (metis le_trans, linarith)
  moreover have "entry_fits e \<and> (ne_name e = [] \<or> ne_name e = nm h)"
    using str_wf_ent[OF assms(1) o] assms(2) by simp
  ultimately show ?thesis using o hp by simp
qed

lemma resolve_entry_val:
  assumes wf: "nv_wf nm t" and e: "nv_ent t h = Some e"
  shows "nv_table_resolve_entry_f (Suc n) t e = Some (body_val t (ne_body e))"
proof (cases "ne_body e")
  case (VIndirect r ofs len ty)
  from wf e VIndirect obtain re where re: "nv_ent t r = Some re" "\<not> ne_indirect re" "ofs + len < 2 ^ 32"
    unfolding nv_wf_def refs_ok_def by fastforce
  then obtain v where v: "ne_body re = VDirect v" by (cases "ne_body re") auto
  have dk: "dyn_ok t" using wf by (simp add: nv_wf_def nv_str_wf_def)
  obtain slot where s: "nv_table_get_entry t r = (nv_ofs t r, slot)" by (rule get_entry_pair[OF dk])
  from re have "nv_ofs t r \<noteq> 0" "nt_heap t (nv_ofs t r) = Some re"
    by (auto simp: nv_ent_def split: if_splits)
  with VIndirect re v s nv_slice_exact[OF re(3), of v] show ?thesis
    by (simp add: body_val_def)
qed (simp add: body_val_def)

text \<open>\<^verbatim>\<open>nv_table_get_value\<close> returns and gives the abstract content.\<close>

lemma get_value_val:
  assumes "nv_wf nm t"
  shows "nv_table_get_value t h = Some (nv_val t h)"
proof -
  have dk: "dyn_ok t" using assms by (simp add: nv_wf_def nv_str_wf_def)
  obtain slot where s: "nv_table_get_entry t h = (nv_ofs t h, slot)" by (rule get_entry_pair[OF dk])
  show ?thesis
  proof (cases "nv_ofs t h = 0")
    case True
    with s show ?thesis by (simp add: nv_table_get_value_def nv_fuel_def nv_val_def nv_ent_def)
  next
    case False
    then obtain e where e: "nv_ent t h = Some e"
      using assms str_wf_ent unfolding nv_wf_def by blast
    with False have "nt_heap t (nv_ofs t h) = Some e" by (simp add: nv_ent_def)
    with s False e resolve_entry_val[OF assms e] show ?thesis
      by (simp add: nv_table_get_value_def nv_fuel_def nv_val_def del: nv_table_resolve_entry_f.simps)
  qed
qed

lemma resolve_val:
  assumes "nv_wf nm t" "nv_ent t h = Some e"
  shows "nv_table_resolve_entry t e = Some (nv_val t h)"
  using resolve_entry_val[OF assms] assms(2)
  by (simp add: nv_table_resolve_entry_def nv_fuel_def nv_val_def del: nv_table_resolve_entry_f.simps)

text \<open>Replacing the entry of one handle by a stored value.\<close>

lemma no_refs_unless_referenced:
  assumes "refs_ok t" "refers t g h"
  shows "\<exists>r. nv_ent t h = Some r \<and> \<not> ne_indirect r \<and> ne_referenced r"
  using assms by (auto simp: refers_def refs_ok_def)

lemma update_direct:
  assumes ro: "refs_ok t" and nr: "\<forall>g. \<not> refers t g h"
    and upd: "nv_ent t' = (nv_ent t)(h \<mapsto> e)" and b: "ne_body e = VDirect v"
  shows "refs_ok t' \<and> nv_val t' = (nv_val t)(h := v) \<and> (\<forall>g k. refers t' g k \<longrightarrow> refers t g k)"
proof -
  have "refs_ok t'"
    using ro nr unfolding refs_ok_def refers_def upd by (auto simp: b split: if_splits)
  moreover have "body_val t' (ne_body d) = body_val t (ne_body d)" if "nv_ent t g = Some d" for g d
  proof (cases "ne_body d")
    case (VIndirect r ofs len ty)
    with that have "refers t g r" by (simp add: refers_def)
    with nr have "r \<noteq> h" by blast
    then show ?thesis by (simp add: body_val_def upd VIndirect)
  qed (simp add: body_val_def)
  then have "nv_val t' = (nv_val t)(h := v)"
    unfolding nv_val_def upd by (auto simp: fun_eq_iff b body_val_def[of _ "VDirect v"] split: option.splits)
  moreover have "\<forall>g k. refers t' g k \<longrightarrow> refers t g k"
    unfolding refers_def upd by (auto simp: b split: if_splits)
  ultimately show ?thesis by blast
qed

subsection \<open>Writing entries keeps the structure\<close>

lemma nv_put_simps [simp]:
  "nt_size (nv_put ofs e t) = nt_size t" "nt_used (nv_put ofs e t) = nt_used t"
  "nt_static (nv_put ofs e t) = nt_static t" "nt_dyn (nv_put ofs e t) = nt_dyn t"
  "nt_heap (nv_put ofs e t) = (nt_heap t)(ofs \<mapsto> e)"
  by (simp_all add: nv_put_def)

lemma nv_ofs_cong: "nt_static t' = nt_static t \<Longrightarrow> nt_dyn t' = nt_dyn t \<Longrightarrow> nv_ofs t' = nv_ofs t"
  by (simp add: nv_ofs_def fun_eq_iff)

lemma str_wf_put:
  assumes wf: "nv_str_wf nm t" and e: "nv_ent t h = Some e"
    and e': "ne_alloc_len e' = ne_alloc_len e" "entry_fits e'" "ne_name e' = [] \<or> ne_name e' = nm h"
  shows "nv_str_wf nm (nv_put (nv_ofs t h) e' t) \<and>
    nv_ent (nv_put (nv_ofs t h) e' t) = (nv_ent t)(h \<mapsto> e') \<and> nv_ofs (nv_put (nv_ofs t h) e' t) = nv_ofs t"
proof -
  let ?t = "nv_put (nv_ofs t h) e' t"
  have o: "nv_ofs ?t = nv_ofs t" by (rule nv_ofs_cong) simp_all
  have hp: "nt_heap t (nv_ofs t h) = Some e" "nv_ofs t h \<noteq> 0"
    using wf_ent_heap[OF wf e] by simp_all
  have inj: "\<forall>k k'. nv_ofs t k = nv_ofs t k' \<longrightarrow> nv_ofs t k \<noteq> 0 \<longrightarrow> k = k'"
    using wf unfolding nv_str_wf_def by blast
  have ent: "nv_ent ?t = (nv_ent t)(h \<mapsto> e')"
  proof
    fix k show "nv_ent ?t k = ((nv_ent t)(h \<mapsto> e')) k"
      using inj hp by (cases "k = h") (auto simp: nv_ent_def o)
  qed
  have "nv_layout ?t"
    using wf hp e'(1) unfolding nv_str_wf_def nv_layout_def nv_ofs_table_top_def
    by (auto simp del: dvd_imp_le split: if_splits)
  moreover have "dyn_ok ?t" using wf by (simp add: nv_str_wf_def dyn_ok_def)
  moreover have "\<exists>d. nv_ent ?t k = Some d \<and> entry_fits d \<and> (ne_name d = [] \<or> ne_name d = nm k)"
    if "nv_ofs ?t k \<noteq> 0" for k
    using str_wf_ent[OF wf, of k] that e' by (simp add: o ent)
  ultimately show ?thesis
    using inj ent o unfolding nv_str_wf_def by auto
qed

lemma bound_props: "n \<le> NV_TABLE_BOUND n" "4 dvd NV_TABLE_BOUND n" "0 < n \<Longrightarrow> 0 < NV_TABLE_BOUND n"
  by (auto simp: NV_TABLE_BOUND_def)

lemma slot_ok_cong:
  assumes "num_static_entries t' = num_static_entries t" "dyn_keys t' = dyn_keys t"
  shows "slot_ok t' h slot = slot_ok t h slot"
proof -
  have len: "num_dyn_entries t' = num_dyn_entries t" using assms(2) by (metis length_map)
  have "fst (nt_dyn t' ! i) = fst (nt_dyn t ! i)" if "i < num_dyn_entries t" for i
    using assms(2) that len by (metis nth_map)
  then show ?thesis
    unfolding slot_ok_def assms len by (auto split: option.splits)
qed

text \<open>A fresh allocation linked to a handle.\<close>

lemma link_fresh:
  assumes wf: "nv_str_wf nm t" and n: "0 < n" and room: "nv_table_alloc_check t (NV_TABLE_BOUND n)"
    and ofs: "ofs = nt_used t + NV_TABLE_BOUND n"
    and e: "ne_alloc_len e = NV_TABLE_BOUND n" "entry_fits e" "ne_name e = [] \<or> ne_name e = nm h"
    and slot: "slot_ok t h slot" "0 < h" "h > num_static_entries t \<longrightarrow> slot \<noteq> None"
  obtains t' where
    "nv_table_set_table_entry (t\<lparr>nt_used := ofs, nt_heap := (nt_heap t)(ofs \<mapsto> e)\<rparr>) h ofs slot = Some t'"
    "nv_str_wf nm t'" "nv_ent t' = (nv_ent t)(h \<mapsto> e)" "nv_ofs t' = (nv_ofs t)(h := ofs)"
    "num_static_entries t' = num_static_entries t" "dyn_keys t' = dyn_keys t"
proof -
  let ?t = "t\<lparr>nt_used := ofs, nt_heap := (nt_heap t)(ofs \<mapsto> e)\<rparr>"
  have lay: "nv_layout t" and inj: "\<forall>k k'. nv_ofs t k = nv_ofs t k' \<longrightarrow> nv_ofs t k \<noteq> 0 \<longrightarrow> k = k'"
    using wf unfolding nv_str_wf_def by blast+
  have heap_le: "x \<le> nt_used t" if "nt_heap t x = Some d" for x d
    using lay that unfolding nv_layout_def by blast
  have big: "nt_used t < ofs" using ofs bound_props(3)[OF n] by simp
  have fresh: "nv_ofs t k \<noteq> ofs" for k
    using str_wf_ent[OF wf, of k] heap_le big
    by (cases "nv_ofs t k = 0") (auto simp: nv_ent_def dest: heap_le)
  have o: "nv_ofs ?t = nv_ofs t" by (rule nv_ofs_cong) simp_all
  have dk: "dyn_ok ?t" using wf by (simp add: nv_str_wf_def dyn_ok_def)
  have sl: "slot_ok ?t h slot" using slot(1) slot_ok_cong[of ?t t] by simp
  obtain t' where t': "nv_table_set_table_entry ?t h ofs slot = Some t'" "dyn_ok t'"
    "nv_ofs t' = (nv_ofs ?t)(h := ofs)" "nt_heap t' = nt_heap ?t" "nt_used t' = nt_used ?t"
    "nt_size t' = nt_size ?t" "num_static_entries t' = num_static_entries ?t" "dyn_keys t' = dyn_keys ?t"
    by (rule set_table_entry_spec[OF dk sl slot(2), where ofs = ofs]) (use slot(3) in simp)
  have nd: "num_dyn_entries t' = num_dyn_entries t" using arg_cong[OF t'(8), of length] by simp
  have ent: "nv_ent t' = (nv_ent t)(h \<mapsto> e)"
    using fresh big by (auto simp: fun_eq_iff nv_ent_def t' o)
  have "nv_layout t'"
  proof -
    have "nv_ofs_table_top t' + nt_used t' \<le> nt_size t'"
      using room by (simp add: nv_ofs_table_top_def nv_table_alloc_check_def nv_table_get_bottom_def t' nd ofs)
    moreover have "ofs1 + ne_alloc_len d \<le> x" if "nt_heap t' ofs1 = Some c" "nt_heap t' x = Some d" "ofs1 < x" for ofs1 x c d
      using lay that heap_le big ofs e(1) unfolding nv_layout_def
      by (auto simp: t' split: if_splits) (fastforce dest: heap_le)+
    moreover have "0 < ne_alloc_len d \<and> ne_alloc_len d \<le> x \<and> x \<le> nt_used t' \<and> 4 dvd x \<and> 4 dvd ne_alloc_len d"
      if "nt_heap t' x = Some d" for x d
    proof (cases "x = ofs")
      case True
      with that have "d = e" by (simp add: t')
      with True e(1) ofs n bound_props[of n] lay show ?thesis
        by (simp add: t' nv_layout_def)
    next
      case False
      with that have "nt_heap t x = Some d" by (simp add: t')
      with lay heap_le[of x d] big show ?thesis unfolding nv_layout_def by (fastforce simp: t')
    qed
    moreover have "4 dvd nt_used t'" "4 dvd nt_size t'" "nt_size t' \<le> NV_TABLE_MAX_BYTES"
      using lay ofs bound_props(2)[of n] by (simp_all add: t' nv_layout_def)
    ultimately show ?thesis unfolding nv_layout_def by blast
  qed
  moreover have "\<exists>d. nv_ent t' k = Some d \<and> entry_fits d \<and> (ne_name d = [] \<or> ne_name d = nm k)"
    if "nv_ofs t' k \<noteq> 0" for k
    using str_wf_ent[OF wf, of k] that e by (auto simp: t' o ent)
  moreover have "k = k'" if "nv_ofs t' k = nv_ofs t' k'" "nv_ofs t' k \<noteq> 0" for k k'
    using that fresh[of k] fresh[of k'] inj[rule_format, of k k']
    by (cases "k = h"; cases "k' = h") (simp_all add: t' o)
  ultimately have "nv_str_wf nm t'" using t'(2) unfolding nv_str_wf_def by blast
  with t' ent o that show thesis by simp
qed

lemma store_new_spec:
  assumes wf: "nv_str_wf nm t" and slot: "slot_ok t h slot" and h: "0 < h" "h < 2 ^ 16"
    and name: "name = [] \<or> name = nm h"
  obtains ok t' where
    "nv_table_store_new t h name v new slot = Some (ok, new, t')" "nv_str_wf nm t'"
    "num_static_entries t' = num_static_entries t"
    "slot \<noteq> None \<or> h \<le> num_static_entries t \<Longrightarrow> dyn_keys t' = dyn_keys t"
    "\<And>k. k \<noteq> h \<Longrightarrow> nv_ofs t' k = nv_ofs t k"
    "ok \<Longrightarrow> \<exists>e. nv_ent t' = (nv_ent t)(h \<mapsto> e) \<and> ne_body e = VDirect v" "\<not> ok \<Longrightarrow> nv_ent t' = nv_ent t"
proof (cases "nv_table_reserve_table_entry t h slot")
  case None
  with wf that[of False t] show thesis by (simp add: nv_table_store_new_def)
next
  case (Some r)
  then obtain t1 slot1 where r: "nv_table_reserve_table_entry t h slot = Some (t1, slot1)" by (cases r) auto
  have dk: "dyn_ok t" and lay: "nv_layout t" using wf by (simp_all add: nv_str_wf_def)
  note res = reserve_spec[OF dk slot h(2) r]
  have same: "nt_heap t1 = nt_heap t" "nv_ofs t1 = nv_ofs t" "num_static_entries t1 = num_static_entries t"
    using res by simp_all
  have ent1: "nv_ent t1 = nv_ent t" using same by (simp add: nv_ent_def fun_eq_iff)
  have wf1: "nv_str_wf nm t1"
    using wf res lay unfolding nv_str_wf_def nv_layout_def ent1 by simp
  have keys1: "dyn_keys t1 = dyn_keys t" if "slot \<noteq> None \<or> h \<le> num_static_entries t"
    using r that by (auto simp: nv_table_reserve_table_entry_def split: if_splits)
  let ?n = "NV_ENTRY_DIRECT_HDR + length name + length v + 2"
  show thesis
  proof (cases "nv_table_alloc_check t1 (NV_TABLE_BOUND ?n)")
    case False
    then show thesis
      using r wf1 keys1 ent1 same that[of False t1]
      by (simp add: nv_table_store_new_def nv_table_alloc_value_def)
  next
    case True
    define ofs where "ofs = nt_used t1 + NV_TABLE_BOUND ?n"
    define e where "e = \<lparr>ne_referenced = False, ne_alloc_len = NV_TABLE_BOUND ?n,
      ne_name = if h \<ge> num_static_entries t then name else [], ne_body = VDirect v\<rparr>"
    have fits: "entry_fits e"
      using bound_props(1)[of ?n] by (auto simp: e_def entry_fits_def NV_ENTRY_DIRECT_HDR_def)
    have s1: "slot_ok t1 h slot1" "num_static_entries t1 < h \<longrightarrow> slot1 \<noteq> None" using res same by simp_all
    obtain t' where t': "nv_table_set_table_entry (t1\<lparr>nt_used := ofs, nt_heap := (nt_heap t1)(ofs \<mapsto> e)\<rparr>) h ofs slot1 = Some t'"
      "nv_str_wf nm t'" "nv_ent t' = (nv_ent t1)(h \<mapsto> e)" "nv_ofs t' = (nv_ofs t1)(h := ofs)"
      "num_static_entries t' = num_static_entries t1" "dyn_keys t' = dyn_keys t1"
      by (rule link_fresh[OF wf1 _ True ofs_def _ fits _ s1(1) h(1) s1(2)])
         (use name in \<open>auto simp: e_def NV_ENTRY_DIRECT_HDR_def\<close>)
    have "nv_table_store_new t h name v new slot = Some (True, new, t')"
      using r True t'(1)
      by (simp add: nv_table_store_new_def nv_table_alloc_value_def Let_def nv_put_def ofs_def e_def split: if_splits)
    moreover have "ne_body e = VDirect v" by (simp add: e_def)
    with t'(3) ent1 have "\<exists>e. nv_ent t' = (nv_ent t)(h \<mapsto> e) \<and> ne_body e = VDirect v" by metis
    ultimately show thesis
      using t'(2,4,5,6) same keys1 by (intro that[of True t']) simp_all
  qed
qed

lemma store_value_spec:
  assumes wf: "nv_str_wf nm t" and slot: "slot_ok t h slot" and h: "0 < h" "h < 2 ^ 16"
    and name: "name = [] \<or> name = nm h"
    and full: "\<And>e. nv_ent t h = Some e \<Longrightarrow> \<not> ne_indirect e \<Longrightarrow> name = nm h"
  obtains ok new t' where
    "nv_table_store_value t h name v want (nv_ofs t h) slot = Some (ok, new, t')" "nv_str_wf nm t'"
    "num_static_entries t' = num_static_entries t"
    "slot \<noteq> None \<or> h \<le> num_static_entries t \<Longrightarrow> dyn_keys t' = dyn_keys t"
    "\<And>k. k \<noteq> h \<Longrightarrow> nv_ofs t' k = nv_ofs t k"
    "ok \<Longrightarrow> \<exists>e. nv_ent t' = (nv_ent t)(h \<mapsto> e) \<and> ne_body e = VDirect v" "\<not> ok \<Longrightarrow> nv_ent t' = nv_ent t"
proof (cases "nv_ent t h")
  case None
  then have "nv_ofs t h = 0" using str_wf_ent[OF wf, of h] by fastforce
  then have "nv_table_store_value t h name v want (nv_ofs t h) slot = nv_table_store_new t h name v want slot"
    by (simp add: nv_table_store_value_def)
  then show thesis
    by (metis (no_types, lifting) store_new_spec[OF wf slot h name, of v want] that)
next
  case (Some e)
  have hp: "nt_heap t (nv_ofs t h) = Some e" "nv_ofs t h \<noteq> 0" "entry_fits e" "ne_name e = [] \<or> ne_name e = nm h"
    using wf_ent_heap[OF wf Some] by simp_all
  show thesis
  proof (cases "ne_alloc_len e \<ge> length v + NV_ENTRY_DIRECT_HDR + length name + 2")
    case False
    with hp have "nv_table_store_value t h name v want (nv_ofs t h) slot = nv_table_store_new t h name v False slot"
      by (simp add: nv_table_store_value_def)
    then show thesis
      by (metis (no_types, lifting) store_new_spec[OF wf slot h name, of v False] that)
  next
    case True
    let ?e = "if ne_indirect e then e\<lparr>ne_name := name, ne_body := VDirect v\<rparr> else e\<lparr>ne_body := VDirect v\<rparr>"
    have fits: "entry_fits ?e"
      using True hp(4) full[OF Some] by (auto simp: entry_fits_def NV_ENTRY_DIRECT_HDR_def)
    have nm: "ne_name ?e = [] \<or> ne_name ?e = nm h" using name hp(4) by auto
    have al: "ne_alloc_len ?e = ne_alloc_len e" by simp
    note put = str_wf_put[OF wf Some al fits nm]
    have "nv_table_store_value t h name v want (nv_ofs t h) slot =
        Some (True, False, nv_put (nv_ofs t h) ?e t)"
      using True hp by (simp add: nv_table_store_value_def)
    moreover have "ne_body ?e = VDirect v" by simp
    ultimately show thesis
      using put by (intro that[of True False "nv_put (nv_ofs t h) ?e t"]) (simp_all, metis)
  qed
qed


text \<open>A value is never longer than the largest table.\<close>

lemma direct_len:
  assumes "nv_str_wf nm t" "nv_ent t h = Some e" "ne_body e = VDirect v"
  shows "length v \<le> NV_TABLE_MAX_BYTES"
  using wf_ent_heap[OF assms(1,2)] assms(3) by (simp add: entry_fits_def)

lemma val_len:
  assumes wf: "nv_wf nm t"
  shows "length (nv_val t h) \<le> NV_TABLE_MAX_BYTES"
proof (cases "nv_ent t h")
  case None
  then show ?thesis by (simp add: nv_val_def)
next
  case (Some e)
  have s: "nv_str_wf nm t" and r: "refs_ok t" using wf by (simp_all add: nv_wf_def)
  show ?thesis
  proof (cases "ne_body e")
    case (VDirect v)
    with direct_len[OF s Some] Some show ?thesis by (simp add: nv_val_def body_val_def)
  next
    case (VIndirect k ofs len ty)
    with Some r obtain re where re: "nv_ent t k = Some re" "\<not> ne_indirect re" "ofs + len < 2 ^ 32"
      unfolding refs_ok_def by fastforce
    then obtain v where v: "ne_body re = VDirect v" by (cases "ne_body re") auto
    with direct_len[OF s re(1) v] re VIndirect Some nv_slice_exact[OF re(3), of v] show ?thesis
      by (simp add: nv_val_def body_val_def min_le_iff_disj le_diff_conv)
  qed
qed

text \<open>Everything observable depends on the entries only.\<close>

lemma ent_cong:
  assumes "nv_ent t' = nv_ent t"
  shows "nv_val t' = nv_val t" "refs_ok t' = refs_ok t" "refers t' = refers t"
proof -
  have "body_val t' = body_val t" by (simp add: assms body_val_def fun_eq_iff split: nv_body.split)
  then show "nv_val t' = nv_val t" unfolding nv_val_def assms by (metis (no_types))
qed (simp_all add: assms refs_ok_def refers_def fun_eq_iff)

lemma slot_found:
  assumes "dyn_ok t" "nv_ofs t h \<noteq> 0" "slot_ok t h slot"
  shows "slot \<noteq> None \<or> h \<le> num_static_entries t"
  using assms by (auto simp: slot_ok_def nv_ofs_def map_of_eq_None_iff split: if_splits option.splits
      dest!: map_of_SomeD intro: rev_image_eqI)

subsection \<open>Making references direct\<close>

text \<open>What the rewriting of the references to \<open>h\<close> keeps.\<close>

definition nv_keeps :: "(nv_handle \<Rightarrow> string) \<Rightarrow> nv_handle \<Rightarrow> nv_table \<Rightarrow> nv_table \<Rightarrow> bool" where
  "nv_keeps nm h t t' \<longleftrightarrow> nv_wf nm t' \<and> nv_val t' = nv_val t \<and>
     num_static_entries t' = num_static_entries t \<and> dyn_keys t' = dyn_keys t \<and>
     nv_ofs t' h = nv_ofs t h \<and> nv_ent t' h = nv_ent t h \<and> (\<forall>g k. refers t' g k \<longrightarrow> refers t g k)"

lemma nv_keeps_refl: "nv_wf nm t \<Longrightarrow> nv_keeps nm h t t"
  by (simp add: nv_keeps_def)

lemma nv_keeps_trans: "nv_keeps nm h t t1 \<Longrightarrow> nv_keeps nm h t1 t2 \<Longrightarrow> nv_keeps nm h t t2"
  by (simp add: nv_keeps_def)

abbreviation make_direct_cb :: "nat \<Rightarrow> nv_handle \<Rightarrow> nv_handle \<Rightarrow> nat \<Rightarrow> nv_table \<Rightarrow> (bool \<times> nv_table) option" where
  "make_direct_cb n \<equiv> nv_table_make_direct (\<lambda>t h nam v. nv_table_add_value_f (Suc n) t h nam v False)"

lemma make_direct_spec:
  assumes wf: "nv_wf nm t" and o: "nv_ofs t g \<noteq> 0" and g: "0 < g" "g < 2 ^ 16"
  shows "\<exists>stop t'. make_direct_cb n h g (nv_ofs t g) t = Some (stop, t') \<and> nv_keeps nm h t t' \<and>
    (\<not> stop \<longrightarrow> \<not> refers t' g h)"
proof -
  have s: "nv_str_wf nm t" and r: "refs_ok t" and dk: "dyn_ok t"
    using wf by (simp_all add: nv_wf_def nv_str_wf_def)
  obtain e where e: "nv_ent t g = Some e" "entry_fits e" "ne_name e = [] \<or> ne_name e = nm g"
    using str_wf_ent[OF s o] by blast
  have hp: "nt_heap t (nv_ofs t g) = Some e" using wf_ent_heap[OF s e(1)] by simp
  show ?thesis
  proof (cases "ne_indirect e \<and> vi_handle (ne_body e) = h")
    case False
    then show ?thesis
      using hp e(1) wf by (auto simp: nv_table_make_direct_def nv_keeps_refl refers_def)
  next
    case True
    then have ref: "refers t g h" using e(1) by (auto simp: refers_def)
    have gh: "g \<noteq> h" using no_refs_unless_referenced[OF r ref] e(1) True by auto
    have nr: "\<forall>k. \<not> refers t k g"
      using no_refs_unless_referenced[OF r, of _ g] e(1) True by auto
    obtain slot where sl: "nv_table_get_entry t g = (nv_ofs t g, slot)" "slot_ok t g slot"
      by (rule get_entry_pair[OF dk])
    let ?v = "nv_val t g"
    obtain ok new t' where t': "nv_table_store_value t g (ne_name e) ?v False (nv_ofs t g) slot = Some (ok, new, t')"
      "nv_str_wf nm t'" "num_static_entries t' = num_static_entries t"
      "slot \<noteq> None \<or> g \<le> num_static_entries t \<Longrightarrow> dyn_keys t' = dyn_keys t"
      "\<And>k. k \<noteq> g \<Longrightarrow> nv_ofs t' k = nv_ofs t k"
      "ok \<Longrightarrow> \<exists>e. nv_ent t' = (nv_ent t)(g \<mapsto> e) \<and> ne_body e = VDirect ?v" "\<not> ok \<Longrightarrow> nv_ent t' = nv_ent t"
      by (rule store_value_spec[OF s sl(2) g e(3), of ?v False]) (use e(1) True in auto)
    have add: "nv_table_add_value_f (Suc n) t g (ne_name e) ?v False = Some (ok, new, t')"
      using sl(1) o hp True t'(1) val_len[OF wf, of g] by (simp add: nv_table_add_value_f.simps)
    have keys: "dyn_keys t' = dyn_keys t" using t'(4) slot_found[OF dk o sl(2)] by blast
    have "refs_ok t' \<and> nv_val t' = nv_val t \<and> (\<forall>g k. refers t' g k \<longrightarrow> refers t g k) \<and>
        nv_ent t' h = nv_ent t h \<and> (ok \<longrightarrow> \<not> refers t' g h)"
    proof (cases ok)
      case ok: True
      then obtain e' where e': "nv_ent t' = (nv_ent t)(g \<mapsto> e')" "ne_body e' = VDirect ?v" using t'(6) by blast
      with update_direct[OF r nr e'] gh show ?thesis by (auto simp: refers_def)
    next
      case False
      with t'(7) ent_cong[OF t'(7)] r show ?thesis by simp
    qed
    then have "nv_keeps nm h t t' \<and> (ok \<longrightarrow> \<not> refers t' g h)"
      using t'(2,3,5) keys gh by (simp add: nv_keeps_def nv_wf_def)
    then show ?thesis
      using hp True add resolve_val[OF wf e(1)]
      by (simp add: nv_table_make_direct_def)
  qed
qed

lemma foreach_static_spec:
  assumes "nv_wf nm t" "\<forall>i \<in> set is. i < num_static_entries t"
  shows "\<exists>stop t'. nv_foreach_static (make_direct_cb n h) (\<lambda>t. t) is t = Some (stop, t') \<and> nv_keeps nm h t t' \<and>
    (\<not> stop \<longrightarrow> (\<forall>i \<in> set is. \<not> refers t' (Suc i) h))"
  using assms
proof (induction "is" arbitrary: t)
  case Nil
  then show ?case using nv_keeps_refl by auto
next
  case (Cons i "is")
  have i: "i < num_static_entries t" "num_static_entries t < 256"
    using Cons.prems by (simp_all add: nv_wf_def nv_str_wf_def dyn_ok_def)
  have o: "nv_ofs t (Suc i) = nt_static t ! i" using i by (simp add: nv_ofs_def)
  show ?case
  proof (cases "nt_static t ! i = 0")
    case True
    obtain stop t' where t': "nv_foreach_static (make_direct_cb n h) (\<lambda>t. t) is t = Some (stop, t')"
      "nv_keeps nm h t t'" "\<not> stop \<longrightarrow> (\<forall>i \<in> set is. \<not> refers t' (Suc i) h)"
      using Cons.IH[of t] Cons.prems by auto
    have "\<not> refers t (Suc i) h" using True o by (simp add: refers_def nv_ent_def)
    with t'(2) have "\<not> refers t' (Suc i) h" by (auto simp: nv_keeps_def)
    with True t' show ?thesis by simp
  next
    case False
    obtain stop1 t1 where t1: "make_direct_cb n h (Suc i) (nv_ofs t (Suc i)) t = Some (stop1, t1)"
      "nv_keeps nm h t t1" "\<not> stop1 \<longrightarrow> \<not> refers t1 (Suc i) h"
      using make_direct_spec[OF Cons.prems(1), of "Suc i" n h] False o i by auto
    show ?thesis
    proof (cases stop1)
      case True
      with t1 False o show ?thesis by auto
    next
      case go: False
      have "nv_wf nm t1" "num_static_entries t1 = num_static_entries t"
        using t1(2) by (simp_all add: nv_keeps_def)
      then obtain stop t' where t': "nv_foreach_static (make_direct_cb n h) (\<lambda>t. t) is t1 = Some (stop, t')"
        "nv_keeps nm h t1 t'" "\<not> stop \<longrightarrow> (\<forall>i \<in> set is. \<not> refers t' (Suc i) h)"
        using Cons.IH[of t1] Cons.prems by auto
      have "\<not> refers t' (Suc i) h" using t1(3) go t'(2) by (auto simp: nv_keeps_def)
      with go t1 t' False o nv_keeps_trans[OF t1(2) t'(2)] show ?thesis by simp
    qed
  qed
qed


lemma dyn_nth_ofs:
  assumes "dyn_ok t" "i < num_dyn_entries t" "nt_dyn t ! i = (g, ofs)"
  shows "nv_ofs t g = ofs" "0 < g" "g < 2 ^ 16" "num_static_entries t < g" "dyn_keys t ! i = g"
proof -
  have "(g, ofs) \<in> set (nt_dyn t)" using assms(2,3) nth_mem by metis
  then have g: "g \<in> set (dyn_keys t)" by force
  then show "0 < g" "g < 2 ^ 16" "num_static_entries t < g" using assms(1) unfolding dyn_ok_def by auto
  with map_of_dyn_nth[OF assms(1,2)] assms(3) show "nv_ofs t g = ofs" by (simp add: nv_ofs_def)
  show "dyn_keys t ! i = g" using assms(2,3) by simp
qed

lemma foreach_dyn_spec:
  assumes "nv_wf nm t" "\<forall>i \<in> set is. i < num_dyn_entries t"
  shows "\<exists>stop t'. nv_foreach_dyn (make_direct_cb n h) (\<lambda>t. t) is t = Some (stop, t') \<and> nv_keeps nm h t t' \<and>
    (\<not> stop \<longrightarrow> (\<forall>i \<in> set is. \<not> refers t' (dyn_keys t ! i) h))"
  using assms
proof (induction "is" arbitrary: t)
  case Nil
  then show ?case using nv_keeps_refl by auto
next
  case (Cons i "is")
  have dk: "dyn_ok t" and i: "i < num_dyn_entries t"
    using Cons.prems by (simp_all add: nv_wf_def nv_str_wf_def)
  obtain g ofs where d: "nt_dyn t ! i = (g, ofs)" by fastforce
  note g = dyn_nth_ofs[OF dk i d]
  show ?case
  proof (cases "ofs = 0")
    case True
    obtain stop t' where t': "nv_foreach_dyn (make_direct_cb n h) (\<lambda>t. t) is t = Some (stop, t')"
      "nv_keeps nm h t t'" "\<not> stop \<longrightarrow> (\<forall>i \<in> set is. \<not> refers t' (dyn_keys t ! i) h)"
      using Cons.IH[of t] Cons.prems by auto
    have "\<not> refers t g h" using True g by (simp add: refers_def nv_ent_def)
    with t'(2) have "\<not> refers t' g h" by (auto simp: nv_keeps_def)
    with True t' g(5) d show ?thesis by simp
  next
    case False
    obtain stop1 t1 where t1: "make_direct_cb n h g ofs t = Some (stop1, t1)"
      "nv_keeps nm h t t1" "\<not> stop1 \<longrightarrow> \<not> refers t1 g h"
      using make_direct_spec[OF Cons.prems(1), of g n h] False g by auto
    show ?thesis
    proof (cases stop1)
      case True
      with t1 False d show ?thesis by auto
    next
      case go: False
      have k: "nv_wf nm t1" "dyn_keys t1 = dyn_keys t"
        using t1(2) by (simp_all add: nv_keeps_def)
      from arg_cong[OF k(2), of length] have "num_dyn_entries t1 = num_dyn_entries t" by simp
      with k obtain stop t' where t': "nv_foreach_dyn (make_direct_cb n h) (\<lambda>t. t) is t1 = Some (stop, t')"
        "nv_keeps nm h t1 t'" "\<not> stop \<longrightarrow> (\<forall>i \<in> set is. \<not> refers t' (dyn_keys t ! i) h)"
        using Cons.IH[of t1] Cons.prems by auto
      have "\<not> refers t' g h" using t1(3) go t'(2) by (auto simp: nv_keeps_def)
      with go t1 t' False d g(5) nv_keeps_trans[OF t1(2) t'(2)] show ?thesis by simp
    qed
  qed
qed

text \<open>After an iteration that was not stopped, nothing refers to \<open>h\<close>.\<close>

lemma foreach_make_direct_spec:
  assumes wf: "nv_wf nm t"
  shows "\<exists>stop t'. nv_table_foreach_entry (make_direct_cb n h) (\<lambda>t. t) t = Some (stop, t') \<and> nv_keeps nm h t t' \<and>
    (\<not> stop \<longrightarrow> (\<forall>g. \<not> refers t' g h))"
proof -
  obtain stop1 t1 where t1: "nv_foreach_static (make_direct_cb n h) (\<lambda>t. t) [0..<num_static_entries t] t = Some (stop1, t1)"
    "nv_keeps nm h t t1" "\<not> stop1 \<longrightarrow> (\<forall>i < num_static_entries t. \<not> refers t1 (Suc i) h)"
    using foreach_static_spec[OF wf, of "[0..<num_static_entries t]" n h] by auto
  show ?thesis
  proof (cases stop1)
    case True
    with t1 show ?thesis by (auto simp: nv_table_foreach_entry_def)
  next
    case False
    have wf1: "nv_wf nm t1" using t1(2) by (simp add: nv_keeps_def)
    obtain stop t' where t': "nv_foreach_dyn (make_direct_cb n h) (\<lambda>t. t) [0..<num_dyn_entries t1] t1 = Some (stop, t')"
      "nv_keeps nm h t1 t'" "\<not> stop \<longrightarrow> (\<forall>i < num_dyn_entries t1. \<not> refers t' (dyn_keys t1 ! i) h)"
      using foreach_dyn_spec[OF wf1, of "[0..<num_dyn_entries t1]" n h] by auto
    have "\<not> refers t' g h" if "\<not> stop" for g
    proof
      assume rf: "refers t' g h"
      then have "refers t1 g h" using t'(2) by (simp add: nv_keeps_def)
      then have o: "nv_ofs t1 g \<noteq> 0" by (auto simp: refers_def nv_ent_def split: if_splits)
      have ns: "num_static_entries t1 = num_static_entries t" using t1(2) by (simp add: nv_keeps_def)
      show False
      proof (cases "g \<le> num_static_entries t")
        case True
        moreover have "g \<noteq> 0" using o by (auto simp: nv_ofs_def split: if_splits)
        ultimately obtain i where "g = Suc i" "i < num_static_entries t" by (cases g) auto
        with t1(3) False \<open>refers t1 g h\<close> show False by simp
      next
        case dyn: False
        with o ns have "g \<in> set (dyn_keys t1)"
          by (auto simp: nv_ofs_def split: if_splits option.splits dest!: map_of_SomeD intro: rev_image_eqI)
        then obtain i where "i < num_dyn_entries t1" "dyn_keys t1 ! i = g"
          by (metis in_set_conv_nth length_map)
        with t'(3) that rf show False by blast
      qed
    qed
    with False t1 t' nv_keeps_trans[OF t1(2) t'(2)] show ?thesis by (simp add: nv_table_foreach_entry_def)
  qed
qed

subsection \<open>Storing a value\<close>

text \<open>\<^verbatim>\<open>nv_table_add_value\<close> on a well-formed table: it returns, keeps the invariant, and changes the
  abstract content at \<open>h\<close> only; when it fails nothing observable changed.\<close>

lemma add_value_spec:
  assumes wf: "nv_wf nm t" and h: "0 < h" "h < 2 ^ 16"
  shows "\<exists>ok new t'. nv_table_add_value t h (nm h) v want = Some (ok, new, t') \<and> nv_wf nm t' \<and>
    nv_val t' = (if ok then (nv_val t)(h := take NV_TABLE_MAX_BYTES v) else nv_val t)"
proof -
  have dk: "dyn_ok t" and s: "nv_str_wf nm t" and r: "refs_ok t" using wf by (simp_all add: nv_wf_def nv_str_wf_def)
  obtain slot where sl: "nv_table_get_entry t h = (nv_ofs t h, slot)" "slot_ok t h slot"
    by (rule get_entry_pair[OF dk])
  let ?v = "take NV_TABLE_MAX_BYTES v"
  let ?go = "nv_ofs t h \<noteq> 0 \<and> (case nt_heap t (nv_ofs t h) of None \<Rightarrow> False
       | Some e \<Rightarrow> \<not> ne_indirect e \<and> ne_referenced e)"
  have num: "(2::nat) = Suc (Suc 0)" by simp
  show ?thesis
  proof (cases "nv_ofs t h = 0 \<and> \<not> want \<and> ?v = []")
    case True
    then have "(nv_val t)(h := ?v) = nv_val t" by (auto simp: fun_eq_iff nv_val_def nv_ent_def)
    with True sl wf show ?thesis
      by (auto simp: nv_table_add_value_def nv_table_add_value_f.simps num)
  next
    case store: False
    obtain stop t1 where t1: "(if ?go then nv_table_foreach_entry (make_direct_cb 0 h) (\<lambda>t. t) t else Some (False, t)) = Some (stop, t1)"
      "nv_keeps nm h t t1" "\<not> stop \<longrightarrow> (\<forall>g. \<not> refers t1 g h)"
    proof (cases ?go)
      case True
      then show thesis using foreach_make_direct_spec[OF wf, of 0 h] that by auto
    next
      case False
      have "\<not> refers t g h" for g
        using no_refs_unless_referenced[OF r, of g h] False by (auto simp: nv_ent_def split: if_splits)
      then show thesis using False nv_keeps_refl[OF wf] by (intro that[of False t]) auto
    qed
    have k: "nv_str_wf nm t1" "refs_ok t1" "nv_val t1 = nv_val t" "nv_ofs t1 h = nv_ofs t h"
      "num_static_entries t1 = num_static_entries t" "dyn_keys t1 = dyn_keys t"
      using t1(2) by (simp_all add: nv_keeps_def nv_wf_def)
    have eq: "nv_table_add_value t h (nm h) v want =
        (if stop then Some (False, False, t1) else nv_table_store_value t1 h (nm h) ?v want (nv_ofs t1 h) slot)"
      using store sl(1) t1(1) k(4)
      by (auto simp: nv_table_add_value_def nv_table_add_value_f.simps(2)[of "Suc 0"] num Let_def
          simp del: take_eq_Nil split: if_splits)
    show ?thesis
    proof (cases stop)
      case True
      with eq t1(2) show ?thesis by (auto simp: nv_keeps_def)
    next
      case False
      have sl1: "slot_ok t1 h slot" using sl(2) slot_ok_cong[OF k(5,6)] by simp
      obtain ok new t' where t': "nv_table_store_value t1 h (nm h) ?v want (nv_ofs t1 h) slot = Some (ok, new, t')"
        "nv_str_wf nm t'" "ok \<Longrightarrow> \<exists>e. nv_ent t' = (nv_ent t1)(h \<mapsto> e) \<and> ne_body e = VDirect ?v"
        "\<not> ok \<Longrightarrow> nv_ent t' = nv_ent t1"
        by (rule store_value_spec[OF k(1) sl1 h, of "nm h" ?v want]) auto
      have "refs_ok t' \<and> nv_val t' = (if ok then (nv_val t)(h := ?v) else nv_val t)"
      proof (cases ok)
        case True
        with t'(3) update_direct[OF k(2), of h t'] t1(3) False k(3) show ?thesis by auto
      next
        case no: False
        with ent_cong[OF t'(4)] k show ?thesis by simp
      qed
      with False eq t' show ?thesis by (simp add: nv_wf_def)
    qed
  qed
qed

end
