(* ===== verification/NV_Table_Refs.thy ===== *)
theory NV_Table_Refs
  imports NV_Table_Props
begin

text \<open>
  The rest of the name-value table: storing references to parts of other values, creation, growth
  and cloning, and the properties of the table as a whole.
\<close>

subsection \<open>Storing a reference\<close>

lemma update_indirect:
  assumes ro: "refs_ok t" and nr: "\<forall>g. \<not> refers t g h" and re: "nv_ent t ref = Some re" "\<not> ne_indirect re"
    and ne: "h \<noteq> ref" and len: "rofs + rlen < 2 ^ 32"
    and upd: "nv_ent t' = (nv_ent t)(ref \<mapsto> re\<lparr>ne_referenced := True\<rparr>, h \<mapsto> e)"
    and b: "ne_body e = VIndirect ref rofs rlen ty"
  shows "refs_ok t' \<and> nv_val t' = (nv_val t)(h := take rlen (drop rofs (nv_val t ref)))"
proof -
  have rh: "vi_handle (ne_body d) \<noteq> h" if "nv_ent t g = Some d" "ne_indirect d" for g d
    using nr that unfolding refers_def by blast
  have "refs_ok t'"
    using ro rh re ne len unfolding refs_ok_def upd by (auto simp: b split: if_splits)
  moreover obtain v where v: "ne_body re = VDirect v" using re(2) by (cases "ne_body re") auto
  have same: "body_val t' (ne_body d) = body_val t (ne_body d)" if "nv_ent t g = Some d" for g d
  proof (cases "ne_body d")
    case (VIndirect r ofs len ty)
    with rh[OF that] have "r \<noteq> h" by simp
    then show ?thesis using re by (simp add: body_val_def upd VIndirect)
  qed (simp add: body_val_def)
  have "nv_val t' k = ((nv_val t)(h := take rlen (drop rofs (nv_val t ref)))) k" for k
  proof (cases "k = h")
    case True
    with ne re v nv_slice_exact[OF len, of v] show ?thesis
      by (simp add: nv_val_def upd b body_val_def)
  next
    case False
    with same[of k] re same[OF re(1)] show ?thesis
      by (auto simp: nv_val_def upd split: option.splits)
  qed
  ultimately show ?thesis by blast
qed

lemma entry_fits_referenced [simp]: "entry_fits (e\<lparr>ne_referenced := b\<rparr>) = entry_fits e"
  by (simp add: entry_fits_def split: nv_body.split)

lemma mark_referenced_spec:
  assumes s: "nv_str_wf nm t" and re: "nv_ent t ref = Some re"
  defines "t1 \<equiv> nv_put (nv_ofs t ref) (re\<lparr>ne_referenced := True\<rparr>) t"
  shows "nv_mark_referenced (nv_ofs t ref) t = Some t1" "nv_str_wf nm t1"
    "nv_ent t1 = (nv_ent t)(ref \<mapsto> re\<lparr>ne_referenced := True\<rparr>)" "nv_ofs t1 = nv_ofs t"
proof -
  have hp: "nt_heap t (nv_ofs t ref) = Some re" "nv_ofs t ref \<noteq> 0" "entry_fits re" "ne_name re = [] \<or> ne_name re = nm ref"
    using wf_ent_heap[OF s re] by simp_all
  then show "nv_mark_referenced (nv_ofs t ref) t = Some t1" by (simp add: nv_mark_referenced_def t1_def)
  show "nv_str_wf nm t1" "nv_ent t1 = (nv_ent t)(ref \<mapsto> re\<lparr>ne_referenced := True\<rparr>)" "nv_ofs t1 = nv_ofs t"
    using str_wf_put[OF s re, of "re\<lparr>ne_referenced := True\<rparr>"] hp by (simp_all add: t1_def)
qed

lemma overwrite_indirect_spec:
  assumes s: "nv_str_wf nm t" and re: "nv_ent t ref = Some re" and e: "nv_ent t h = Some e" and ne: "h \<noteq> ref"
    and fit: "NV_ENTRY_INDIRECT_HDR + length (nm h) + 1 \<le> ne_alloc_len e" and b: "indirect_body b"
  shows "\<exists>t' e'. nv_table_overwrite_indirect t h (nm h) b (nv_ofs t ref) (nv_ofs t h) = Some (True, False, t') \<and>
    nv_str_wf nm t' \<and> nv_ent t' = (nv_ent t)(ref \<mapsto> re\<lparr>ne_referenced := True\<rparr>, h \<mapsto> e') \<and> ne_body e' = b"
proof -
  let ?t1 = "nv_put (nv_ofs t ref) (re\<lparr>ne_referenced := True\<rparr>) t"
  note m = mark_referenced_spec[OF s re]
  have e1: "nv_ent ?t1 h = Some e" using m(3) e ne by simp
  note hp = wf_ent_heap[OF m(2) e1]
  let ?e = "if ne_indirect e then e\<lparr>ne_body := b\<rparr>
     else e\<lparr>ne_body := b, ne_name := if h \<ge> num_static_entries t then nm h else []\<rparr>"
  obtain r ofs len ty where bb: "b = VIndirect r ofs len ty" using b by (cases b) auto
  have fits: "entry_fits ?e"
    using fit hp unfolding entry_fits_def bb NV_ENTRY_INDIRECT_HDR_def
    by (cases "ne_body e") auto
  have "nv_table_overwrite_indirect t h (nm h) b (nv_ofs t ref) (nv_ofs t h) =
      Some (True, False, nv_put (nv_ofs ?t1 h) ?e ?t1)"
    using m(1,4) hp by (simp add: nv_table_overwrite_indirect_def)
  moreover have "nv_str_wf nm (nv_put (nv_ofs ?t1 h) ?e ?t1) \<and>
      nv_ent (nv_put (nv_ofs ?t1 h) ?e ?t1) = (nv_ent ?t1)(h \<mapsto> ?e)"
    using str_wf_put[OF m(2) e1, of ?e] fits hp by auto
  moreover have "ne_body ?e = b" by simp
  ultimately show ?thesis using m(3) by metis
qed


lemma reserve_wf:
  assumes s: "nv_str_wf nm t" and slot: "slot_ok t h slot" and h: "h < 2 ^ 16"
    and r: "nv_table_reserve_table_entry t h slot = Some (t1, slot1)"
  shows "nv_str_wf nm t1" "nv_ent t1 = nv_ent t" "nv_ofs t1 = nv_ofs t" "slot_ok t1 h slot1"
    "num_static_entries t1 = num_static_entries t" "num_static_entries t1 < h \<longrightarrow> slot1 \<noteq> None"
proof -
  have dk: "dyn_ok t" and lay: "nv_layout t" using s by (simp_all add: nv_str_wf_def)
  note res = reserve_spec[OF dk slot h r]
  show ent: "nv_ent t1 = nv_ent t" using res by (simp add: nv_ent_def fun_eq_iff)
  show "nv_str_wf nm t1" using s res lay unfolding nv_str_wf_def nv_layout_def ent by simp
  show "nv_ofs t1 = nv_ofs t" "slot_ok t1 h slot1" "num_static_entries t1 = num_static_entries t"
    "num_static_entries t1 < h \<longrightarrow> slot1 \<noteq> None" using res by simp_all
qed

lemma store_new_indirect_spec:
  assumes s: "nv_str_wf nm t" and re: "nv_ent t ref = Some re" and ne: "h \<noteq> ref"
    and slot: "slot_ok t h slot" and h: "0 < h" "h < 2 ^ 16" and b: "indirect_body b"
  shows "\<exists>ok t' e'. nv_table_store_new_indirect t h (nm h) b (nv_ofs t ref) new slot = Some (ok, new, t') \<and>
    nv_str_wf nm t' \<and>
    (if ok then nv_ent t' = (nv_ent t)(ref \<mapsto> re\<lparr>ne_referenced := True\<rparr>, h \<mapsto> e') \<and> ne_body e' = b
     else nv_ent t' = nv_ent t)"
proof (cases "nv_table_reserve_table_entry t h slot")
  case None
  with s show ?thesis by (auto simp: nv_table_store_new_indirect_def)
next
  case (Some r)
  then obtain t1 slot1 where r: "nv_table_reserve_table_entry t h slot = Some (t1, slot1)" by (cases r) auto
  note w = reserve_wf[OF s slot h(2) r]
  let ?n = "NV_ENTRY_INDIRECT_HDR + length (nm h) + 1"
  show ?thesis
  proof (cases "nv_table_alloc_check t1 (NV_TABLE_BOUND ?n)")
    case False
    with r w(1,2) show ?thesis
      by (auto simp: nv_table_store_new_indirect_def nv_table_alloc_value_def)
  next
    case True
    have re1: "nv_ent t1 ref = Some re" using w(2) re by simp
    define t2 where "t2 = nv_put (nv_ofs t1 ref) (re\<lparr>ne_referenced := True\<rparr>) t1"
    note m = mark_referenced_spec[OF w(1) re1, folded t2_def]
    have t2s: "nt_used t2 = nt_used t1" "nt_size t2 = nt_size t1" "nt_static t2 = nt_static t1" "nt_dyn t2 = nt_dyn t1"
      "nt_heap t2 = (nt_heap t1)(nv_ofs t1 ref \<mapsto> re\<lparr>ne_referenced := True\<rparr>)"
      by (simp_all add: t2_def)
    define ofs where "ofs = nt_used t2 + NV_TABLE_BOUND ?n"
    define e where "e = \<lparr>ne_referenced = False, ne_alloc_len = NV_TABLE_BOUND ?n,
      ne_name = if h \<ge> num_static_entries t then nm h else [], ne_body = b\<rparr>"
    have fits: "entry_fits e"
      using bound_props(1)[of ?n] b by (cases b) (auto simp: e_def entry_fits_def NV_ENTRY_INDIRECT_HDR_def)
    have room: "nv_table_alloc_check t2 (NV_TABLE_BOUND ?n)"
      using True by (simp add: nv_table_alloc_check_def nv_table_get_bottom_def nv_ofs_table_top_def t2s)
    have sl: "slot_ok t2 h slot1" "num_static_entries t2 < h \<longrightarrow> slot1 \<noteq> None"
      using w(4,6) slot_ok_cong[of t2 t1] by (simp_all add: t2s)
    obtain t' where t': "nv_table_set_table_entry (t2\<lparr>nt_used := ofs, nt_heap := (nt_heap t2)(ofs \<mapsto> e)\<rparr>) h ofs slot1 = Some t'"
      "nv_str_wf nm t'" "nv_ent t' = (nv_ent t2)(h \<mapsto> e)"
      by (rule link_fresh[OF m(2) _ room ofs_def _ fits _ sl(1) h(1) sl(2)]) (auto simp: e_def)
    have hp: "nt_heap t1 (nv_ofs t1 ref) = Some re" "nv_ofs t1 ref \<noteq> 0"
      using wf_ent_heap[OF w(1) re1] by simp_all
    have "nv_ofs t1 ref \<le> nt_used t1"
      using w(1) hp(1) unfolding nv_str_wf_def nv_layout_def by blast
    then have neq: "nv_ofs t1 ref \<noteq> ofs"
      using bound_props(3)[of ?n] by (simp add: ofs_def t2s NV_ENTRY_INDIRECT_HDR_def)
    let ?t3 = "t1\<lparr>nt_used := ofs, nt_heap := (nt_heap t1)(ofs \<mapsto> e)\<rparr>"
    have "nv_mark_referenced (nv_ofs t ref) ?t3 =
        Some (t2\<lparr>nt_used := ofs, nt_heap := (nt_heap t2)(ofs \<mapsto> e)\<rparr>)"
      using hp neq w(3) by (simp add: nv_mark_referenced_def t2_def nv_put_def fun_upd_twist)
    moreover have "?t3 = nv_put ofs e (t1\<lparr>nt_used := ofs, nt_heap := (nt_heap t1)(ofs \<mapsto> d)\<rparr>)" for d
      by (simp add: nv_put_def)
    ultimately have "nv_table_store_new_indirect t h (nm h) b (nv_ofs t ref) new slot = Some (True, new, t')"
      using r True t'(1)
      by (simp add: nv_table_store_new_indirect_def nv_table_alloc_value_def Let_def ofs_def t2s e_def)
    moreover have "ne_body e = b" by (simp add: e_def)
    ultimately show ?thesis using t'(2,3) m(3) w(2) by auto
  qed
qed


lemma add_value_indirect_spec:
  assumes wf: "nv_wf nm t" and h: "0 < h" "h < 2 ^ 16" and re: "nv_ent t ref = Some re" and ne: "h \<noteq> ref"
    and len: "rofs + rlen < 2 ^ 32"
    and free: "\<And>e. nv_ent t h = Some e \<Longrightarrow> ne_indirect e \<or> \<not> ne_referenced e"
  shows "\<exists>ok new t'. nv_table_add_value_indirect t h (nm h) ref ty rofs rlen want = Some (ok, new, t') \<and> nv_wf nm t' \<and>
    nv_val t' = (if ok then (nv_val t)(h := take rlen (drop rofs (nv_val t ref))) else nv_val t)"
proof -
  have dk: "dyn_ok t" and s: "nv_str_wf nm t" and r: "refs_ok t" using wf by (simp_all add: nv_wf_def nv_str_wf_def)
  obtain slot where sl: "nv_table_get_entry t h = (nv_ofs t h, slot)" "slot_ok t h slot"
    by (rule get_entry_pair[OF dk])
  obtain rslot where rs: "nv_table_get_entry t ref = (nv_ofs t ref, rslot)" by (rule get_entry_pair[OF dk])
  have rhp: "nt_heap t (nv_ofs t ref) = Some re" "nv_ofs t ref \<noteq> 0" using wf_ent_heap[OF s re] by simp_all
  let ?b = "VIndirect ref rofs rlen ty"
  show ?thesis
  proof (cases "ne_indirect re")
    case True
    define v where "v = nv_val t ref"
    define p where "p = (if rofs > length v then (0, 0) else (rofs, min (rofs + rlen) (length v) - rofs))"
    have p: "take (snd p) (drop (fst p) v) = take rlen (drop rofs v)"
      by (auto simp: p_def min_def)
    have "length (take rlen (drop rofs v)) \<le> NV_TABLE_MAX_BYTES"
      using val_len[OF wf, of ref] by (auto simp: v_def min_def)
    then have tk: "take NV_TABLE_MAX_BYTES (take rlen (drop rofs v)) = take rlen (drop rofs v)" by (rule take_all)
    have eq: "nv_table_add_value_indirect t h (nm h) ref ty rofs rlen want =
        nv_table_add_value t h (nm h) (take rlen (drop rofs v)) want"
      using True rs rhp resolve_val[OF wf re] len p
      by (auto simp: nv_table_add_value_indirect_def v_def[symmetric] p_def Let_def split: if_splits)
    show ?thesis
      unfolding eq v_def[symmetric] by (rule add_value_spec[OF wf h, of "take rlen (drop rofs v)" want, unfolded tk])
  next
    case False
    have nr: "\<forall>g. \<not> refers t g h"
      using no_refs_unless_referenced[OF r, of _ h] free by auto
    have nogo: "\<not> (nv_ofs t h \<noteq> 0 \<and> (case nt_heap t (nv_ofs t h) of None \<Rightarrow> False
        | Some e \<Rightarrow> \<not> ne_indirect e \<and> ne_referenced e))"
      using free by (auto simp: nv_ent_def split: option.splits)
    show ?thesis
    proof (cases "nv_ofs t h = 0 \<and> \<not> want \<and> rlen = 0")
      case True
      then have "(nv_val t)(h := take rlen (drop rofs (nv_val t ref))) = nv_val t"
        by (auto simp: fun_eq_iff nv_val_def nv_ent_def)
      with True False sl rs rhp wf show ?thesis by (auto simp: nv_table_add_value_indirect_def)
    next
      case store: False
      obtain ok new t' e' where t': "nv_table_add_value_indirect t h (nm h) ref ty rofs rlen want = Some (ok, new, t')"
        "nv_str_wf nm t'"
        "if ok then nv_ent t' = (nv_ent t)(ref \<mapsto> re\<lparr>ne_referenced := True\<rparr>, h \<mapsto> e') \<and> ne_body e' = ?b
         else nv_ent t' = nv_ent t"
      proof (cases "\<exists>e. nv_ent t h = Some e \<and> NV_ENTRY_INDIRECT_HDR + length (nm h) + 1 \<le> ne_alloc_len e")
        case True
        then obtain e where e: "nv_ent t h = Some e" "NV_ENTRY_INDIRECT_HDR + length (nm h) + 1 \<le> ne_alloc_len e" by blast
        have hp: "nt_heap t (nv_ofs t h) = Some e" "nv_ofs t h \<noteq> 0" using wf_ent_heap[OF s e(1)] by simp_all
        have "nv_table_add_value_indirect t h (nm h) ref ty rofs rlen want =
            nv_table_overwrite_indirect t h (nm h) ?b (nv_ofs t ref) (nv_ofs t h)"
          using False sl(1) rs rhp nogo e hp by (auto simp: nv_table_add_value_indirect_def)
        moreover obtain t' e' where "nv_table_overwrite_indirect t h (nm h) ?b (nv_ofs t ref) (nv_ofs t h) = Some (True, False, t')"
            "nv_str_wf nm t'" "nv_ent t' = (nv_ent t)(ref \<mapsto> re\<lparr>ne_referenced := True\<rparr>, h \<mapsto> e')" "ne_body e' = ?b"
          using overwrite_indirect_spec[OF s re e(1) ne e(2), of ?b] by auto
        ultimately show thesis by (intro that[of True False t' e']) simp_all
      next
        case grow: False
        then have nofit: "\<not> (nv_ofs t h \<noteq> 0 \<and> (case nt_heap t (nv_ofs t h) of None \<Rightarrow> False
            | Some e \<Rightarrow> ne_alloc_len e \<ge> NV_ENTRY_INDIRECT_HDR + length (nm h) + 1))"
          by (auto simp: nv_ent_def split: option.splits)
        have "nv_table_add_value_indirect t h (nm h) ref ty rofs rlen want =
            nv_table_store_new_indirect t h (nm h) ?b (nv_ofs t ref) (nv_ofs t h = 0 \<and> want) slot"
          using False sl(1) rs rhp nogo store nofit
          by (simp add: nv_table_add_value_indirect_def Let_def split del: if_split) auto
        moreover obtain ok t' e' where "nv_table_store_new_indirect t h (nm h) ?b (nv_ofs t ref) (nv_ofs t h = 0 \<and> want) slot
              = Some (ok, nv_ofs t h = 0 \<and> want, t')"
            "nv_str_wf nm t'" "if ok then nv_ent t' = (nv_ent t)(ref \<mapsto> re\<lparr>ne_referenced := True\<rparr>, h \<mapsto> e') \<and> ne_body e' = ?b
              else nv_ent t' = nv_ent t"
          using store_new_indirect_spec[OF s re ne sl(2) h, of ?b "nv_ofs t h = 0 \<and> want"] by auto
        ultimately show thesis by (intro that[of ok "nv_ofs t h = 0 \<and> want" t' e']) simp_all
      qed
      have "refs_ok t' \<and> nv_val t' = (if ok then (nv_val t)(h := take rlen (drop rofs (nv_val t ref))) else nv_val t)"
      proof (cases ok)
        case True
        with t'(3) update_indirect[OF r nr re False ne len, of t' e' ty] show ?thesis by simp
      next
        case no: False
        with t'(3) have "nv_ent t' = nv_ent t" by simp
        with ent_cong[OF this] r no show ?thesis by simp
      qed
      with t' show ?thesis by (auto simp: nv_wf_def)
    qed
  qed
qed


subsection \<open>Creation, growth, cloning\<close>

lemma empty_wf:
  assumes "nt_static t = replicate n 0" "n < 256" "nt_dyn t = []" "nt_heap t = Map.empty" "nt_used t = 0"
    and "12 + 4 * n \<le> nt_size t" "nt_size t \<le> NV_TABLE_MAX_BYTES" "4 dvd nt_size t"
  shows "nv_wf nm t \<and> nv_val t = (\<lambda>h. [])"
proof -
  have o: "nv_ofs t = (\<lambda>h. 0)" using assms by (auto simp: nv_ofs_def fun_eq_iff)
  then show ?thesis
    using assms by (simp add: nv_wf_def nv_str_wf_def dyn_ok_def nv_layout_def refs_ok_def nv_ent_def
        nv_ofs_table_top_def nv_val_def fun_eq_iff)
qed

lemma get_alloc_size_bounds:
  assumes "ns < 256"
  shows "12 + 4 * ns \<le> nv_table_get_alloc_size ns nd len" "nv_table_get_alloc_size ns nd len \<le> NV_TABLE_MAX_BYTES"
    "4 dvd nv_table_get_alloc_size ns nd len"
proof -
  let ?s = "NV_TABLE_BOUND len + NV_TABLE_BOUND (16 + ns * 4 + nd * 8)"
  have "16 + ns * 4 + nd * 8 \<le> ?s" "4 dvd ?s"
    using bound_props(1)[of "16 + ns * 4 + nd * 8"] bound_props(2) by (simp_all add: trans_le_add2)
  then show "12 + 4 * ns \<le> nv_table_get_alloc_size ns nd len" "nv_table_get_alloc_size ns nd len \<le> NV_TABLE_MAX_BYTES"
    "4 dvd nv_table_get_alloc_size ns nd len"
    using assms by (auto simp: nv_table_get_alloc_size_def Let_def NV_TABLE_MAX_BYTES_def)
qed

text \<open>Growing, sharing and cloning change only the size, the reference count and the owner.\<close>

lemma resize_wf:
  assumes wf: "nv_wf nm t" and n: "nt_size t \<le> n" "n \<le> NV_TABLE_MAX_BYTES" "4 dvd n"
  shows "nv_wf nm (t\<lparr>nt_size := n, nt_ref_cnt := c, nt_borrowed := b\<rparr>) \<and>
    nv_val (t\<lparr>nt_size := n, nt_ref_cnt := c, nt_borrowed := b\<rparr>) = nv_val t"
proof -
  let ?t = "t\<lparr>nt_size := n, nt_ref_cnt := c, nt_borrowed := b\<rparr>"
  have o: "nv_ofs ?t = nv_ofs t" by (rule nv_ofs_cong) simp_all
  have e: "nv_ent ?t = nv_ent t" by (simp add: nv_ent_def fun_eq_iff o)
  have "nv_layout t" "dyn_ok t" using wf by (simp_all add: nv_wf_def nv_str_wf_def)
  then have "nv_layout ?t" "dyn_ok ?t"
    using n unfolding nv_layout_def dyn_ok_def nv_ofs_table_top_def by simp_all
  then show ?thesis
    using wf ent_cong[OF e] unfolding nv_wf_def nv_str_wf_def e o by simp
qed

lemma size_dvd: "nv_wf nm t \<Longrightarrow> 4 dvd nt_size t \<and> nt_size t \<le> NV_TABLE_MAX_BYTES \<and> 12 \<le> nt_size t"
  by (auto simp: nv_wf_def nv_str_wf_def nv_layout_def nv_ofs_table_top_def)

lemma realloc_spec:
  assumes wf: "nv_wf nm t" and r: "nv_table_realloc t = Some (t', old)"
  shows "nv_wf nm t' \<and> nv_val t' = nv_val t \<and> nt_ref_cnt t' = 1 \<and> \<not> nt_borrowed t' \<and>
    nt_size t' = (if nt_ref_cnt t = 1 \<and> \<not> nt_borrowed t then min (2 * nt_size t) NV_TABLE_MAX_BYTES else nt_size t)"
proof -
  let ?n = "min (2 * nt_size t) NV_TABLE_MAX_BYTES"
  have n: "nt_size t \<le> ?n" "?n \<le> NV_TABLE_MAX_BYTES" "4 dvd ?n"
    using size_dvd[OF wf] by (auto simp: min_def NV_TABLE_MAX_BYTES_def)
  show ?thesis
  proof (cases "nt_ref_cnt t = 1 \<and> \<not> nt_borrowed t")
    case True
    then have "t' = t\<lparr>nt_size := ?n, nt_ref_cnt := 1, nt_borrowed := False\<rparr>"
      using r by (cases t) (auto simp: nv_table_realloc_def Let_def mult.commute split: if_splits)
    with True resize_wf[OF wf n, where c = 1 and b = False] show ?thesis by simp
  next
    case False
    then have "t' = t\<lparr>nt_size := nt_size t, nt_ref_cnt := 1, nt_borrowed := False\<rparr>"
      using r by (cases t) (auto simp: nv_table_realloc_def Let_def split: if_splits)
    with False resize_wf[OF wf order_refl, where c = 1 and b = False] size_dvd[OF wf] show ?thesis by auto
  qed
qed


lemma new_spec:
  assumes "ns < 256"
  shows "\<exists>t. nv_table_new ns nd len = Some t \<and> nv_wf nm t \<and> nv_val t = (\<lambda>h. [])"
proof -
  let ?t = "\<lparr>nt_size = nv_table_get_alloc_size ns nd len, nt_used = 0, nt_ref_cnt = 1, nt_borrowed = False,
    nt_static = replicate ns 0, nt_dyn = [], nt_heap = Map.empty\<rparr>"
  have "nv_wf nm ?t \<and> nv_val ?t = (\<lambda>h. [])"
    using get_alloc_size_bounds[OF assms, of nd len] assms by (intro empty_wf[where n = ns]) simp_all
  moreover have "nv_table_new ns nd len = Some ?t"
    using get_alloc_size_bounds(2)[OF assms, of nd len] assms by (simp add: nv_table_new_def nv_table_init_def)
  ultimately show ?thesis by blast
qed

text \<open>With room for a slot and an entry, a value that nothing refers to can be stored.\<close>

lemma store_value_room:
  assumes wf: "nv_str_wf nm t" and slot: "slot_ok t h slot" and h: "0 < h" "h < 2 ^ 16"
    and room: "nv_table_alloc_check t (8 + NV_TABLE_BOUND (NV_ENTRY_DIRECT_HDR + length name + length v + 2))"
    and r: "nv_table_store_value t h name v want (nv_ofs t h) slot = Some (ok, new, t')"
  shows ok
proof -
  let ?n = "NV_TABLE_BOUND (NV_ENTRY_DIRECT_HDR + length name + length v + 2)"
  have "nv_table_alloc_check t 8" using room by (simp add: nv_table_alloc_check_def)
  then obtain t1 slot1 where t1: "nv_table_reserve_table_entry t h slot = Some (t1, slot1)"
      "nv_table_alloc_check t1 ?n"
  proof (cases "slot = None \<and> h > num_static_entries t")
    case True
    obtain f l where fl: "nv_dyn_search guint16_of (nt_dyn t) h 0 (int (num_dyn_entries t) - 1) = (f, l)" by fastforce
    define ndx where "ndx = nat (case f of Some m \<Rightarrow> m | None \<Rightarrow> l)"
    define d where "d = (if f = None then take ndx (nt_dyn t) @ (h, 0) # drop ndx (nt_dyn t)
      else take (num_dyn_entries t) (take ndx (nt_dyn t) @ (h, 0) # drop ndx (nt_dyn t)))"
    have "length d \<le> Suc (num_dyn_entries t)" by (auto simp: d_def min_def)
    then have "nv_table_alloc_check (t\<lparr>nt_dyn := d\<rparr>) ?n"
      using room by (simp add: nv_table_alloc_check_def nv_table_get_bottom_def nv_ofs_table_top_def)
    moreover have "nv_table_reserve_table_entry t h slot = Some (t\<lparr>nt_dyn := d\<rparr>, Some ndx)"
      using True fl \<open>nv_table_alloc_check t 8\<close> by (simp add: nv_table_reserve_table_entry_def Let_def ndx_def d_def)
    ultimately show thesis using that by blast
  next
    case False
    then have "nv_table_reserve_table_entry t h slot = Some (t, slot)"
      by (auto simp: nv_table_reserve_table_entry_def)
    moreover have "nv_table_alloc_check t ?n" using room by (simp add: nv_table_alloc_check_def)
    ultimately show thesis by (rule that)
  qed
  then show ?thesis
    using r by (auto simp: nv_table_store_value_def nv_table_store_new_def nv_table_alloc_value_def Let_def
        split: if_splits option.splits)
qed


lemma add_value_room:
  assumes wf: "nv_wf nm t" and h: "0 < h" "h < 2 ^ 16" and nr: "\<forall>e. nv_ent t h = Some e \<longrightarrow> ne_indirect e \<or> \<not> ne_referenced e"
    and room: "nv_table_alloc_check t (8 + NV_TABLE_BOUND (NV_ENTRY_DIRECT_HDR + length name + length v + 2))"
    and r: "nv_table_add_value t h name v want = Some (ok, new, t')"
  shows ok
proof -
  have dk: "dyn_ok t" and s: "nv_str_wf nm t" using wf by (simp_all add: nv_wf_def nv_str_wf_def)
  obtain slot where sl: "nv_table_get_entry t h = (nv_ofs t h, slot)" "slot_ok t h slot"
    by (rule get_entry_pair[OF dk])
  let ?v = "take NV_TABLE_MAX_BYTES v"
  have num: "(2::nat) = Suc (Suc 0)" by simp
  have "\<not> (nv_ofs t h \<noteq> 0 \<and> (case nt_heap t (nv_ofs t h) of None \<Rightarrow> False
       | Some e \<Rightarrow> \<not> ne_indirect e \<and> ne_referenced e))"
    using nr by (auto simp: nv_ent_def split: option.splits)
  then have "ok \<or> nv_table_store_value t h name ?v want (nv_ofs t h) slot = Some (ok, new, t')"
    using r sl(1)
    by (auto simp: nv_table_add_value_def nv_table_add_value_f.simps(2)[of "Suc 0"] num Let_def split: if_splits)
  moreover have "nv_table_alloc_check t (8 + NV_TABLE_BOUND (NV_ENTRY_DIRECT_HDR + length name + length ?v + 2))"
  proof -
    have "NV_TABLE_BOUND (NV_ENTRY_DIRECT_HDR + length name + length ?v + 2)
        \<le> NV_TABLE_BOUND (NV_ENTRY_DIRECT_HDR + length name + length v + 2)"
      unfolding NV_TABLE_BOUND_def by (intro mult_le_mono div_le_mono) auto
    with room show ?thesis by (simp add: nv_table_alloc_check_def)
  qed
  ultimately show ?thesis using store_value_room[OF s sl(2) h] by blast
qed

subsection \<open>Properties\<close>

text \<open>A table with one stored value, for examples.\<close>

definition nv_sample :: nv_table where
  "nv_sample = \<lparr>nt_size = 128, nt_used = 20, nt_ref_cnt = 1, nt_borrowed = False, nt_static = [20, 0],
     nt_dyn = [], nt_heap = [20 \<mapsto> \<lparr>ne_referenced = False, ne_alloc_len = 20, ne_name = [],
                                     ne_body = VDirect ''abc''\<rparr>]\<rparr>"

lemma nv_sample_ofs: "nv_ofs nv_sample = (\<lambda>h. if h = 1 then 20 else 0)"
  by (auto simp: nv_ofs_def nv_sample_def fun_eq_iff nth_Cons')

lemma nv_sample_ent: "nv_ent nv_sample = (\<lambda>h. if h = 1 then nt_heap nv_sample 20 else None)"
  by (simp add: nv_ent_def nv_sample_ofs fun_eq_iff)

lemma nv_sample_wf: "nv_wf (\<lambda>h. ''M'') nv_sample"
proof -
  have "nv_layout nv_sample"
    by (simp add: nv_layout_def nv_sample_def nv_ofs_table_top_def NV_TABLE_MAX_BYTES_def)
  moreover have "dyn_ok nv_sample" by (simp add: dyn_ok_def nv_sample_def)
  ultimately show ?thesis
    by (simp add: nv_wf_def nv_str_wf_def refs_ok_def nv_sample_ofs nv_sample_ent) (simp add: nv_sample_def entry_fits_def)
qed

text \<open>C1: Storing a value. On a table that satisfies the invariant (entries aligned, disjoint, inside
  the block and never meeting the offset tables; references to marked stored values),
  \<^verbatim>\<open>nv_table_add_value\<close> returns, keeps the invariant and leaves what every other handle reads
  unchanged, although it may have rewritten values that refer to the one it overwrites; the handle
  itself reads the new value, cut to the largest table size, if the function succeeded, and its old
  value if it failed. It succeeds whenever there is room for a slot and an entry and no other value
  refers to the one it overwrites.\<close>

theorem nv_table_add_value_correct:
  assumes "nv_wf nm t" "0 < h" "h < 2 ^ 16"
  shows "\<exists>ok new t'. nv_table_add_value t h (nm h) v want = Some (ok, new, t') \<and> nv_wf nm t' \<and>
    (\<forall>g. g \<noteq> h \<longrightarrow> nv_table_get_value t' g = nv_table_get_value t g) \<and>
    nv_table_get_value t' h = (if ok then Some (take NV_TABLE_MAX_BYTES v) else nv_table_get_value t h) \<and>
    (nv_table_alloc_check t (8 + NV_TABLE_BOUND (NV_ENTRY_DIRECT_HDR + length (nm h) + length v + 2)) \<and>
     (\<forall>e. nv_ent t h = Some e \<longrightarrow> ne_indirect e \<or> \<not> ne_referenced e) \<longrightarrow> ok)"
proof -
  obtain ok new t' where t': "nv_table_add_value t h (nm h) v want = Some (ok, new, t')" "nv_wf nm t'"
    "nv_val t' = (if ok then (nv_val t)(h := take NV_TABLE_MAX_BYTES v) else nv_val t)"
    using add_value_spec[OF assms, of v want] by blast
  have "nv_table_alloc_check t (8 + NV_TABLE_BOUND (NV_ENTRY_DIRECT_HDR + length (nm h) + length v + 2)) \<and>
     (\<forall>e. nv_ent t h = Some e \<longrightarrow> ne_indirect e \<or> \<not> ne_referenced e) \<longrightarrow> ok"
    using add_value_room[OF assms _ _ t'(1)] by blast
  with t' get_value_val[OF assms(1)] get_value_val[OF t'(2)] show ?thesis by auto
qed

lemma nv_table_add_value_correct_witness:
  "\<exists>ok new t'. nv_table_add_value (the (nv_table_new 2 0 0)) 1 ''HOST'' ''a'' False = Some (ok, new, t') \<and>
     nv_table_get_value t' 2 = nv_table_get_value (the (nv_table_new 2 0 0)) 2"
proof -
  obtain t where t: "nv_table_new 2 0 0 = Some t" "nv_wf (\<lambda>h. ''HOST'') t" using new_spec[of 2 0 0] by auto
  show ?thesis using nv_table_add_value_correct[OF t(2), of 1 "''a''" False] t(1) by auto
qed






end
