(* ===== verification/Log_Tags.thy ===== *)
theory Log_Tags
  imports Interning
begin

text \<open>
  Tags: the global table of tag names of \<^verbatim>\<open>lib/tags.c\<close>, an interning table with a limit, and
  the set of tags of one message (\<^verbatim>\<open>log_msg_set_tag_by_id_onoff\<close> and its companions in
  \<^verbatim>\<open>lib/logmsg.c\<close>), a bit set that starts inside the pointer field of the message and moves to an
  array of 64-bit words when a tag with a large number is set.
\<close>

subsection \<open>The tag table\<close>

record log_tag =
  tag_name :: string
  tag_counter :: "int option"

record log_tags =
  tags_list :: "log_tag list"
  tags_list_size :: nat
  tags_hash :: "string \<Rightarrow> nat option"

definition LOG_TAGS_MAX :: nat where
  "LOG_TAGS_MAX = 16384"

abbreviation log_tags_num :: "log_tags \<Rightarrow> nat" where
  "log_tags_num s \<equiv> length (tags_list s)"

definition log_tags_init :: log_tags where
  "log_tags_init = \<lparr>tags_list = [], tags_list_size = 4, tags_hash = Map.empty\<rparr>"

text \<open>The hash table stores the number plus one, so that a missing name gives \<^verbatim>\<open>0xffffffff\<close>.
  \<open>counter\<close> is what \<^verbatim>\<open>stats_register_counter\<close> stores, a null pointer when the statistics level is
  too low.\<close>

definition log_tags_get_by_name :: "(string \<Rightarrow> int option) \<Rightarrow> log_tags \<Rightarrow> string \<Rightarrow> log_tags \<times> nat" where
  "log_tags_get_by_name counter s name =
     (case tags_hash s name of
        Some i \<Rightarrow> (s, i - 1)
      | None \<Rightarrow>
          if log_tags_num s < LOG_TAGS_MAX - 1 then
            (let tid = log_tags_num s
             in (\<lparr>tags_list = tags_list s @ [\<lparr>tag_name = name, tag_counter = counter name\<rparr>],
                  tags_list_size = if tid = tags_list_size s then tags_list_size s * 2 else tags_list_size s,
                  tags_hash = (tags_hash s)(name \<mapsto> tid + 1)\<rparr>, tid))
          else (s, 0))"

definition log_tags_get_by_id :: "log_tags \<Rightarrow> nat \<Rightarrow> string option" where
  "log_tags_get_by_id s tid = (if tid < log_tags_num s then Some (tag_name (tags_list s ! tid)) else None)"

definition log_tags_add_counter :: "int \<Rightarrow> log_tags \<Rightarrow> nat \<Rightarrow> log_tags" where
  "log_tags_add_counter d s tid =
     (if tid < log_tags_num s
      then s\<lparr>tags_list := (tags_list s)[tid := (tags_list s ! tid)\<lparr>tag_counter :=
             map_option (\<lambda>c. c + d) (tag_counter (tags_list s ! tid))\<rparr>]\<rparr>
      else s)"

definition log_tags_inc_counter :: "log_tags \<Rightarrow> nat \<Rightarrow> log_tags" where
  "log_tags_inc_counter s tid = log_tags_add_counter 1 s tid"

definition log_tags_dec_counter :: "log_tags \<Rightarrow> nat \<Rightarrow> log_tags" where
  "log_tags_dec_counter s tid = log_tags_add_counter (- 1) s tid"

text \<open>Invariant: the array has room for its entries, the hash table and the array agree.\<close>

definition tags_wf :: "log_tags \<Rightarrow> bool" where
  "tags_wf s \<longleftrightarrow> log_tags_num s \<le> tags_list_size s \<and> 0 < tags_list_size s \<and> log_tags_num s < LOG_TAGS_MAX \<and>
     (\<forall>n i. tags_hash s n = Some i \<longleftrightarrow> 0 < i \<and> i \<le> log_tags_num s \<and> tag_name (tags_list s ! (i - 1)) = n)"

lemma tags_wf_init: "tags_wf log_tags_init"
  by (auto simp: tags_wf_def log_tags_init_def LOG_TAGS_MAX_def)

lemma tags_wf_get_by_name:
  assumes wf: "tags_wf s"
  shows "tags_wf (fst (log_tags_get_by_name counter s name))"
proof (cases "tags_hash s name = None \<and> log_tags_num s < LOG_TAGS_MAX - 1")
  case True
  have hash: "tags_hash s n = Some i \<longleftrightarrow> 0 < i \<and> i \<le> log_tags_num s \<and> tag_name (tags_list s ! (i - 1)) = n" for n i
    using wf unfolding tags_wf_def by blast
  have new: "tag_name (tags_list s ! j) \<noteq> name" if "j < log_tags_num s" for j
    using hash[of name "Suc j"] True that by auto
  have "((tags_hash s)(name \<mapsto> Suc (log_tags_num s))) n = Some i \<longleftrightarrow> 0 < i \<and> i \<le> Suc (log_tags_num s) \<and>
      tag_name ((tags_list s @ [\<lparr>tag_name = name, tag_counter = counter name\<rparr>]) ! (i - 1)) = n" for n i
    using hash[of n i] new[of "i - 1"] by (auto simp: nth_append le_Suc_eq)
  with True wf show ?thesis
    by (auto simp: log_tags_get_by_name_def tags_wf_def Let_def)
qed (use wf in \<open>auto simp: log_tags_get_by_name_def split: option.splits\<close>)

lemma tags_wf_counter: "tags_wf s \<Longrightarrow> tags_wf (log_tags_add_counter d s tid)"
proof -
  assume wf: "tags_wf s"
  have "tag_name ((tags_list (log_tags_add_counter d s tid)) ! i) = tag_name (tags_list s ! i)" for i
    by (cases "i < log_tags_num s") (auto simp: log_tags_add_counter_def nth_list_update)
  moreover have "log_tags_num (log_tags_add_counter d s tid) = log_tags_num s"
    "tags_list_size (log_tags_add_counter d s tid) = tags_list_size s"
    "tags_hash (log_tags_add_counter d s tid) = tags_hash s"
    by (auto simp: log_tags_add_counter_def)
  ultimately show ?thesis using wf unfolding tags_wf_def by simp
qed

subsection \<open>The tag table is an interning table\<close>

definition tags_find :: "log_tags \<Rightarrow> string \<Rightarrow> nat option" where
  "tags_find s n = map_option (\<lambda>i. i - 1) (tags_hash s n)"

text \<open>The identifier is missing when the table is full, although the code then returns 0.\<close>

definition tags_intern :: "(string \<Rightarrow> int option) \<Rightarrow> log_tags \<Rightarrow> string \<Rightarrow> log_tags \<times> nat option" where
  "tags_intern counter s n = (let (s', i) = log_tags_get_by_name counter s n
     in (s', if tags_hash s' n = None then None else Some i))"

interpretation tags: interner tags_wf tags_find "tags_intern counter" log_tags_get_by_id for counter
proof unfold_locales
  show "tags_wf (fst (tags_intern counter s n))" if "tags_wf s" for s n
    using tags_wf_get_by_name[OF that, of counter n] by (simp add: tags_intern_def case_prod_beta)
  show "tags_find s' n = Some i" if "tags_wf s" "tags_intern counter s n = (s', Some i)" for s n s' i
    using that by (auto simp: tags_intern_def tags_find_def log_tags_get_by_name_def Let_def split: option.splits if_splits)
  show "tags_intern counter s n = (s, Some i)" if "tags_wf s" "tags_find s n = Some i" for s n i
    using that by (auto simp: tags_intern_def tags_find_def log_tags_get_by_name_def)
  show "tags_find (fst (tags_intern counter s n)) m = Some i" if "tags_wf s" "tags_find s m = Some i" for s m i n
    using that by (auto simp: tags_intern_def tags_find_def log_tags_get_by_name_def Let_def split: option.splits if_splits)
  show "log_tags_get_by_id (fst (tags_intern counter s n)) i = Some m"
    if "tags_wf s" "log_tags_get_by_id s i = Some m" for s i m n
    using that by (auto simp: tags_intern_def log_tags_get_by_id_def log_tags_get_by_name_def Let_def nth_append
        split: option.splits if_splits)
  show "log_tags_get_by_id s' i = Some n"
    if "tags_wf s" "tags_find s n = None" "tags_intern counter s n = (s', Some i)" for s n s' i
    using that by (auto simp: tags_intern_def tags_find_def log_tags_get_by_id_def log_tags_get_by_name_def Let_def nth_append
        split: option.splits if_splits)
qed

subsection \<open>The tags of a message\<close>

text \<open>The \<^verbatim>\<open>tags\<close> field: the bits themselves while \<^verbatim>\<open>num_tags\<close> is 0, afterwards a pointer to
  \<^verbatim>\<open>num_tags\<close> words.\<close>

datatype lm_tags = TagsInline guint64 | TagsArray "guint64 list"

fun num_tags :: "lm_tags \<Rightarrow> nat" where
  "num_tags (TagsInline w) = 0"
| "num_tags (TagsArray ws) = length ws"

definition tag_bit :: "nat \<Rightarrow> guint64" where
  "tag_bit index = push_bit (index mod 64) 1"

definition set_word_bit :: "guint64 \<Rightarrow> nat \<Rightarrow> bool \<Rightarrow> guint64" where
  "set_word_bit w index value = (if value then w OR tag_bit index else w AND NOT (tag_bit index))"

definition log_msg_set_bit :: "guint64 list \<Rightarrow> nat \<Rightarrow> bool \<Rightarrow> guint64 list" where
  "log_msg_set_bit tags index value =
     tags[index div 64 := set_word_bit (tags ! (index div 64)) index value]"

definition log_msg_get_bit :: "guint64 list \<Rightarrow> nat \<Rightarrow> bool" where
  "log_msg_get_bit tags index \<longleftrightarrow> tags ! (index div 64) AND tag_bit index \<noteq> 0"

text \<open>\<^verbatim>\<open>log_msg_set_tag_by_id_onoff\<close> on the tag field; the flag says whether the counter of the tag is
  changed (an out-of-range tag returns before).\<close>

definition tags_set_onoff :: "lm_tags \<Rightarrow> nat \<Rightarrow> bool \<Rightarrow> lm_tags \<times> bool" where
  "tags_set_onoff tags tid on =
     (case tags of
        TagsInline w \<Rightarrow>
          if tid < 64 then (TagsInline (set_word_bit w tid on), True)
          else if 8159 < tid then (tags, False)
          else (TagsArray (log_msg_set_bit (w # replicate (tid div 64) 0) tid on), True)
      | TagsArray ws \<Rightarrow>
          if length ws * 64 \<le> tid then
            (if 8159 < tid then (tags, False)
             else (TagsArray (log_msg_set_bit (ws @ replicate (tid div 64 + 1 - length ws) 0) tid on), True))
          else (TagsArray (log_msg_set_bit ws tid on), True))"

definition log_msg_set_tag_by_id_onoff :: "log_tags \<Rightarrow> lm_tags \<Rightarrow> nat \<Rightarrow> bool \<Rightarrow> log_tags \<times> lm_tags" where
  "log_msg_set_tag_by_id_onoff s tags tid on =
     (let (tags', counted) = tags_set_onoff tags tid on
      in (if counted then (if on then log_tags_inc_counter s tid else log_tags_dec_counter s tid) else s, tags'))"

definition log_msg_set_tag_by_name ::
    "(string \<Rightarrow> int option) \<Rightarrow> log_tags \<Rightarrow> lm_tags \<Rightarrow> string \<Rightarrow> bool \<Rightarrow> log_tags \<times> lm_tags" where
  "log_msg_set_tag_by_name counter s tags name on =
     (let (s', tid) = log_tags_get_by_name counter s name in log_msg_set_tag_by_id_onoff s' tags tid on)"

definition log_msg_is_tag_by_id :: "lm_tags \<Rightarrow> nat \<Rightarrow> bool" where
  "log_msg_is_tag_by_id tags tid =
     (if 8159 < tid then False
      else case tags of
             TagsInline w \<Rightarrow> (if tid < 64 then log_msg_get_bit [w] tid else False)
           | TagsArray ws \<Rightarrow> (if tid < length ws * 64 then log_msg_get_bit ws tid else False))"

definition log_msg_is_tag_by_name ::
    "(string \<Rightarrow> int option) \<Rightarrow> log_tags \<Rightarrow> lm_tags \<Rightarrow> string \<Rightarrow> log_tags \<times> bool" where
  "log_msg_is_tag_by_name counter s tags name =
     (let (s', tid) = log_tags_get_by_name counter s name in (s', log_msg_is_tag_by_id tags tid))"

text \<open>The loop of \<^verbatim>\<open>log_msg_tags_foreach_item\<close>, with the number of rounds left: the tag numbers it
  calls the callback with. It stops early when no bit is left.\<close>

fun foreach_item :: "nat \<Rightarrow> nat \<Rightarrow> guint64 \<Rightarrow> nat list" where
  "foreach_item 0 tid item = []"
| "foreach_item (Suc n) tid item =
     (if item = 0 then []
      else if item AND 1 \<noteq> 0 then tid # foreach_item n (tid + 1) (drop_bit 1 item)
      else foreach_item n (tid + 1) (drop_bit 1 item))"

definition log_msg_tags_foreach_item :: "nat \<Rightarrow> guint64 \<Rightarrow> nat list" where
  "log_msg_tags_foreach_item base item = foreach_item 64 base item"

fun tags_foreach_words :: "nat \<Rightarrow> guint64 list \<Rightarrow> nat list" where
  "tags_foreach_words i [] = []"
| "tags_foreach_words i (w # ws) = log_msg_tags_foreach_item (i * 64) w @ tags_foreach_words (i + 1) ws"

definition log_msg_tags_foreach :: "lm_tags \<Rightarrow> nat list" where
  "log_msg_tags_foreach tags =
     (case tags of TagsInline w \<Rightarrow> log_msg_tags_foreach_item 0 w | TagsArray ws \<Rightarrow> tags_foreach_words 0 ws)"

text \<open>The callback of \<^verbatim>\<open>log_msg_print_tags\<close>; appending a null pointer appends nothing.\<close>

definition log_msg_append_tags_callback :: "log_tags \<Rightarrow> nat \<Rightarrow> nat \<Rightarrow> string \<Rightarrow> string" where
  "log_msg_append_tags_callback s original_length tid result =
     (if length result > original_length then result @ '','' else result) @
     (case log_tags_get_by_id s tid of Some n \<Rightarrow> n | None \<Rightarrow> [])"

definition log_msg_print_tags :: "log_tags \<Rightarrow> lm_tags \<Rightarrow> string \<Rightarrow> string" where
  "log_msg_print_tags s tags result =
     fold (log_msg_append_tags_callback s (length result)) (log_msg_tags_foreach tags) result"


subsection \<open>The tag field is a set\<close>

text \<open>The stored bit of a tag.\<close>

definition raw_tag :: "lm_tags \<Rightarrow> nat \<Rightarrow> bool" where
  "raw_tag tags j = (case tags of TagsInline w \<Rightarrow> j < 64 \<and> bit w j
     | TagsArray ws \<Rightarrow> j < length ws * 64 \<and> bit (ws ! (j div 64)) (j mod 64))"

definition lm_tags_wf :: "lm_tags \<Rightarrow> bool" where
  "lm_tags_wf tags \<longleftrightarrow> (case tags of TagsInline w \<Rightarrow> True | TagsArray ws \<Rightarrow> 0 < length ws \<and> length ws \<le> 128)"

lemma bit_tag_bit: "i < 64 \<Longrightarrow> bit (tag_bit j) i \<longleftrightarrow> i = j mod 64"
  by (auto simp: tag_bit_def bit_simps)

lemma and_tag_bit: "(w AND tag_bit j \<noteq> 0) \<longleftrightarrow> bit w (j mod 64)"
proof
  assume "w AND tag_bit j \<noteq> 0"
  then obtain i where "i < 64" "bit w i" "bit (tag_bit j) i"
    by (auto simp: bit_eq_iff bit_and_iff dest: bit_imp_le_length)
  then show "bit w (j mod 64)" by (simp add: bit_tag_bit)
next
  assume "bit w (j mod 64)"
  then have "bit (w AND tag_bit j) (j mod 64)" by (simp add: bit_and_iff bit_tag_bit)
  then show "w AND tag_bit j \<noteq> 0" by auto
qed

lemma bit_set_word_bit:
  "i < 64 \<Longrightarrow> bit (set_word_bit w j on) i \<longleftrightarrow> (if i = j mod 64 then on else bit w i)"
  by (auto simp: set_word_bit_def bit_simps bit_tag_bit)

lemma div_mod_64_eq: "(j :: nat) div 64 = k div 64 \<Longrightarrow> j mod 64 = k mod 64 \<Longrightarrow> j = k"
  by (metis div_mult_mod_eq)

lemma length_set_bit [simp]: "length (log_msg_set_bit ws j on) = length ws"
  by (simp add: log_msg_set_bit_def)

lemma raw_set_bit:
  assumes "tid < length ws * 64"
  shows "raw_tag (TagsArray (log_msg_set_bit ws tid on)) j = (if j = tid then on else raw_tag (TagsArray ws) j)"
proof -
  have d: "tid div 64 < length ws" using assms by (simp add: less_mult_imp_div_less)
  show ?thesis
  proof (cases "j div 64 = tid div 64")
    case True
    then have "j < length ws * 64 \<longleftrightarrow> True" using d by (simp add: div_less_iff_less_mult flip: True)
    with True d div_mod_64_eq[of j tid] show ?thesis
      by (auto simp: raw_tag_def log_msg_set_bit_def bit_set_word_bit)
  next
    case False
    then show ?thesis by (auto simp: raw_tag_def log_msg_set_bit_def)
  qed
qed

lemma raw_grow:
  "raw_tag (TagsArray (ws @ replicate n 0)) j = raw_tag (TagsArray ws) j"
  by (auto simp: raw_tag_def nth_append less_mult_imp_div_less div_less_iff_less_mult[symmetric])

lemma raw_inline: "raw_tag (TagsArray [w]) j = raw_tag (TagsInline w) j"
  by (auto simp: raw_tag_def)

lemma is_tag_raw: "log_msg_is_tag_by_id tags j \<longleftrightarrow> j \<le> 8159 \<and> raw_tag tags j"
  by (auto simp: log_msg_is_tag_by_id_def raw_tag_def log_msg_get_bit_def and_tag_bit split: lm_tags.splits)

lemma tags_set_raw:
  assumes wf: "lm_tags_wf tags" and tid: "tid \<le> 8159"
  shows "lm_tags_wf (fst (tags_set_onoff tags tid on))"
    "raw_tag (fst (tags_set_onoff tags tid on)) j = (if j = tid then on else raw_tag tags j)"
    "snd (tags_set_onoff tags tid on)"
proof -
  have q: "tid div 64 \<le> 127" using tid by (simp add: div_le_mono[of tid 8159 64, simplified])
  show "lm_tags_wf (fst (tags_set_onoff tags tid on))"
    using wf q tid by (auto simp: tags_set_onoff_def lm_tags_wf_def simp flip: length_greater_0_conv split: lm_tags.splits)
  show "snd (tags_set_onoff tags tid on)"
    using tid by (auto simp: tags_set_onoff_def split: lm_tags.splits)
  show "raw_tag (fst (tags_set_onoff tags tid on)) j = (if j = tid then on else raw_tag tags j)"
  proof (cases tags)
    case (TagsInline w)
    have "raw_tag (TagsArray (log_msg_set_bit (w # replicate (tid div 64) 0) tid on)) j
        = (if j = tid then on else raw_tag (TagsArray ([w] @ replicate (tid div 64) 0)) j)"
      by (subst raw_set_bit) (auto simp: div_less_iff_less_mult[symmetric])
    also have "\<dots> = (if j = tid then on else raw_tag (TagsInline w) j)" by (simp only: raw_grow raw_inline)
    finally have "raw_tag (TagsArray (log_msg_set_bit (w # replicate (tid div 64) 0) tid on)) j
        = (if j = tid then on else raw_tag (TagsInline w) j)" .
    moreover have "raw_tag (TagsInline (set_word_bit w tid on)) j = (if j = tid then on else raw_tag (TagsInline w) j)"
      if "tid < 64" using that by (auto simp: raw_tag_def bit_set_word_bit)
    ultimately show ?thesis using TagsInline tid by (cases "tid < 64") (auto simp: tags_set_onoff_def)
  next
    case (TagsArray ws)
    show ?thesis
    proof (cases "length ws * 64 \<le> tid")
      case True
      then have "raw_tag (TagsArray (log_msg_set_bit (ws @ replicate (tid div 64 + 1 - length ws) 0) tid on)) j
          = (if j = tid then on else raw_tag (TagsArray (ws @ replicate (tid div 64 + 1 - length ws) 0)) j)"
        by (subst raw_set_bit) (auto simp: div_less_iff_less_mult[symmetric])
      with True TagsArray tid show ?thesis by (simp add: tags_set_onoff_def raw_grow)
    next
      case False
      with TagsArray raw_set_bit[of tid ws on j] show ?thesis by (simp add: tags_set_onoff_def)
    qed
  qed
qed

lemma foreach_item_filter: "foreach_item n base item = map ((+) base) (filter (bit item) [0..<n])"
proof (induction n arbitrary: base item)
  case (Suc n)
  have up: "[0..<Suc n] = 0 # map Suc [0..<n]" by (simp add: upt_conv_Cons map_Suc_upt del: upt_Suc)
  have "bit (drop_bit 1 item) = (\<lambda>i. bit item (Suc i))" by (simp add: bit_drop_bit_eq fun_eq_iff)
  moreover have "item AND 1 \<noteq> 0 \<longleftrightarrow> bit item 0" by (simp add: and_one_eq bit_0 odd_iff_mod_2_eq_one)
  ultimately show ?case
    by (auto simp: Suc.IH up filter_map comp_def simp del: upt_Suc)
qed simp

lemma tags_foreach_words_filter:
  "tags_foreach_words i ws =
     map ((+) (i * 64)) (filter (\<lambda>j. bit (ws ! (j div 64)) (j mod 64)) [0..<length ws * 64])"
proof (induction ws arbitrary: i)
  case (Cons w ws)
  have up: "[0..<length (w # ws) * 64] = [0..<64] @ map ((+) 64) [0..<length ws * 64]"
  proof -
    have "map ((+) 64) [0..<length ws * 64] = map (\<lambda>i. i + 64) [0..<length ws * 64]"
      by (rule map_cong) simp_all
    then show ?thesis
      using map_add_upt[of 64 "length ws * 64"] upt_add_eq_append[of 0 64 "length ws * 64"]
      by (simp add: add.commute)
  qed
  have "filter (\<lambda>j. bit ((w # ws) ! (j div 64)) (j mod 64)) [0..<64] = filter (bit w) [0..<64]"
    by (rule filter_cong) auto
  moreover have "(64 + x) div 64 - Suc 0 = x div 64" for x :: nat by simp
  moreover have "(+) (64 + i * 64) = (+) (i * 64 + 64)" by (simp add: add.commute)
  ultimately show ?case
    unfolding up
    by (simp add: Cons.IH log_msg_tags_foreach_item_def foreach_item_filter filter_map comp_def
        add.assoc[symmetric] del: upt_Suc)
qed simp


lemma foreach_raw:
  "log_msg_tags_foreach tags = filter (raw_tag tags) [0..<64 * max 1 (num_tags tags)]"
proof (cases tags)
  case (TagsInline w)
  have "filter (bit w) [0..<64] = filter (raw_tag tags) [0..<64]"
    by (rule filter_cong) (auto simp: TagsInline raw_tag_def)
  with TagsInline show ?thesis
    by (simp add: log_msg_tags_foreach_def log_msg_tags_foreach_item_def foreach_item_filter map_idI)
next
  case (TagsArray ws)
  show ?thesis
  proof (cases ws)
    case Nil
    with TagsArray show ?thesis by (simp add: log_msg_tags_foreach_def raw_tag_def)
  next
    case (Cons v vs)
    then have "max 1 (length ws) = length ws" by simp
    moreover have "filter (\<lambda>j. bit (ws ! (j div 64)) (j mod 64)) [0..<length ws * 64] =
        filter (raw_tag tags) [0..<length ws * 64]"
      by (rule filter_cong) (auto simp: TagsArray raw_tag_def)
    ultimately show ?thesis
      using TagsArray by (simp add: log_msg_tags_foreach_def tags_foreach_words_filter mult.commute map_idI)
  qed
qed

subsection \<open>Properties\<close>





end
