(* ===== verification/Log_Message.thy ===== *)
theory Log_Message
  imports NV_Table_Refs Log_Tags
begin

text \<open>
  The message object of \<^verbatim>\<open>lib/logmsg.c\<close> above the name-value table: setting values with the loop
  that grows the payload, matches, the list of structured data elements, tags, flags and the
  copy-on-write clone. Reference counting is in the theory of the reference cache.

  The payload, the tags and the structured data list of a clone are shared with the original until
  they are changed; here they are values, and the ownership flags are kept because they decide when the
  code copies. \<open>None\<close> is a failed assertion or an access outside an array.
\<close>

subsection \<open>Data\<close>

record log_message =
  lm_payload :: nv_table
  lm_flags :: guint32
  lm_tagset :: lm_tags
  lm_sdata :: "nv_handle list"
  lm_alloc_sdata :: nat
  lm_num_matches :: nat
  lm_initial_parse :: bool
  lm_protect_cnt :: guint8

definition LM_V_HOST :: nv_handle where "LM_V_HOST = 1"
definition LM_V_HOST_FROM :: nv_handle where "LM_V_HOST_FROM = 2"
definition LM_V_MESSAGE :: nv_handle where "LM_V_MESSAGE = 3"
definition LM_V_PROGRAM :: nv_handle where "LM_V_PROGRAM = 4"
definition LM_V_PID :: nv_handle where "LM_V_PID = 5"
definition LM_V_MSGID :: nv_handle where "LM_V_MSGID = 6"
definition LM_V_SOURCE :: nv_handle where "LM_V_SOURCE = 7"
definition LM_V_LEGACY_MSGHDR :: nv_handle where "LM_V_LEGACY_MSGHDR = 8"
definition LM_V_MAX :: nv_handle where "LM_V_MAX = 9"

definition LM_VF_SDATA :: guint16 where "LM_VF_SDATA = 1"
definition LM_VF_MACRO :: guint16 where "LM_VF_MACRO = 4"

definition LF_STATE_MASK :: guint32 where "LF_STATE_MASK = 0xFFF0"
definition LF_STATE_OWN_PAYLOAD :: guint32 where "LF_STATE_OWN_PAYLOAD = 0x10"
definition LF_STATE_OWN_TAGS :: guint32 where "LF_STATE_OWN_TAGS = 0x40"
definition LF_STATE_OWN_SDATA :: guint32 where "LF_STATE_OWN_SDATA = 0x80"
definition LF_STATE_OWN_MASK :: guint32 where "LF_STATE_OWN_MASK = 0xF0"
definition LF_LEGACY_MSGHDR :: guint32 where "LF_LEGACY_MSGHDR = 0x20000"

definition builtin_value_names :: "string list" where
  "builtin_value_names = [''HOST'', ''HOST_FROM'', ''MESSAGE'', ''PROGRAM'', ''PID'', ''MSGID'', ''SOURCE'', ''LEGACY_MSGHDR'']"

definition logmsg_sd_prefix :: string where
  "logmsg_sd_prefix = ''.SDATA.''"

definition log_msg_chk_flag :: "log_message \<Rightarrow> guint32 \<Rightarrow> bool" where
  "log_msg_chk_flag self flag \<longleftrightarrow> lm_flags self AND flag \<noteq> 0"

definition log_msg_set_flag :: "log_message \<Rightarrow> guint32 \<Rightarrow> log_message" where
  "log_msg_set_flag self flag = self\<lparr>lm_flags := lm_flags self OR flag\<rparr>"

definition log_msg_unset_flag :: "log_message \<Rightarrow> guint32 \<Rightarrow> log_message" where
  "log_msg_unset_flag self flag = self\<lparr>lm_flags := lm_flags self AND NOT flag\<rparr>"

definition log_msg_is_write_protected :: "log_message \<Rightarrow> bool" where
  "log_msg_is_write_protected self \<longleftrightarrow> lm_protect_cnt self > 0"

definition log_msg_write_protect :: "log_message \<Rightarrow> log_message" where
  "log_msg_write_protect self = self\<lparr>lm_protect_cnt := lm_protect_cnt self + 1\<rparr>"

definition log_msg_write_unprotect :: "log_message \<Rightarrow> log_message" where
  "log_msg_write_unprotect self = self\<lparr>lm_protect_cnt := lm_protect_cnt self - 1\<rparr>"

subsection \<open>Names and handles\<close>

definition strncmp_eq :: "string \<Rightarrow> string \<Rightarrow> nat \<Rightarrow> bool" where
  "strncmp_eq a b n \<longleftrightarrow> take n a = take n b"

text \<open>The test for a further character looks at index 6, the dot that ends the prefix.\<close>

definition log_msg_get_value_handle :: "nv_registry \<Rightarrow> string \<Rightarrow> (nv_registry \<times> nv_handle) option" where
  "log_msg_get_value_handle reg value_name =
     (let (reg', handle) = nv_registry_alloc_handle reg value_name
      in if strncmp_eq value_name logmsg_sd_prefix (length logmsg_sd_prefix) \<and> 6 < length value_name
         then map_option (\<lambda>r. (r, handle)) (nv_registry_set_handle_flags reg' handle LM_VF_SDATA)
         else Some (reg', handle))"

definition log_msg_get_value_name :: "nv_registry \<Rightarrow> nv_handle \<Rightarrow> string option" where
  "log_msg_get_value_name reg handle = map_option fst (nv_registry_get_handle_name reg handle)"

text \<open>The loop over the dots: \<open>dot_found\<close> counts those that are followed by a further character.\<close>

fun count_dots :: "string \<Rightarrow> nat" where
  "count_dots [] = 0"
| "count_dots (c # cs) = (if c = CHR ''.'' then (if cs = [] then 0 else Suc (count_dots cs)) else count_dots cs)"

definition log_msg_is_value_name_valid :: "string \<Rightarrow> bool" where
  "log_msg_is_value_name_valid value \<longleftrightarrow>
     (if strncmp_eq value logmsg_sd_prefix (length logmsg_sd_prefix) then count_dots value \<ge> 3 else True)"

definition log_msg_is_handle_macro :: "nv_registry \<Rightarrow> nv_handle \<Rightarrow> bool option" where
  "log_msg_is_handle_macro reg handle = map_option (\<lambda>f. f AND LM_VF_MACRO \<noteq> 0) (nv_registry_get_handle_flags reg handle)"

definition log_msg_is_handle_sdata :: "nv_registry \<Rightarrow> nv_handle \<Rightarrow> bool option" where
  "log_msg_is_handle_sdata reg handle = map_option (\<lambda>f. f AND LM_VF_SDATA \<noteq> 0) (nv_registry_get_handle_flags reg handle)"

definition log_msg_is_handle_match :: "nv_handle list \<Rightarrow> nv_handle \<Rightarrow> bool option" where
  "log_msg_is_handle_match match_handles handle =
     (if match_handles ! 0 \<noteq> 0 \<and> match_handles ! 255 \<noteq> 0 \<and> match_handles ! 0 < match_handles ! 255
      then Some (match_handles ! 0 \<le> handle \<and> handle \<le> match_handles ! 255) else None)"

text \<open>Reading a value; \<open>log_macro_expand\<close> of the template component computes macros.\<close>

definition log_msg_get_value ::
    "(log_message \<Rightarrow> nat \<Rightarrow> string) \<Rightarrow> nv_registry \<Rightarrow> log_message \<Rightarrow> nv_handle \<Rightarrow> string option" where
  "log_msg_get_value log_macro_expand reg self handle =
     (case nv_registry_get_handle_flags reg handle of
        None \<Rightarrow> None
      | Some flags \<Rightarrow> if flags AND LM_VF_MACRO = 0 then nv_table_get_value (lm_payload self) handle
                      else Some (log_macro_expand self (unat (drop_bit 8 flags))))"

subsection \<open>Structured data elements\<close>

text \<open>The loop of \<^verbatim>\<open>log_msg_update_sdata_slow\<close>, from the last element down: the index of the last
  element whose name starts with the prefix and block of the new one.\<close>

fun sdata_find_block :: "nv_registry \<Rightarrow> nv_handle list \<Rightarrow> string \<Rightarrow> nat \<Rightarrow> nat \<Rightarrow> nat option option" where
  "sdata_find_block reg sdata name plen 0 = Some None"
| "sdata_find_block reg sdata name plen (Suc i) =
     (case log_msg_get_value_name reg (sdata ! i) of
        None \<Rightarrow> None
      | Some sname \<Rightarrow>
          if length sname > plen \<and> strncmp_eq sname name plen then Some (Some i)
          else sdata_find_block reg sdata name plen i)"

text \<open>The position of the last dot, as \<^verbatim>\<open>memrchr\<close> finds it.\<close>

fun last_dot :: "string \<Rightarrow> nat option" where
  "last_dot [] = None"
| "last_dot (c # cs) = (case last_dot cs of Some i \<Rightarrow> Some (Suc i) | None \<Rightarrow> if c = CHR ''.'' then Some 0 else None)"

definition sdata_new_alloc :: "log_message \<Rightarrow> nat" where
  "sdata_new_alloc self =
     (let n = length (lm_sdata self)
      in if lm_alloc_sdata self \<le> n
         then (let a = max (n + 1) ((n + 8) div 8 * 8) in if a > 255 then 255 else a)
         else lm_alloc_sdata self)"

definition log_msg_update_sdata_slow :: "nv_registry \<Rightarrow> log_message \<Rightarrow> nv_handle \<Rightarrow> string \<Rightarrow> log_message option" where
  "log_msg_update_sdata_slow reg self handle name =
     (let n = length (lm_sdata self)
      in if n = 255 then Some self
         else let self1 = (log_msg_set_flag self LF_STATE_OWN_SDATA)\<lparr>lm_alloc_sdata := sdata_new_alloc self\<rparr>
              in case (if lm_initial_parse self then Some None
                       else case last_dot name of
                              None \<Rightarrow> None
                            | Some plen \<Rightarrow> sdata_find_block reg (lm_sdata self) name plen n) of
                   None \<Rightarrow> None
                 | Some (Some i) \<Rightarrow> Some (self1\<lparr>lm_sdata := take i (lm_sdata self) @ handle # drop i (lm_sdata self)\<rparr>)
                 | Some None \<Rightarrow> Some (self1\<lparr>lm_sdata := lm_sdata self @ [handle]\<rparr>))"

definition log_msg_update_sdata :: "nv_registry \<Rightarrow> log_message \<Rightarrow> nv_handle \<Rightarrow> string \<Rightarrow> log_message option" where
  "log_msg_update_sdata reg self handle name =
     (case nv_registry_get_handle_flags reg handle of
        None \<Rightarrow> None
      | Some flags \<Rightarrow> if flags AND LM_VF_SDATA \<noteq> 0 then log_msg_update_sdata_slow reg self handle name else Some self)"

subsection \<open>Setting values\<close>

text \<open>The loop of \<^verbatim>\<open>log_msg_set_value\<close> and \<^verbatim>\<open>log_msg_set_value_indirect\<close>: try to store, grow the payload
  when it is full, give up when it cannot grow. \<open>op\<close> is the storing operation. The fuel bounds the
  number of attempts; 64 are more than a table can be doubled.\<close>

fun payload_store :: "nat \<Rightarrow> (nv_table \<Rightarrow> nv_result) \<Rightarrow> nv_table \<Rightarrow> (bool \<times> bool \<times> nv_table) option" where
  "payload_store 0 op t = None"
| "payload_store (Suc fuel) op t =
     (case op t of
        None \<Rightarrow> None
      | Some (ok, new_entry, t') \<Rightarrow>
          if ok then Some (True, new_entry, t')
          else case nv_table_realloc t' of
                 None \<Rightarrow> Some (False, new_entry, t')
               | Some (t'', _) \<Rightarrow> payload_store fuel op t'')"

definition own_payload :: "log_message \<Rightarrow> nat \<Rightarrow> log_message" where
  "own_payload self space =
     (if log_msg_chk_flag self LF_STATE_OWN_PAYLOAD then self
      else log_msg_set_flag (self\<lparr>lm_payload := nv_table_clone (lm_payload self) space\<rparr>) LF_STATE_OWN_PAYLOAD)"

definition log_msg_set_value :: "nv_registry \<Rightarrow> log_message \<Rightarrow> nv_handle \<Rightarrow> string \<Rightarrow> log_message option" where
  "log_msg_set_value reg self handle value =
     (if log_msg_is_write_protected self then None
      else if handle = 0 then Some self
      else case log_msg_get_value_name reg handle of
             None \<Rightarrow> None
           | Some name \<Rightarrow>
               let self1 = own_payload self (length name + length value + 2)
               in case payload_store 64 (\<lambda>t. nv_table_add_value t handle name value True) (lm_payload self1) of
                    None \<Rightarrow> None
                  | Some (_, new_entry, t) \<Rightarrow>
                      map_option (\<lambda>m. if handle = LM_V_PROGRAM then log_msg_unset_flag m LF_LEGACY_MSGHDR else m)
                        (if new_entry then log_msg_update_sdata reg (self1\<lparr>lm_payload := t\<rparr>) handle name
                         else Some (self1\<lparr>lm_payload := t\<rparr>)))"

definition log_msg_set_value_indirect ::
    "nv_registry \<Rightarrow> log_message \<Rightarrow> nv_handle \<Rightarrow> nv_handle \<Rightarrow> guint8 \<Rightarrow> guint16 \<Rightarrow> guint16 \<Rightarrow> log_message option" where
  "log_msg_set_value_indirect reg self handle ref ty ofs len =
     (if log_msg_is_write_protected self then None
      else if handle = 0 then Some self
      else if handle < LM_V_MAX then None
      else case log_msg_get_value_name reg handle of
             None \<Rightarrow> None
           | Some name \<Rightarrow>
               let self1 = own_payload self (length name + 1)
               in case payload_store 64 (\<lambda>t. nv_table_add_value_indirect t handle name ref ty (unat ofs) (unat len) True)
                         (lm_payload self1) of
                    None \<Rightarrow> None
                  | Some (_, new_entry, t) \<Rightarrow>
                      if new_entry then log_msg_update_sdata reg (self1\<lparr>lm_payload := t\<rparr>) handle name
                      else Some (self1\<lparr>lm_payload := t\<rparr>))"

definition log_msg_set_match :: "nv_registry \<Rightarrow> nv_handle list \<Rightarrow> log_message \<Rightarrow> nat \<Rightarrow> string \<Rightarrow> log_message option" where
  "log_msg_set_match reg match_handles self index value =
     (if index < 256
      then log_msg_set_value reg
             (if index \<ge> lm_num_matches self then self\<lparr>lm_num_matches := (index + 1) mod 256\<rparr> else self)
             (match_handles ! index) value
      else None)"

definition log_msg_set_match_indirect ::
    "nv_registry \<Rightarrow> nv_handle list \<Rightarrow> log_message \<Rightarrow> nat \<Rightarrow> nv_handle \<Rightarrow> guint8 \<Rightarrow> guint16 \<Rightarrow> guint16 \<Rightarrow> log_message option" where
  "log_msg_set_match_indirect reg match_handles self index ref ty ofs len =
     (if index < 256 then log_msg_set_value_indirect reg self (match_handles ! index) ref ty ofs len else None)"

fun clear_match_list :: "nv_registry \<Rightarrow> log_message \<Rightarrow> nv_handle list \<Rightarrow> log_message option" where
  "clear_match_list reg self [] = Some self"
| "clear_match_list reg self (h # hs) =
     (case log_msg_set_value reg self h [] of None \<Rightarrow> None | Some self' \<Rightarrow> clear_match_list reg self' hs)"

definition log_msg_clear_matches :: "nv_registry \<Rightarrow> nv_handle list \<Rightarrow> log_message \<Rightarrow> log_message option" where
  "log_msg_clear_matches reg match_handles self =
     map_option (\<lambda>m. m\<lparr>lm_num_matches := 0\<rparr>)
       (clear_match_list reg self (take (lm_num_matches self) match_handles))"


subsection \<open>The payload loop returns\<close>

text \<open>Storing changes neither the size of a table nor who owns it.\<close>

definition nv_frame :: "nv_table \<Rightarrow> nv_table \<Rightarrow> bool" where
  "nv_frame t t' \<longleftrightarrow> nt_size t' = nt_size t \<and> nt_ref_cnt t' = nt_ref_cnt t \<and> nt_borrowed t' = nt_borrowed t"

lemma nv_frame_refl: "nv_frame t t"
  by (simp add: nv_frame_def)

lemma nv_frame_trans: "nv_frame t t1 \<Longrightarrow> nv_frame t1 t2 \<Longrightarrow> nv_frame t t2"
  by (simp add: nv_frame_def)

lemma store_value_frame:
  "nv_table_store_value t h name v want ofs slot = Some (ok, new, t') \<Longrightarrow> nv_frame t t'"
  by (auto simp: nv_table_store_value_def nv_table_store_new_def nv_table_reserve_table_entry_def nv_table_alloc_value_def
      nv_table_set_table_entry_def nv_put_def nv_frame_def Let_def split: if_splits option.splits prod.splits)

lemma foreach_frame:
  assumes f: "\<And>h ofs t b t'. f h ofs t = Some (b, t') \<Longrightarrow> nv_frame t t'"
    and r: "nv_table_foreach_entry f (\<lambda>t. t) t = Some (b, t')"
  shows "nv_frame t t'"
proof -
  have st: "nv_foreach_static f (\<lambda>t. t) is t = Some (b, t') \<Longrightarrow> nv_frame t t'" for "is" t b t'
    by (induction "is" arbitrary: t)
       (auto simp: nv_frame_refl Let_def split: if_splits option.splits dest!: f intro: nv_frame_trans)
  have dy: "nv_foreach_dyn f (\<lambda>t. t) is t = Some (b, t') \<Longrightarrow> nv_frame t t'" for "is" t b t'
    by (induction "is" arbitrary: t)
       (auto simp: nv_frame_refl Let_def split: if_splits option.splits prod.splits dest!: f intro: nv_frame_trans)
  show ?thesis
    using r by (auto simp: nv_table_foreach_entry_def split: option.splits if_splits dest!: st dy intro: nv_frame_trans)
qed

lemma add_value_f_frame:
  "nv_table_add_value_f n t h name v want = Some (ok, new, t') \<Longrightarrow> nv_frame t t'"
proof (induction n arbitrary: t h name v want ok new t')
  case (Suc n)
  have md: "nv_frame t t'" if "nv_table_make_direct (\<lambda>t h n' v. nv_table_add_value_f n t h n' v False) k g ofs t = Some (b, t')"
    for k g ofs t b t'
    using that Suc.IH
    by (fastforce simp: nv_table_make_direct_def nv_frame_refl split: option.splits if_splits)
  have fe: "nv_frame t t'" if "nv_table_foreach_entry (nv_table_make_direct
      (\<lambda>t h n' v. nv_table_add_value_f n t h n' v False) k) (\<lambda>t. t) t = Some (b, t')" for k t b t'
    by (rule foreach_frame[OF _ that]) (rule md)
  from Suc.prems show ?case
    by (auto simp: nv_table_add_value_f.simps(2) Let_def nv_frame_refl split: prod.splits if_splits option.splits
        dest!: store_value_frame fe intro: nv_frame_trans)
qed (simp add: nv_table_add_value_f.simps)

lemma add_value_frame: "nv_table_add_value t h name v want = Some (ok, new, t') \<Longrightarrow> nv_frame t t'"
  unfolding nv_table_add_value_def by (rule add_value_f_frame)

text \<open>A storing operation in a well-formed table, with its effect on the content.\<close>

definition store_op :: "(nv_handle \<Rightarrow> string) \<Rightarrow> nv_handle \<Rightarrow> string \<Rightarrow> (nv_table \<Rightarrow> nv_result) \<Rightarrow> bool" where
  "store_op nm h v op \<longleftrightarrow> (\<forall>t. nv_wf nm t \<longrightarrow>
     (\<exists>ok new t'. op t = Some (ok, new, t') \<and> nv_wf nm t' \<and> nv_frame t t' \<and>
        nv_val t' = (if ok then (nv_val t)(h := v) else nv_val t)))"

lemma store_op_add_value:
  assumes "0 < h" "h < 2 ^ 16"
  shows "store_op nm h (take NV_TABLE_MAX_BYTES v) (\<lambda>t. nv_table_add_value t h (nm h) v want)"
  unfolding store_op_def using add_value_spec[OF _ assms, of nm _ v want] add_value_frame by blast

lemma payload_store_owned:
  assumes op: "store_op nm h v op"
  shows "nv_wf nm t \<Longrightarrow> nt_ref_cnt t = 1 \<Longrightarrow> \<not> nt_borrowed t \<Longrightarrow> NV_TABLE_MAX_BYTES \<le> nt_size t * 2 ^ n \<Longrightarrow> n < fuel \<Longrightarrow>
    \<exists>ok new t'. payload_store fuel op t = Some (ok, new, t') \<and> nv_wf nm t' \<and>
      nv_val t' = (if ok then (nv_val t)(h := v) else nv_val t) \<and> (ok \<or> nt_size t' = NV_TABLE_MAX_BYTES) \<and>
      nt_size t \<le> nt_size t'"
proof (induction n arbitrary: t fuel)
  case 0
  then obtain f where f: "fuel = Suc f" by (cases fuel) auto
  obtain ok new t' where t': "op t = Some (ok, new, t')" "nv_wf nm t'" "nv_frame t t'"
    "nv_val t' = (if ok then (nv_val t)(h := v) else nv_val t)" using op 0 unfolding store_op_def by blast
  have sz: "nt_size t' = NV_TABLE_MAX_BYTES"
    using t'(3) 0(4) size_dvd[OF 0(1)] by (simp add: nv_frame_def)
  then have "nv_table_realloc t' = None"
    by (simp add: nv_table_realloc_def Let_def NV_TABLE_MAX_BYTES_def)
  with f t' sz show ?case by (auto simp: nv_frame_def)
next
  case (Suc n)
  then obtain f where f: "fuel = Suc f" "n < f" by (cases fuel) auto
  obtain ok new t' where t': "op t = Some (ok, new, t')" "nv_wf nm t'" "nv_frame t t'"
    "nv_val t' = (if ok then (nv_val t)(h := v) else nv_val t)" using op Suc.prems unfolding store_op_def by blast
  show ?case
  proof (cases "ok \<or> nv_table_realloc t' = None")
    case True
    moreover have "nt_size t' = NV_TABLE_MAX_BYTES" if "nv_table_realloc t' = None"
      using that size_dvd[OF t'(2)] by (auto simp: nv_table_realloc_def Let_def min_def split: if_splits)
    ultimately show ?thesis using f t' by (cases ok) (auto simp: nv_frame_def)
  next
    case False
    then obtain t2 old where r: "nv_table_realloc t' = Some (t2, old)" by auto
    note rs = realloc_spec[OF t'(2) r]
    have sz: "nt_size t2 = min (2 * nt_size t) NV_TABLE_MAX_BYTES"
      using rs t'(3) Suc.prems(2,3) by (simp add: nv_frame_def)
    have "NV_TABLE_MAX_BYTES \<le> nt_size t2 * 2 ^ n"
      using Suc.prems(4) by (simp add: sz min_def mult.assoc mult.left_commute)
    then obtain ok2 new2 t3 where t3: "payload_store f op t2 = Some (ok2, new2, t3)" "nv_wf nm t3"
      "nv_val t3 = (if ok2 then (nv_val t2)(h := v) else nv_val t2)" "ok2 \<or> nt_size t3 = NV_TABLE_MAX_BYTES"
      "nt_size t2 \<le> nt_size t3"
      using Suc.IH[of t2 f] rs f(2) by auto
    have "nv_val t2 = nv_val t" "nt_size t \<le> nt_size t3"
      using rs t'(4) False sz t3(5) size_dvd[OF Suc.prems(1)] by (simp_all add: min_def split: if_splits)
    with t3 t' r False f(1) show ?thesis by auto
  qed
qed

lemma payload_store_returns:
  assumes op: "store_op nm h v op" and wf: "nv_wf nm t"
  shows "\<exists>ok new t'. payload_store 64 op t = Some (ok, new, t') \<and> nv_wf nm t' \<and>
      nv_val t' = (if ok then (nv_val t)(h := v) else nv_val t) \<and> (ok \<or> nt_size t' = NV_TABLE_MAX_BYTES) \<and>
      nt_size t \<le> nt_size t'"
proof -
  have big: "NV_TABLE_MAX_BYTES \<le> nt_size u * 2 ^ 28" if "nv_wf nm u" for u
    using size_dvd[OF that] by (simp add: NV_TABLE_MAX_BYTES_def)
  obtain ok new t' where t': "op t = Some (ok, new, t')" "nv_wf nm t'" "nv_frame t t'"
    "nv_val t' = (if ok then (nv_val t)(h := v) else nv_val t)" using op wf unfolding store_op_def by blast
  have step: "payload_store 64 op t = (if ok then Some (True, new, t') else
      case nv_table_realloc t' of None \<Rightarrow> Some (False, new, t') | Some (t'', _) \<Rightarrow> payload_store 63 op t'')"
    using t'(1) payload_store.simps(2)[of 63 op t] by simp
  show ?thesis
  proof (cases "ok \<or> nv_table_realloc t' = None")
    case True
    moreover have "nt_size t' = NV_TABLE_MAX_BYTES" if "nv_table_realloc t' = None"
      using that size_dvd[OF t'(2)] by (auto simp: nv_table_realloc_def Let_def min_def split: if_splits)
    ultimately show ?thesis using t' step by (cases ok) (auto simp: nv_frame_def)
  next
    case False
    then obtain t2 old where r: "nv_table_realloc t' = Some (t2, old)" by auto
    note rs = realloc_spec[OF t'(2) r]
    from rs payload_store_owned[OF op, of t2 28 63] big[of t2]
    obtain ok2 new2 t3 where t3: "payload_store 63 op t2 = Some (ok2, new2, t3)" "nv_wf nm t3"
      "nv_val t3 = (if ok2 then (nv_val t2)(h := v) else nv_val t2)" "ok2 \<or> nt_size t3 = NV_TABLE_MAX_BYTES"
      "nt_size t2 \<le> nt_size t3"
      by auto
    have "nv_val t2 = nv_val t" "nt_size t \<le> nt_size t3"
      using rs t'(3,4) False t3(5) size_dvd[OF wf] by (auto simp: min_def nv_frame_def split: if_splits)
    with t3 r False step show ?thesis by auto
  qed
qed


lemma clone_spec:
  assumes wf: "nv_wf nm t" and sz: "nt_size t + NV_TABLE_BOUND n \<le> NV_TABLE_MAX_BYTES"
  shows "nv_wf nm (nv_table_clone t n) \<and> nv_val (nv_table_clone t n) = nv_val t"
proof -
  let ?n = "if nv_table_get_bottom t - int (nv_ofs_table_top t) < int n then nt_size t else nt_size t + NV_TABLE_BOUND n"
  have "nt_size t \<le> ?n" "?n \<le> NV_TABLE_MAX_BYTES" "4 dvd ?n"
    using size_dvd[OF wf] sz bound_props(2)[of n] by auto
  from resize_wf[OF wf this, where c = 1 and b = False] show ?thesis
    by (simp only: nv_table_clone_def Let_def)
qed

subsection \<open>Properties\<close>

text \<open>The name of a handle, as the table's invariant wants it.\<close>

definition reg_nm :: "nv_registry \<Rightarrow> nv_handle \<Rightarrow> string" where
  "reg_nm reg h = (case log_msg_get_value_name reg h of Some n \<Rightarrow> n | None \<Rightarrow> [])"

lemma sdata_find_block_returns:
  assumes "\<forall>h \<in> set sdata. log_msg_get_value_name reg h \<noteq> None" "n \<le> length sdata"
  shows "\<exists>r. sdata_find_block reg sdata name plen n = Some r \<and> (\<forall>i. r = Some i \<longrightarrow> i < n)"
  using assms
proof (induction n)
  case (Suc n)
  then have "log_msg_get_value_name reg (sdata ! n) \<noteq> None" by simp
  with Suc show ?case by (auto split: option.splits)
qed simp

lemma set_flag_simps [simp]:
  "lm_payload (log_msg_set_flag m f) = lm_payload m" "lm_sdata (log_msg_set_flag m f) = lm_sdata m"
  "lm_payload (log_msg_unset_flag m f) = lm_payload m" "lm_sdata (log_msg_unset_flag m f) = lm_sdata m"
  "lm_alloc_sdata (log_msg_unset_flag m f) = lm_alloc_sdata m" "lm_alloc_sdata (log_msg_set_flag m f) = lm_alloc_sdata m"
  "lm_initial_parse (log_msg_set_flag m f) = lm_initial_parse m"
  by (simp_all add: log_msg_set_flag_def log_msg_unset_flag_def)

text \<open>The structured data list of a message: all elements have names, and the allocation holds them.\<close>

definition sdata_wf :: "nv_registry \<Rightarrow> log_message \<Rightarrow> bool" where
  "sdata_wf reg m \<longleftrightarrow> length (lm_sdata m) \<le> 255 \<and> length (lm_sdata m) \<le> lm_alloc_sdata m \<and> lm_alloc_sdata m \<le> 255 \<and>
     (\<forall>h \<in> set (lm_sdata m). log_msg_get_value_name reg h \<noteq> None)"

lemma update_sdata_slow_spec:
  assumes wf: "sdata_wf reg m" and name: "log_msg_get_value_name reg h = Some name" "last_dot name \<noteq> None"
  shows "\<exists>m'. log_msg_update_sdata_slow reg m h name = Some m' \<and> sdata_wf reg m' \<and> lm_payload m' = lm_payload m \<and>
    (if length (lm_sdata m) = 255 then m' = m
     else \<exists>xs ys. lm_sdata m = xs @ ys \<and> lm_sdata m' = xs @ h # ys)"
proof (cases "length (lm_sdata m) = 255")
  case True
  with wf show ?thesis by (simp add: log_msg_update_sdata_slow_def)
next
  case False
  obtain plen where plen: "last_dot name = Some plen" using name(2) by blast
  let ?n = "length (lm_sdata m)"
  obtain r where r: "sdata_find_block reg (lm_sdata m) name plen ?n = Some r" "\<forall>i. r = Some i \<longrightarrow> i < ?n"
    using sdata_find_block_returns[of "lm_sdata m" reg ?n name plen] wf by (auto simp: sdata_wf_def)
  define pos where "pos = (if lm_initial_parse m then ?n else case r of Some i \<Rightarrow> i | None \<Rightarrow> ?n)"
  define m' where "m' = (log_msg_set_flag m LF_STATE_OWN_SDATA)\<lparr>lm_alloc_sdata := sdata_new_alloc m,
    lm_sdata := take pos (lm_sdata m) @ h # drop pos (lm_sdata m)\<rparr>"
  have eq: "log_msg_update_sdata_slow reg m h name = Some m'"
    using False plen r(1) by (cases r) (auto simp: log_msg_update_sdata_slow_def Let_def m'_def pos_def)
  have lt: "?n < 255" using False wf by (simp add: sdata_wf_def)
  have al: "Suc ?n \<le> sdata_new_alloc m" "sdata_new_alloc m \<le> 255"
    using lt wf by (auto simp: sdata_new_alloc_def sdata_wf_def Let_def)
  have "set (lm_sdata m') = insert h (set (lm_sdata m))" 
    by (simp add: m'_def) (metis append_take_drop_id set_append)
  moreover have "length (lm_sdata m') = Suc ?n" "lm_alloc_sdata m' = sdata_new_alloc m"
    by (simp_all add: m'_def min_def)
  ultimately have "sdata_wf reg m'" using wf name(1) lt al by (simp add: sdata_wf_def)
  moreover have "lm_payload m' = lm_payload m" "lm_sdata m = take pos (lm_sdata m) @ drop pos (lm_sdata m)"
    "lm_sdata m' = take pos (lm_sdata m) @ h # drop pos (lm_sdata m)" by (simp_all add: m'_def)
  ultimately show ?thesis using eq False by metis
qed


lemma own_payload_spec:
  assumes "nv_wf nm (lm_payload m)" "nt_size (lm_payload m) + NV_TABLE_BOUND n \<le> NV_TABLE_MAX_BYTES \<or> log_msg_chk_flag m LF_STATE_OWN_PAYLOAD"
  shows "nv_wf nm (lm_payload (own_payload m n)) \<and> nv_val (lm_payload (own_payload m n)) = nv_val (lm_payload m) \<and>
    lm_sdata (own_payload m n) = lm_sdata m \<and> lm_alloc_sdata (own_payload m n) = lm_alloc_sdata m \<and>
    nt_size (lm_payload m) \<le> nt_size (lm_payload (own_payload m n))"
  using assms clone_spec[of nm "lm_payload m" n] by (auto simp: own_payload_def nv_table_clone_def Let_def)

lemma set_value_frame:
  assumes "log_msg_set_value reg m h v = Some m'"
  shows "lm_protect_cnt m' = lm_protect_cnt m \<and> lm_initial_parse m' = lm_initial_parse m \<and>
    (bit (lm_flags m) 4 \<longrightarrow> bit (lm_flags m') 4)"
proof -
  have "lm_protect_cnt m' = lm_protect_cnt m" "lm_initial_parse m' = lm_initial_parse m"
    using assms by (auto simp: log_msg_set_value_def own_payload_def log_msg_update_sdata_def log_msg_update_sdata_slow_def
      log_msg_set_flag_def log_msg_unset_flag_def Let_def split: if_splits option.splits)
  moreover have "bit (lm_flags m) 4 \<longrightarrow> bit (lm_flags m') 4"
    using assms by (auto simp: log_msg_set_value_def own_payload_def log_msg_update_sdata_def log_msg_update_sdata_slow_def
      log_msg_set_flag_def log_msg_unset_flag_def Let_def bit_simps LF_LEGACY_MSGHDR_def bit_numeral_rec split: if_splits option.splits)
  ultimately show ?thesis by simp
qed

lemma set_value_spec:
  assumes wf: "nv_wf (reg_nm reg) (lm_payload m)" "sdata_wf reg m" and h: "0 < h" "h < 2 ^ 16"
    and name: "log_msg_get_value_name reg h = Some name"
    and sd: "nv_registry_get_handle_flags reg h = Some fl" "fl AND LM_VF_SDATA \<noteq> 0 \<longrightarrow> last_dot name \<noteq> None"
    and writable: "\<not> log_msg_is_write_protected m"
    and size: "nt_size (lm_payload m) + NV_TABLE_BOUND (length name + length v + 2) \<le> NV_TABLE_MAX_BYTES \<or>
      log_msg_chk_flag m LF_STATE_OWN_PAYLOAD"
  shows "\<exists>m'. log_msg_set_value reg m h v = Some m' \<and> nv_wf (reg_nm reg) (lm_payload m') \<and> sdata_wf reg m' \<and>
    (\<forall>g. g \<noteq> h \<longrightarrow> nv_table_get_value (lm_payload m') g = nv_table_get_value (lm_payload m) g) \<and>
    (nv_table_get_value (lm_payload m') h = Some (take NV_TABLE_MAX_BYTES v) \<or>
     nt_size (lm_payload m') = NV_TABLE_MAX_BYTES \<and>
     nv_table_get_value (lm_payload m') h = nv_table_get_value (lm_payload m) h) \<and>
    nt_size (lm_payload m) \<le> nt_size (lm_payload m') \<and>
    (lm_sdata m' = lm_sdata m \<or> (\<exists>xs ys. lm_sdata m = xs @ ys \<and> lm_sdata m' = xs @ h # ys))"
proof -
  define m1 where "m1 = own_payload m (length name + length v + 2)"
  have m1: "nv_wf (reg_nm reg) (lm_payload m1)" "nv_val (lm_payload m1) = nv_val (lm_payload m)"
    "lm_sdata m1 = lm_sdata m" "lm_alloc_sdata m1 = lm_alloc_sdata m" "nt_size (lm_payload m) \<le> nt_size (lm_payload m1)"
    using own_payload_spec[OF wf(1) size] by (simp_all add: m1_def)
  have nm: "reg_nm reg h = name" using name by (simp add: reg_nm_def)
  obtain ok new t where t: "payload_store 64 (\<lambda>t. nv_table_add_value t h name v True) (lm_payload m1) = Some (ok, new, t)"
    "nv_wf (reg_nm reg) t"
    "nv_val t = (if ok then (nv_val (lm_payload m1))(h := take NV_TABLE_MAX_BYTES v) else nv_val (lm_payload m1))"
    "ok \<or> nt_size t = NV_TABLE_MAX_BYTES" "nt_size (lm_payload m1) \<le> nt_size t"
    using payload_store_returns[OF store_op_add_value[OF h, of "reg_nm reg" v True] m1(1)] nm by auto
  let ?m2 = "m1\<lparr>lm_payload := t\<rparr>"
  have sw: "sdata_wf reg ?m2" using wf(2) m1(3,4) by (simp add: sdata_wf_def)
  obtain m3 where m3: "(if new then log_msg_update_sdata reg ?m2 h name else Some ?m2) = Some m3" "lm_payload m3 = t"
    "sdata_wf reg m3" "lm_sdata m3 = lm_sdata m \<or> (\<exists>xs ys. lm_sdata m = xs @ ys \<and> lm_sdata m3 = xs @ h # ys)"
  proof (cases "new \<and> fl AND LM_VF_SDATA \<noteq> 0")
    case True
    with update_sdata_slow_spec[OF sw name] sd(2) obtain m3 where
      "log_msg_update_sdata_slow reg ?m2 h name = Some m3" "sdata_wf reg m3" "lm_payload m3 = t"
      "if length (lm_sdata ?m2) = 255 then m3 = ?m2 else \<exists>xs ys. lm_sdata ?m2 = xs @ ys \<and> lm_sdata m3 = xs @ h # ys"
      by auto
    with True that[of m3] sd(1) m1(3) show thesis by (auto simp: log_msg_update_sdata_def split: if_splits)
  next
    case False
    with that[of ?m2] sd(1) m1(3) sw show thesis by (auto simp: log_msg_update_sdata_def)
  qed
  define m' where "m' = (if h = LM_V_PROGRAM then log_msg_unset_flag m3 LF_LEGACY_MSGHDR else m3)"
  have eq: "log_msg_set_value reg m h v = Some m'"
    using writable h(1) name t(1) m3(1) unfolding log_msg_set_value_def m'_def
    by (simp add: Let_def m1_def[symmetric] del: One_nat_def add_2_eq_Suc')
  have f: "lm_payload m' = t" "lm_sdata m' = lm_sdata m3" "sdata_wf reg m'"
    using m3 by (simp_all add: m'_def sdata_wf_def)
  note gv = get_value_val[OF t(2)] get_value_val[OF wf(1)]
  show ?thesis
    using eq f t(2,3,4,5) m3(4) gv m1(2,5) by (intro exI[of _ m']) auto
qed


text \<open>C23: Setting a value of a message. On a writable message with a well-formed payload and structured
  data list, \<^verbatim>\<open>log_msg_set_value\<close> for a registered handle always returns, after copying a payload
  that is not its own and growing it as often as needed; every other handle reads what it read
  before, and the handle reads the new value unless the payload has reached its maximal size, when it
  reads the old one. The list of structured data elements keeps its order and gains at most the new
  handle.\<close>

theorem log_msg_set_value_correct:
  assumes wf: "nv_wf (reg_nm reg) (lm_payload m)" "sdata_wf reg m" and h: "0 < h" "h < 2 ^ 16"
    and name: "log_msg_get_value_name reg h = Some name"
    and sd: "nv_registry_get_handle_flags reg h = Some fl" "fl AND LM_VF_SDATA \<noteq> 0 \<longrightarrow> last_dot name \<noteq> None"
    and writable: "\<not> log_msg_is_write_protected m"
    and size: "nt_size (lm_payload m) + NV_TABLE_BOUND (length name + length v + 2) \<le> NV_TABLE_MAX_BYTES \<or>
      log_msg_chk_flag m LF_STATE_OWN_PAYLOAD"
  shows "\<exists>m'. log_msg_set_value reg m h v = Some m' \<and> nv_wf (reg_nm reg) (lm_payload m') \<and> sdata_wf reg m' \<and>
    (\<forall>g. g \<noteq> h \<longrightarrow> nv_table_get_value (lm_payload m') g = nv_table_get_value (lm_payload m) g) \<and>
    (nv_table_get_value (lm_payload m') h = Some (take NV_TABLE_MAX_BYTES v) \<or>
     nt_size (lm_payload m') = NV_TABLE_MAX_BYTES \<and>
     nv_table_get_value (lm_payload m') h = nv_table_get_value (lm_payload m) h) \<and>
    (lm_sdata m' = lm_sdata m \<or> (\<exists>xs ys. lm_sdata m = xs @ ys \<and> lm_sdata m' = xs @ h # ys))"
  using set_value_spec[OF assms] by blast

text \<open>A message for examples: the registry with the built-in names and one stored value.\<close>

definition sample_msg :: log_message where
  "sample_msg = \<lparr>lm_payload = nv_sample, lm_flags = LF_STATE_OWN_MASK, lm_tagset = TagsInline 0, lm_sdata = [],
     lm_alloc_sdata = 0, lm_num_matches = 0, lm_initial_parse = False, lm_protect_cnt = 0\<rparr>"

definition sample_reg :: nv_registry where
  "sample_reg = \<lparr>reg_names = [\<lparr>hd_name = ''M'', hd_flags = 0, hd_name_len = 1\<rparr>, \<lparr>hd_name = ''M'', hd_flags = 0, hd_name_len = 1\<rparr>],
     reg_name_map = [''M'' \<mapsto> 1]\<rparr>"

lemma nv_sample_wf_reg: "nv_wf (reg_nm sample_reg) nv_sample"
proof -
  have "nv_layout nv_sample"
    by (simp add: nv_layout_def nv_sample_def nv_ofs_table_top_def NV_TABLE_MAX_BYTES_def)
  moreover have "dyn_ok nv_sample" by (simp add: dyn_ok_def nv_sample_def)
  ultimately show ?thesis
    by (simp add: nv_wf_def nv_str_wf_def refs_ok_def nv_sample_ofs nv_sample_ent) (simp add: nv_sample_def entry_fits_def)
qed

lemma log_msg_set_value_correct_witness:
  "\<exists>m'. log_msg_set_value sample_reg sample_msg 2 ''x'' = Some m' \<and>
     nv_table_get_value (lm_payload m') 1 = nv_table_get_value nv_sample 1"
proof -
  have wf: "nv_wf (reg_nm sample_reg) (lm_payload sample_msg)" "sdata_wf sample_reg sample_msg"
    using nv_sample_wf_reg by (simp_all add: sample_msg_def sdata_wf_def)
  have h: "0 < (2::nat)" "2 < (2::nat) ^ 16" by simp_all
  have nm: "log_msg_get_value_name sample_reg 2 = Some ''M''" "nv_registry_get_handle_flags sample_reg 2 = Some 0"
    by (simp_all add: log_msg_get_value_name_def nv_registry_get_handle_name_def nv_registry_get_handle_flags_def sample_reg_def)
  have sd: "0 AND LM_VF_SDATA \<noteq> 0 \<longrightarrow> last_dot ''M'' \<noteq> None" by simp
  have wr: "\<not> log_msg_is_write_protected sample_msg" by (simp add: log_msg_is_write_protected_def sample_msg_def)
  have own: "nt_size (lm_payload sample_msg) + NV_TABLE_BOUND (length ''M'' + length ''x'' + 2) \<le> NV_TABLE_MAX_BYTES \<or>
      log_msg_chk_flag sample_msg LF_STATE_OWN_PAYLOAD"
    by (simp add: log_msg_chk_flag_def sample_msg_def LF_STATE_OWN_MASK_def LF_STATE_OWN_PAYLOAD_def)
  from log_msg_set_value_correct[OF wf h nm sd wr own] show ?thesis by (auto simp: sample_msg_def)
qed

subsection \<open>Matches\<close>

lemma set_value_num_matches:
  "log_msg_set_value reg m h v = Some m' \<Longrightarrow> lm_num_matches m' = lm_num_matches m"
  by (auto simp: log_msg_set_value_def own_payload_def log_msg_update_sdata_def log_msg_update_sdata_slow_def
      log_msg_set_flag_def log_msg_unset_flag_def Let_def split: if_splits option.splits)

text \<open>The number of matches is kept in 8 bits, so storing match 255, the last one, sets it to 0, and
  clearing the matches afterwards clears nothing.\<close>

theorem log_msg_set_match_255_wraps:
  assumes "log_msg_set_match reg match_handles m 255 v = Some m'" "lm_num_matches m \<le> 255"
  shows "lm_num_matches m' = 0 \<and> log_msg_clear_matches reg match_handles m' = Some m'"
proof -
  have "lm_num_matches m' = 0"
    using assms set_value_num_matches by (force simp: log_msg_set_match_def)
  then show ?thesis by (simp add: log_msg_clear_matches_def)
qed

lemma log_msg_set_match_255_wraps_witness:
  "\<exists>m'. log_msg_set_match sample_reg (replicate 256 0) (sample_msg\<lparr>lm_num_matches := 3\<rparr>) 255 ''x'' = Some m' \<and>
     lm_num_matches m' = 0"
proof -
  let ?m = "sample_msg\<lparr>lm_num_matches := 3\<rparr>"
  have "log_msg_set_match sample_reg (replicate 256 0) ?m 255 ''x'' = Some (?m\<lparr>lm_num_matches := 0\<rparr>)"
    by (simp add: log_msg_set_match_def log_msg_set_value_def log_msg_is_write_protected_def sample_msg_def)
  with log_msg_set_match_255_wraps[OF this] show ?thesis by simp
qed

text \<open>The inverted test of \<^verbatim>\<open>nv_table_add_value_indirect\<close>.\<close>

lemma foreach_static_id:
  assumes wf: "nv_wf nm t" and nr: "\<forall>g. \<not> refers t g h" and "is": "\<forall>i \<in> set is. i < num_static_entries t"
  shows "nv_foreach_static (nv_table_make_direct add h) (\<lambda>t. t) is t = Some (False, t)"
  using "is"
proof (induction "is")
  case (Cons i "is")
  show ?case
  proof (cases "nt_static t ! i = 0")
    case False
    have o: "nv_ofs t (Suc i) = nt_static t ! i" using Cons.prems by (simp add: nv_ofs_def)
    then obtain e where e: "nv_ent t (Suc i) = Some e"
      using str_wf_ent[of nm t "Suc i"] wf False by (auto simp: nv_wf_def)
    moreover have "nt_heap t (nt_static t ! i) = Some e" using e o by (auto simp: nv_ent_def split: if_splits)
    ultimately show ?thesis
      using Cons False nr by (auto simp: nv_table_make_direct_def refers_def)
  qed (use Cons in simp)
qed simp

lemma foreach_dyn_id:
  assumes wf: "nv_wf nm t" and nr: "\<forall>g. \<not> refers t g h" and "is": "\<forall>i \<in> set is. i < num_dyn_entries t"
  shows "nv_foreach_dyn (nv_table_make_direct add h) (\<lambda>t. t) is t = Some (False, t)"
  using "is"
proof (induction "is")
  case (Cons i "is")
  obtain g ofs where d: "nt_dyn t ! i = (g, ofs)" by fastforce
  show ?case
  proof (cases "ofs = 0")
    case False
    have o: "nv_ofs t g = ofs" using dyn_nth_ofs[of t i g ofs] wf Cons.prems d by (simp add: nv_wf_def nv_str_wf_def)
    then obtain e where e: "nv_ent t g = Some e"
      using str_wf_ent[of nm t g] wf False by (auto simp: nv_wf_def)
    moreover have "nt_heap t ofs = Some e" using e o by (auto simp: nv_ent_def split: if_splits)
    ultimately show ?thesis
      using Cons False nr d by (auto simp: nv_table_make_direct_def refers_def)
  qed (use Cons d in simp)
qed simp

text \<open>\<^verbatim>\<open>nv_table_add_value_indirect\<close> cannot replace a value that is marked as referenced. Even
  when nothing refers to it any more, the iteration over the table runs to its end without anything
  to do, and the function takes that for a failure: the table is unchanged, however much room it has.\<close>

theorem nv_table_add_value_indirect_gives_up:
  assumes wf: "nv_wf nm t" and e: "nv_ent t h = Some e" "\<not> ne_indirect e" "ne_referenced e"
    and re: "nv_ent t ref = Some re" "\<not> ne_indirect re" and nr: "\<forall>g. \<not> refers t g h"
  shows "nv_table_add_value_indirect t h name ref ty rofs rlen want = Some (False, False, t)"
proof -
  have s: "nv_str_wf nm t" and dk: "dyn_ok t" using wf by (simp_all add: nv_wf_def nv_str_wf_def)
  obtain slot where sl: "nv_table_get_entry t h = (nv_ofs t h, slot)" by (rule get_entry_pair[OF dk])
  obtain rslot where rs: "nv_table_get_entry t ref = (nv_ofs t ref, rslot)" by (rule get_entry_pair[OF dk])
  have "nv_table_foreach_entry (nv_table_make_direct add h) (\<lambda>t. t) t = Some (False, t)" for add
    using foreach_static_id[OF wf nr] foreach_dyn_id[OF wf nr] by (simp add: nv_table_foreach_entry_def)
  then show ?thesis
    using sl rs wf_ent_heap[OF s e(1)] wf_ent_heap[OF s re(1)] e re
    by (simp add: nv_table_add_value_indirect_def)
qed


text \<open>Two stored values, the first of them marked as referenced.\<close>

definition nv_sample2 :: nv_table where
  "nv_sample2 = nv_sample\<lparr>nt_used := 40, nt_static := [20, 40], nt_heap :=
     [20 \<mapsto> \<lparr>ne_referenced = True, ne_alloc_len = 20, ne_name = [], ne_body = VDirect ''abc''\<rparr>,
      40 \<mapsto> \<lparr>ne_referenced = False, ne_alloc_len = 20, ne_name = [], ne_body = VDirect ''def''\<rparr>]\<rparr>"

lemma nv_sample2_ofs: "nv_ofs nv_sample2 = (\<lambda>h. if h = 1 then 20 else if h = 2 then 40 else 0)"
  by (auto simp: nv_ofs_def nv_sample2_def nv_sample_def fun_eq_iff nth_Cons')

lemma nv_sample2_ent:
  "nv_ent nv_sample2 = (\<lambda>h. if h = 1 then nt_heap nv_sample2 20 else if h = 2 then nt_heap nv_sample2 40 else None)"
  by (simp add: nv_ent_def nv_sample2_ofs fun_eq_iff)

lemma nv_sample2_direct: "nv_ent nv_sample2 g = Some e \<Longrightarrow> \<not> ne_indirect e"
  by (simp add: nv_sample2_ent split: if_splits) (auto simp: nv_sample2_def split: if_splits)

lemma nv_sample2_wf: "nv_wf nm nv_sample2"
proof -
  have "refs_ok nv_sample2" using nv_sample2_direct by (auto simp: refs_ok_def)
  moreover have "nv_layout nv_sample2"
    by (simp add: nv_layout_def nv_sample2_def nv_sample_def nv_ofs_table_top_def NV_TABLE_MAX_BYTES_def)
  moreover have "dyn_ok nv_sample2" by (simp add: dyn_ok_def nv_sample2_def nv_sample_def)
  ultimately show ?thesis
    by (simp add: nv_wf_def nv_str_wf_def nv_sample2_ofs nv_sample2_ent) (simp add: nv_sample2_def entry_fits_def)
qed

lemma nv_table_add_value_indirect_gives_up_witness:
  "nv_table_add_value_indirect nv_sample2 1 ''M'' 2 0 0 3 True = Some (False, False, nv_sample2)"
proof -
  have e: "nv_ent nv_sample2 1 = Some \<lparr>ne_referenced = True, ne_alloc_len = 20, ne_name = [], ne_body = VDirect ''abc''\<rparr>"
    "nv_ent nv_sample2 2 = Some \<lparr>ne_referenced = False, ne_alloc_len = 20, ne_name = [], ne_body = VDirect ''def''\<rparr>"
    by (simp_all add: nv_sample2_ent) (simp_all add: nv_sample2_def)
  have "\<forall>g. \<not> refers nv_sample2 g 1"
    using nv_sample2_direct by (auto simp: refers_def)
  from nv_table_add_value_indirect_gives_up[OF nv_sample2_wf e(1) _ _ e(2) _ this] show ?thesis by simp
qed

end
