(* ===== verification/Ref_Cache.thy ===== *)
theory Ref_Cache
  imports Prelude
begin

text \<open>
  Reference and acknowledgement counting of log messages (\<^verbatim>\<open>lib/logmsg.c\<close>, from
  \<^verbatim>\<open>log_msg_update_ack_and_ref\<close> to \<^verbatim>\<open>log_msg_refcache_stop\<close>). Both counters share one 32-bit
  word that threads update with a compare-and-exchange loop, one atomic step here. A thread that
  processes a message may cache its changes: it then counts the difference in thread-local variables
  and applies it in one step when it stops; a producer adds a bias to the shared counters first.

  The state has all messages and all threads, a run is any sequence of operations of any threads, so
  the theorems hold for every interleaving. A failed assertion, and any use of a freed message, is
  \<open>None\<close>. \<^verbatim>\<open>log_msg_free\<close> marks the message; the reference that a cloned message holds on its
  original is given up by a further \<^verbatim>\<open>log_msg_unref\<close> step on the original.
\<close>

subsection \<open>The packed counters\<close>

definition LOGMSG_REFCACHE_BIAS :: int where
  "LOGMSG_REFCACHE_BIAS = 0x4000"

definition REF_MASK :: guint32 where
  "REF_MASK = 0x0000FFFF"

definition ACK_MASK :: guint32 where
  "ACK_MASK = 0xFFFF0000"

definition REF_TO_VALUE :: "guint32 \<Rightarrow> guint32" where
  "REF_TO_VALUE x = push_bit 0 x AND REF_MASK"

definition ACK_TO_VALUE :: "guint32 \<Rightarrow> guint32" where
  "ACK_TO_VALUE x = push_bit 16 x AND ACK_MASK"

definition VALUE_TO_REF :: "guint32 \<Rightarrow> guint32" where
  "VALUE_TO_REF x = drop_bit 0 (x AND REF_MASK)"

definition VALUE_TO_ACK :: "guint32 \<Rightarrow> guint32" where
  "VALUE_TO_ACK x = drop_bit 16 (x AND ACK_MASK)"

text \<open>The new value that \<^verbatim>\<open>log_msg_update_ack_and_ref\<close> computes from the old one.\<close>

definition update_ack_and_ref :: "guint32 \<Rightarrow> int \<Rightarrow> int \<Rightarrow> guint32" where
  "update_ack_and_ref old_value add_ref add_ack =
     (let new_value = (old_value AND NOT REF_MASK) + REF_TO_VALUE (VALUE_TO_REF old_value + of_int add_ref)
      in (new_value AND NOT ACK_MASK) + ACK_TO_VALUE (VALUE_TO_ACK old_value + of_int add_ack))"

subsection \<open>State\<close>

record lm_counters =
  ack_and_ref :: guint32
  lm_freed :: bool
  lm_ack_calls :: nat

record rc_thread =
  logmsg_current :: "nat option"
  logmsg_cached_ack_needed :: bool
  logmsg_cached_refs :: int
  logmsg_cached_acks :: int

record rc_state =
  rc_msgs :: "nat \<Rightarrow> lm_counters"
  rc_threads :: "nat \<Rightarrow> rc_thread"

definition set_msg :: "nat \<Rightarrow> lm_counters \<Rightarrow> rc_state \<Rightarrow> rc_state" where
  "set_msg m c s = s\<lparr>rc_msgs := (rc_msgs s)(m := c)\<rparr>"

definition set_thread :: "nat \<Rightarrow> rc_thread \<Rightarrow> rc_state \<Rightarrow> rc_state" where
  "set_thread t th s = s\<lparr>rc_threads := (rc_threads s)(t := th)\<rparr>"

definition add_cached :: "nat \<Rightarrow> int \<Rightarrow> int \<Rightarrow> rc_state \<Rightarrow> rc_state" where
  "add_cached t dr da s =
     (let th = rc_threads s t
      in set_thread t (th\<lparr>logmsg_cached_refs := logmsg_cached_refs th + dr,
                         logmsg_cached_acks := logmsg_cached_acks th + da\<rparr>) s)"

definition add_shared :: "nat \<Rightarrow> int \<Rightarrow> int \<Rightarrow> rc_state \<Rightarrow> rc_state" where
  "add_shared m dr da s =
     (let c = rc_msgs s m
      in set_msg m (c\<lparr>ack_and_ref := update_ack_and_ref (ack_and_ref c) dr da\<rparr>) s)"

definition log_msg_free :: "nat \<Rightarrow> rc_state \<Rightarrow> rc_state" where
  "log_msg_free m s = set_msg m ((rc_msgs s m)\<lparr>lm_freed := True\<rparr>) s"

definition call_ack_func :: "nat \<Rightarrow> rc_state \<Rightarrow> rc_state" where
  "call_ack_func m s = set_msg m ((rc_msgs s m)\<lparr>lm_ack_calls := Suc (lm_ack_calls (rc_msgs s m))\<rparr>) s"

subsection \<open>Operations\<close>

definition log_msg_ref :: "nat \<Rightarrow> nat \<Rightarrow> rc_state \<Rightarrow> rc_state option" where
  "log_msg_ref t m s =
     (if logmsg_current (rc_threads s t) = Some m then Some (add_cached t 1 0 s)
      else if VALUE_TO_REF (ack_and_ref (rc_msgs s m)) \<ge> 1 then Some (add_shared m 1 0 s) else None)"

definition log_msg_unref :: "nat \<Rightarrow> nat \<Rightarrow> rc_state \<Rightarrow> rc_state option" where
  "log_msg_unref t m s =
     (if logmsg_current (rc_threads s t) = Some m then Some (add_cached t (- 1) 0 s)
      else let old = ack_and_ref (rc_msgs s m); s1 = add_shared m (- 1) 0 s
           in if VALUE_TO_REF old \<ge> 1
              then Some (if VALUE_TO_REF old = 1 then log_msg_free m s1 else s1) else None)"

definition log_msg_add_ack :: "nat \<Rightarrow> nat \<Rightarrow> bool \<Rightarrow> rc_state \<Rightarrow> rc_state option" where
  "log_msg_add_ack t m ack_needed s =
     Some (if ack_needed
           then (if logmsg_current (rc_threads s t) = Some m then add_cached t 0 1 s else add_shared m 0 1 s)
           else s)"

definition log_msg_ack :: "nat \<Rightarrow> nat \<Rightarrow> bool \<Rightarrow> rc_state \<Rightarrow> rc_state option" where
  "log_msg_ack t m ack_needed s =
     Some (if ack_needed
           then (if logmsg_current (rc_threads s t) = Some m then add_cached t 0 (- 1) s
                 else let old = ack_and_ref (rc_msgs s m); s1 = add_shared m 0 (- 1) s
                      in if VALUE_TO_ACK old = 1 then call_ack_func m s1 else s1)
           else s)"

definition log_msg_refcache_start_producer :: "nat \<Rightarrow> nat \<Rightarrow> rc_state \<Rightarrow> rc_state option" where
  "log_msg_refcache_start_producer t m s =
     (if logmsg_current (rc_threads s t) \<noteq> None then None
      else let v = ack_and_ref (rc_msgs s m);
               v1 = (v AND NOT REF_MASK) + REF_TO_VALUE (VALUE_TO_REF v + of_int LOGMSG_REFCACHE_BIAS);
               v2 = (v1 AND NOT ACK_MASK) + ACK_TO_VALUE (VALUE_TO_ACK v1 + of_int LOGMSG_REFCACHE_BIAS)
           in Some (set_thread t \<lparr>logmsg_current = Some m, logmsg_cached_ack_needed = True,
                       logmsg_cached_refs = - LOGMSG_REFCACHE_BIAS, logmsg_cached_acks = - LOGMSG_REFCACHE_BIAS\<rparr>
                     (set_msg m ((rc_msgs s m)\<lparr>ack_and_ref := v2\<rparr>) s)))"

definition log_msg_refcache_start_consumer :: "nat \<Rightarrow> nat \<Rightarrow> bool \<Rightarrow> rc_state \<Rightarrow> rc_state option" where
  "log_msg_refcache_start_consumer t m ack_needed s =
     (if logmsg_current (rc_threads s t) \<noteq> None then None
      else Some (set_thread t \<lparr>logmsg_current = Some m, logmsg_cached_ack_needed = ack_needed,
                    logmsg_cached_refs = 0, logmsg_cached_acks = 0\<rparr> s))"

text \<open>\<open>handler\<close> is the net number of references that the acknowledgement callback of the message takes in
  this thread on this message; they go to the thread's cache.\<close>

definition log_msg_refcache_stop :: "int \<Rightarrow> nat \<Rightarrow> rc_state \<Rightarrow> rc_state option" where
  "log_msg_refcache_stop handler t s =
     (let th = rc_threads s t
      in case logmsg_current th of
           None \<Rightarrow> None
         | Some m \<Rightarrow>
             let refs = logmsg_cached_refs th; acks = logmsg_cached_acks th;
                 old = ack_and_ref (rc_msgs s m);
                 acked = (VALUE_TO_ACK old = of_int (- acks) \<and> logmsg_cached_ack_needed th);
                 s1 = add_shared m refs acks s;
                 s2 = (if acked then call_ack_func m s1 else s1);
                 refs2 = (if acked then handler else 0)
             in if \<not> (acks < LOGMSG_REFCACHE_BIAS - 1 \<and> acks \<ge> - LOGMSG_REFCACHE_BIAS \<and>
                      refs < LOGMSG_REFCACHE_BIAS - 1 \<and> refs \<ge> - LOGMSG_REFCACHE_BIAS) then None
                else if VALUE_TO_REF old = of_int (- refs) \<and> refs2 \<noteq> 0 then None
                else let s3 = (if VALUE_TO_REF old = of_int (- refs) then log_msg_free m s2
                               else if refs2 \<noteq> 0
                               then (let s' = add_shared m refs2 0 s2
                                     in if VALUE_TO_REF (ack_and_ref (rc_msgs s2 m)) = of_int (- refs2)
                                        then log_msg_free m s' else s')
                               else s2)
                     in Some (set_thread t (th\<lparr>logmsg_current := None, logmsg_cached_refs := refs2,
                                              logmsg_cached_acks := 0\<rparr>) s3))"

subsection \<open>Runs\<close>

datatype rc_op =
    Ref nat | Unref nat | AddAck nat bool | Ack nat bool
  | StartProducer nat | StartConsumer nat bool | Stop int

fun rc_step :: "nat \<Rightarrow> rc_op \<Rightarrow> rc_state \<Rightarrow> rc_state option" where
  "rc_step t (Ref m) s = log_msg_ref t m s"
| "rc_step t (Unref m) s = log_msg_unref t m s"
| "rc_step t (AddAck m b) s = log_msg_add_ack t m b s"
| "rc_step t (Ack m b) s = log_msg_ack t m b s"
| "rc_step t (StartProducer m) s = log_msg_refcache_start_producer t m s"
| "rc_step t (StartConsumer m b) s = log_msg_refcache_start_consumer t m b s"
| "rc_step t (Stop d) s = log_msg_refcache_stop d t s"

text \<open>The message that a step works on.\<close>

fun rc_target :: "rc_state \<Rightarrow> nat \<Rightarrow> rc_op \<Rightarrow> nat option" where
  "rc_target s t (Ref m) = Some m"
| "rc_target s t (Unref m) = Some m"
| "rc_target s t (AddAck m b) = Some m"
| "rc_target s t (Ack m b) = Some m"
| "rc_target s t (StartProducer m) = Some m"
| "rc_target s t (StartConsumer m b) = Some m"
| "rc_target s t (Stop d) = logmsg_current (rc_threads s t)"

fun rc_run :: "(nat \<times> rc_op) list \<Rightarrow> rc_state \<Rightarrow> rc_state option" where
  "rc_run [] s = Some s"
| "rc_run ((t, ev) # evs) s =
     (case rc_target s t ev of
        None \<Rightarrow> None
      | Some m \<Rightarrow> if lm_freed (rc_msgs s m) then None
                  else (case rc_step t ev s of None \<Rightarrow> None | Some s' \<Rightarrow> rc_run evs s'))"

text \<open>All messages as \<^verbatim>\<open>log_msg_init\<close> leaves them: one reference, no acknowledgement.\<close>

definition rc_init :: rc_state where
  "rc_init = \<lparr>rc_msgs = (\<lambda>m. \<lparr>ack_and_ref = REF_TO_VALUE 1, lm_freed = False, lm_ack_calls = 0\<rparr>),
     rc_threads = (\<lambda>t. \<lparr>logmsg_current = None, logmsg_cached_ack_needed = False,
                        logmsg_cached_refs = 0, logmsg_cached_acks = 0\<rparr>)\<rparr>"


subsection \<open>The two halves are independent\<close>

lemma masks: "REF_MASK = mask 16" "ACK_MASK = NOT (mask 16)"
  by (simp_all add: REF_MASK_def ACK_MASK_def mask_eq_exp_minus_1)

lemma value_to_ref: "VALUE_TO_REF w = take_bit 16 w"
  by (simp add: VALUE_TO_REF_def masks take_bit_eq_mask)

lemma value_to_ack: "VALUE_TO_ACK w = drop_bit 16 w"
  by (rule bit_word_eqI) (auto simp: VALUE_TO_ACK_def masks bit_simps dest: bit_imp_le_length)

lemma add_halves: "(w AND NOT REF_MASK) + REF_TO_VALUE y = (w AND NOT (mask 16)) OR take_bit 16 y"
proof -
  have "(w AND NOT (mask 16)) AND take_bit 16 y = 0"
    by (rule bit_word_eqI) (auto simp: bit_simps)
  then show ?thesis by (simp add: REF_TO_VALUE_def masks take_bit_eq_mask disjunctive_add_eq_or)
qed

lemma add_halves2: "(w AND NOT ACK_MASK) + ACK_TO_VALUE z = take_bit 16 w OR push_bit 16 z"
proof -
  have "push_bit 16 z AND NOT (mask 16) = (push_bit 16 z :: guint32)"
    by (rule bit_word_eqI) (auto simp: bit_simps)
  moreover have "take_bit 16 w AND push_bit 16 z = (0 :: guint32)"
    by (rule bit_word_eqI) (auto simp: bit_simps)
  ultimately show ?thesis by (simp add: ACK_TO_VALUE_def masks disjunctive_add_eq_or flip: take_bit_eq_mask)
qed

lemma update_halves:
  "update_ack_and_ref w dr da = take_bit 16 (take_bit 16 w + of_int dr) OR push_bit 16 (drop_bit 16 w + of_int da)"
proof -
  have "take_bit 16 ((w AND NOT (mask 16)) OR take_bit 16 y) = take_bit 16 y" for y :: guint32
    by (rule bit_word_eqI) (auto simp: bit_simps)
  then show ?thesis by (simp add: update_ack_and_ref_def Let_def add_halves add_halves2 value_to_ref value_to_ack)
qed

lemma uint_take_sum: "uint (take_bit 16 (a + of_int d) :: guint32) = (uint a + d) mod 65536"
proof -
  have "a + of_int d = of_int (uint a + d)" by simp
  then have "uint (a + of_int d) = take_bit 32 (uint a + d)" by (simp only: uint_word_of_int_eq) simp
  then have "uint (take_bit 16 (a + of_int d)) = take_bit 16 (uint a + d)"
    by (simp add: unsigned_take_bit_eq)
  then show ?thesis by (simp add: take_bit_eq_mod)
qed

lemma update_ref: "uint (VALUE_TO_REF (update_ack_and_ref w dr da)) = (uint (VALUE_TO_REF w) + dr) mod 65536"
proof -
  have "VALUE_TO_REF (update_ack_and_ref w dr da) = take_bit 16 (take_bit 16 w + of_int dr)"
    unfolding value_to_ref update_halves by (rule bit_word_eqI) (auto simp: bit_simps)
  then show ?thesis
    by (simp only: value_to_ref uint_take_sum)
qed

lemma update_ack: "uint (VALUE_TO_ACK (update_ack_and_ref w dr da)) = (uint (VALUE_TO_ACK w) + da) mod 65536"
proof -
  have "VALUE_TO_ACK (update_ack_and_ref w dr da) = take_bit 16 (drop_bit 16 w + of_int da)"
    unfolding value_to_ack update_halves by (rule bit_word_eqI) (auto simp: bit_simps)
  then show ?thesis
    by (simp only: value_to_ack uint_take_sum)
qed


subsection \<open>Accounting\<close>

definition ref_cnt :: "nat \<Rightarrow> rc_state \<Rightarrow> int" where
  "ref_cnt m s = uint (VALUE_TO_REF (ack_and_ref (rc_msgs s m)))"

definition ack_cnt :: "nat \<Rightarrow> rc_state \<Rightarrow> int" where
  "ack_cnt m s = uint (VALUE_TO_ACK (ack_and_ref (rc_msgs s m)))"

abbreviation freed :: "nat \<Rightarrow> rc_state \<Rightarrow> bool" where
  "freed m s \<equiv> lm_freed (rc_msgs s m)"

text \<open>What the threads of \<open>T\<close> have cached for a message.\<close>

definition own_refs :: "nat \<Rightarrow> rc_thread \<Rightarrow> int" where
  "own_refs m th = (if logmsg_current th = Some m then logmsg_cached_refs th else 0)"

definition own_acks :: "nat \<Rightarrow> rc_thread \<Rightarrow> int" where
  "own_acks m th = (if logmsg_current th = Some m then logmsg_cached_acks th else 0)"

definition cached_refs :: "nat set \<Rightarrow> nat \<Rightarrow> rc_state \<Rightarrow> int" where
  "cached_refs T m s = (\<Sum>t \<in> T. own_refs m (rc_threads s t))"

definition cached_acks :: "nat set \<Rightarrow> nat \<Rightarrow> rc_state \<Rightarrow> int" where
  "cached_acks T m s = (\<Sum>t \<in> T. own_acks m (rc_threads s t))"

lemma ref_cnt_range: "0 \<le> ref_cnt m s" "ref_cnt m s < 65536"
proof -
  have "uint (take_bit 16 w :: guint32) < 2 ^ 16" for w :: guint32
    by (simp only: unsigned_take_bit_eq take_bit_int_less_exp)
  then show "0 \<le> ref_cnt m s" "ref_cnt m s < 65536" by (simp_all add: ref_cnt_def value_to_ref)
qed

lemma shared_simps [simp]:
  "ref_cnt m (set_thread t th s) = ref_cnt m s" "ack_cnt m (set_thread t th s) = ack_cnt m s"
  "ref_cnt m (add_cached t dr da s) = ref_cnt m s" "ack_cnt m (add_cached t dr da s) = ack_cnt m s"
  "ref_cnt m (add_shared k dr da s) = (if k = m then (ref_cnt m s + dr) mod 65536 else ref_cnt m s)"
  "ack_cnt m (add_shared k dr da s) = (if k = m then (ack_cnt m s + da) mod 65536 else ack_cnt m s)"
  "ref_cnt m (log_msg_free k s) = ref_cnt m s" "ack_cnt m (log_msg_free k s) = ack_cnt m s"
  "ref_cnt m (call_ack_func k s) = ref_cnt m s" "ack_cnt m (call_ack_func k s) = ack_cnt m s"
  by (simp_all add: ref_cnt_def ack_cnt_def set_thread_def set_msg_def add_cached_def add_shared_def
      log_msg_free_def call_ack_func_def Let_def update_ref update_ack)

lemma freed_simps [simp]:
  "freed m (set_thread t th s) = freed m s" "freed m (add_cached t dr da s) = freed m s"
  "freed m (add_shared k dr da s) = freed m s" "freed m (call_ack_func k s) = freed m s"
  "freed m (log_msg_free k s) = (m = k \<or> freed m s)"
  by (simp_all add: set_thread_def set_msg_def add_cached_def add_shared_def log_msg_free_def call_ack_func_def Let_def)

lemma thread_simps [simp]:
  "rc_threads (add_shared k dr da s) = rc_threads s" "rc_threads (log_msg_free k s) = rc_threads s"
  "rc_threads (call_ack_func k s) = rc_threads s" "rc_threads (set_msg k c s) = rc_threads s"
  "rc_threads (set_thread t th s) = (rc_threads s)(t := th)"
  by (simp_all add: set_thread_def set_msg_def add_shared_def log_msg_free_def call_ack_func_def Let_def)

lemma cached_shared [simp]:
  "cached_refs T m (add_shared k dr da s) = cached_refs T m s" "cached_acks T m (add_shared k dr da s) = cached_acks T m s"
  "cached_refs T m (log_msg_free k s) = cached_refs T m s" "cached_acks T m (log_msg_free k s) = cached_acks T m s"
  "cached_refs T m (call_ack_func k s) = cached_refs T m s" "cached_acks T m (call_ack_func k s) = cached_acks T m s"
  "cached_refs T m (set_msg k c s) = cached_refs T m s" "cached_acks T m (set_msg k c s) = cached_acks T m s"
  by (simp_all add: cached_refs_def cached_acks_def)

lemma cached_set_thread:
  assumes "finite T" "t \<in> T"
  shows "cached_refs T m (set_thread t th s) = cached_refs T m s - own_refs m (rc_threads s t) + own_refs m th"
    "cached_acks T m (set_thread t th s) = cached_acks T m s - own_acks m (rc_threads s t) + own_acks m th"
proof -
  have "(\<Sum>u \<in> T - {t}. own_refs m (((rc_threads s)(t := th)) u)) = (\<Sum>u \<in> T - {t}. own_refs m (rc_threads s u))"
    "(\<Sum>u \<in> T - {t}. own_acks m (((rc_threads s)(t := th)) u)) = (\<Sum>u \<in> T - {t}. own_acks m (rc_threads s u))"
    by (rule sum.cong; simp)+
  then show "cached_refs T m (set_thread t th s) = cached_refs T m s - own_refs m (rc_threads s t) + own_refs m th"
    "cached_acks T m (set_thread t th s) = cached_acks T m s - own_acks m (rc_threads s t) + own_acks m th"
    using assms by (simp_all add: cached_refs_def cached_acks_def sum.remove[of T t])
qed

lemma cached_add_cached:
  assumes "finite T" "t \<in> T"
  shows "cached_refs T m (add_cached t dr da s) =
      cached_refs T m s + (if logmsg_current (rc_threads s t) = Some m then dr else 0)"
    "cached_acks T m (add_cached t dr da s) =
      cached_acks T m s + (if logmsg_current (rc_threads s t) = Some m then da else 0)"
  by (simp_all add: add_cached_def Let_def cached_set_thread[OF assms] own_refs_def own_acks_def)

text \<open>The references that a step takes on message \<open>m\<close>, as its caller sees it.\<close>

definition stop_acked :: "rc_state \<Rightarrow> nat \<Rightarrow> nat \<Rightarrow> bool" where
  "stop_acked s t m \<longleftrightarrow> VALUE_TO_ACK (ack_and_ref (rc_msgs s m)) = of_int (- logmsg_cached_acks (rc_threads s t)) \<and>
     logmsg_cached_ack_needed (rc_threads s t)"

fun op_refs :: "nat \<Rightarrow> rc_state \<Rightarrow> nat \<Rightarrow> rc_op \<Rightarrow> int" where
  "op_refs m s t (Ref k) = (if k = m then 1 else 0)"
| "op_refs m s t (Unref k) = (if k = m then - 1 else 0)"
| "op_refs m s t (Stop d) = (if logmsg_current (rc_threads s t) = Some m \<and> stop_acked s t m then d else 0)"
| "op_refs m s t _ = 0"

fun op_acks :: "nat \<Rightarrow> rc_op \<Rightarrow> int" where
  "op_acks m (AddAck k b) = (if k = m \<and> b then 1 else 0)"
| "op_acks m (Ack k b) = (if k = m \<and> b then - 1 else 0)"
| "op_acks m _ = 0"

fun net_refs :: "nat \<Rightarrow> (nat \<times> rc_op) list \<Rightarrow> rc_state \<Rightarrow> int" where
  "net_refs m [] s = 0"
| "net_refs m ((t, ev) # evs) s =
     op_refs m s t ev + (case rc_step t ev s of None \<Rightarrow> 0 | Some s' \<Rightarrow> net_refs m evs s')"

definition net_acks :: "nat \<Rightarrow> (nat \<times> rc_op) list \<Rightarrow> int" where
  "net_acks m evs = sum_list (map (\<lambda>(t, ev). op_acks m ev) evs)"

lemma start_producer_shared:
  assumes "log_msg_refcache_start_producer t m s = Some s'"
  shows "logmsg_current (rc_threads s t) = None \<and>
    s' = set_thread t \<lparr>logmsg_current = Some m, logmsg_cached_ack_needed = True,
           logmsg_cached_refs = - LOGMSG_REFCACHE_BIAS, logmsg_cached_acks = - LOGMSG_REFCACHE_BIAS\<rparr>
           (add_shared m LOGMSG_REFCACHE_BIAS LOGMSG_REFCACHE_BIAS s)"
proof -
  let ?b = "LOGMSG_REFCACHE_BIAS"
  have "drop_bit 16 ((w AND NOT (mask 16)) OR take_bit 16 y) = drop_bit 16 w" for w y :: guint32
    by (rule bit_word_eqI) (auto simp: bit_simps dest: bit_imp_le_length)
  then have "((w AND NOT REF_MASK) + REF_TO_VALUE (VALUE_TO_REF w + of_int ?b) AND NOT ACK_MASK) +
      ACK_TO_VALUE (VALUE_TO_ACK ((w AND NOT REF_MASK) + REF_TO_VALUE (VALUE_TO_REF w + of_int ?b)) + of_int ?b)
    = update_ack_and_ref w ?b ?b" for w
    by (simp add: update_ack_and_ref_def Let_def add_halves value_to_ack)
  with assms show ?thesis
    by (auto simp: log_msg_refcache_start_producer_def add_shared_def Let_def split: if_splits)
qed

lemma stop_spec:
  assumes st: "log_msg_refcache_stop d t s = Some s'"
  obtains m refs d' where "logmsg_current (rc_threads s t) = Some m" "refs = logmsg_cached_refs (rc_threads s t)"
    "d' = (if stop_acked s t m then d else 0)" "- LOGMSG_REFCACHE_BIAS \<le> refs" "refs < LOGMSG_REFCACHE_BIAS"
    "VALUE_TO_REF (ack_and_ref (rc_msgs s m)) = of_int (- refs) \<longrightarrow> d' = 0"
    "\<And>k. ref_cnt k s' = (if k = m then (ref_cnt m s + refs + d') mod 65536 else ref_cnt k s)"
    "\<And>k. freed k s' = (freed k s \<or> k = m \<and> (VALUE_TO_REF (ack_and_ref (rc_msgs s m)) = of_int (- refs) \<or>
       d' \<noteq> 0 \<and> VALUE_TO_REF (update_ack_and_ref (ack_and_ref (rc_msgs s m)) refs (logmsg_cached_acks (rc_threads s t))) = of_int (- d')))"
    "\<And>T k. finite T \<Longrightarrow> t \<in> T \<Longrightarrow> cached_refs T k s' = cached_refs T k s - own_refs k (rc_threads s t)"
    "\<And>k. ack_cnt k s' = (if k = m then (ack_cnt m s + logmsg_cached_acks (rc_threads s t)) mod 65536 else ack_cnt k s)"
    "\<And>T k. finite T \<Longrightarrow> t \<in> T \<Longrightarrow> cached_acks T k s' = cached_acks T k s - own_acks k (rc_threads s t)"
proof -
  define refs where "refs = logmsg_cached_refs (rc_threads s t)"
  define acks where "acks = logmsg_cached_acks (rc_threads s t)"
  obtain m where m: "logmsg_current (rc_threads s t) = Some m"
    using st by (auto simp: log_msg_refcache_stop_def Let_def split: option.splits)
  define d' where "d' = (if stop_acked s t m then d else 0)"
  define s1 where "s1 = (if stop_acked s t m then call_ack_func m (add_shared m refs acks s) else add_shared m refs acks s)"
  define s2 where "s2 = (if VALUE_TO_REF (ack_and_ref (rc_msgs s m)) = of_int (- refs) then log_msg_free m s1
     else if d' \<noteq> 0 then (if VALUE_TO_REF (ack_and_ref (rc_msgs s1 m)) = of_int (- d')
                          then log_msg_free m (add_shared m d' 0 s1) else add_shared m d' 0 s1)
     else s1)"
  have "(if \<not> (acks < LOGMSG_REFCACHE_BIAS - 1 \<and> acks \<ge> - LOGMSG_REFCACHE_BIAS \<and>
         refs < LOGMSG_REFCACHE_BIAS - 1 \<and> refs \<ge> - LOGMSG_REFCACHE_BIAS) then None
     else if VALUE_TO_REF (ack_and_ref (rc_msgs s m)) = of_int (- refs) \<and> d' \<noteq> 0 then None
          else Some (set_thread t ((rc_threads s t)\<lparr>logmsg_current := None, logmsg_cached_refs := d',
                  logmsg_cached_acks := 0\<rparr>) s2)) = Some s'"
    using st unfolding log_msg_refcache_stop_def s2_def s1_def d'_def stop_acked_def refs_def acks_def
    by (simp only: Let_def m option.case)
  then have b: "- LOGMSG_REFCACHE_BIAS \<le> refs" "refs < LOGMSG_REFCACHE_BIAS"
    "VALUE_TO_REF (ack_and_ref (rc_msgs s m)) = of_int (- refs) \<longrightarrow> d' = 0"
    and s': "s' = set_thread t ((rc_threads s t)\<lparr>logmsg_current := None, logmsg_cached_refs := d', logmsg_cached_acks := 0\<rparr>) s2"
    by (auto split: if_splits)
  have w1: "ack_and_ref (rc_msgs s1 m) = update_ack_and_ref (ack_and_ref (rc_msgs s m)) refs acks"
    by (simp add: s1_def add_shared_def call_ack_func_def set_msg_def Let_def)
  show thesis
    by (rule that[OF m refs_def d'_def b])
       (use b(3) in \<open>auto simp: s' s2_def s1_def w1[unfolded s1_def] acks_def[symmetric] mod_simps cached_set_thread own_refs_def own_acks_def
          split: if_splits\<close>)
qed

lemma mod_shift: "((a :: int) mod n + b) mod n = (a + b) mod n"
  by (simp add: mod_simps)

text \<open>One step moves the sum of the shared counter and the cached differences by what the caller did.\<close>

lemma step_refs:
  assumes T: "finite T" "t \<in> T" and st: "rc_step t ev s = Some s'"
  shows "(ref_cnt m s' + cached_refs T m s') mod 65536 = (ref_cnt m s + cached_refs T m s + op_refs m s t ev) mod 65536"
proof (cases ev)
  case (Ref k)
  with st show ?thesis
    by (auto simp: log_msg_ref_def cached_add_cached[OF T] mod_simps algebra_simps split: if_splits)
next
  case (Unref k)
  with st show ?thesis
    by (auto simp: log_msg_unref_def Let_def cached_add_cached[OF T] mod_simps algebra_simps split: if_splits)
next
  case (AddAck k b)
  with st show ?thesis
    by (auto simp: log_msg_add_ack_def cached_add_cached[OF T] mod_simps split: if_splits)
next
  case (Ack k b)
  with st show ?thesis
    by (auto simp: log_msg_ack_def Let_def cached_add_cached[OF T] mod_simps split: if_splits)
next
  case (StartProducer k)
  with start_producer_shared[of t k s s'] st show ?thesis
    by (auto simp: cached_set_thread[OF T] own_refs_def mod_simps)
next
  case (StartConsumer k b)
  with st show ?thesis
    by (auto simp: log_msg_refcache_start_consumer_def cached_set_thread[OF T] own_refs_def split: if_splits)
next
  case (Stop d)
  with st have "log_msg_refcache_stop d t s = Some s'" by simp
  then show ?thesis
  proof (rule stop_spec)
    fix k refs d'
    assume k: "logmsg_current (rc_threads s t) = Some k" "refs = logmsg_cached_refs (rc_threads s t)"
        "d' = (if stop_acked s t k then d else 0)"
      and r: "\<And>j. ref_cnt j s' = (if j = k then (ref_cnt k s + refs + d') mod 65536 else ref_cnt j s)"
      and c: "\<And>T j. finite T \<Longrightarrow> t \<in> T \<Longrightarrow> cached_refs T j s' = cached_refs T j s - own_refs j (rc_threads s t)"
    show ?thesis
    proof (cases "k = m")
      case True
      have e: "ref_cnt m s' = (ref_cnt m s + refs + d') mod 65536" "cached_refs T m s' = cached_refs T m s - refs"
        using True k by (simp_all add: r c[OF T] own_refs_def)
      have "(ref_cnt m s' + cached_refs T m s') mod 65536 = (ref_cnt m s + refs + d' + (cached_refs T m s - refs)) mod 65536"
        by (simp only: e mod_shift)
      with True k Stop show ?thesis by (simp add: algebra_simps)
    next
      case False
      with k Stop show ?thesis by (simp add: r c[OF T] own_refs_def)
    qed
  qed
qed

text \<open>One step for the shared counter itself, when it does not wrap around: the message is freed
  exactly when the counter becomes 0.\<close>

lemma val_eq:
  assumes "- 65536 < r" "r < 65536"
  shows "VALUE_TO_REF (ack_and_ref (rc_msgs s m)) = of_int (- r) \<longleftrightarrow> ref_cnt m s + r = 0"
proof -
  have u: "uint (of_int (- r) :: guint32) = (- r) mod 2 ^ 32" by (simp only: uint_word_of_int) simp
  have "(VALUE_TO_REF (ack_and_ref (rc_msgs s m)) = of_int (- r)) \<longleftrightarrow> ref_cnt m s = (- r) mod 2 ^ 32"
    unfolding ref_cnt_def by (simp only: word_uint_eq_iff u)
  also have "\<dots> \<longleftrightarrow> ref_cnt m s + r = 0"
  proof (cases "r \<le> 0")
    case True
    then have "(- r) mod 2 ^ 32 = - r" using assms by (simp add: mod_pos_pos_trivial)
    then show ?thesis by linarith
  next
    case False
    then have "r mod 2 ^ 32 = r" using assms by (simp add: mod_pos_pos_trivial)
    then have "(- r) mod 2 ^ 32 = 2 ^ 32 - r" using False by (simp add: zmod_zminus1_eq_if)
    then show ?thesis using assms ref_cnt_range[of m s] False by auto
  qed
  finally show ?thesis .
qed


lemma step_acks:
  assumes T: "finite T" "t \<in> T" and st: "rc_step t ev s = Some s'"
  shows "(ack_cnt m s' + cached_acks T m s') mod 65536 = (ack_cnt m s + cached_acks T m s + op_acks m ev) mod 65536"
proof (cases ev)
  case (Stop d)
  with st have "log_msg_refcache_stop d t s = Some s'" by simp
  then show ?thesis
  proof (rule stop_spec)
    fix k
    assume k: "logmsg_current (rc_threads s t) = Some k"
      and r: "\<And>j. ack_cnt j s' = (if j = k then (ack_cnt k s + logmsg_cached_acks (rc_threads s t)) mod 65536 else ack_cnt j s)"
      and c: "\<And>T j. finite T \<Longrightarrow> t \<in> T \<Longrightarrow> cached_acks T j s' = cached_acks T j s - own_acks j (rc_threads s t)"
    show ?thesis
    proof (cases "k = m")
      case True
      let ?a = "logmsg_cached_acks (rc_threads s t)"
      have e: "ack_cnt m s' = (ack_cnt m s + ?a) mod 65536" "cached_acks T m s' = cached_acks T m s - ?a"
        using True k by (simp_all add: r c[OF T] own_acks_def)
      have "(ack_cnt m s' + cached_acks T m s') mod 65536 = (ack_cnt m s + ?a + (cached_acks T m s - ?a)) mod 65536"
        by (simp only: e mod_shift)
      with Stop show ?thesis by (simp add: algebra_simps)
    next
      case False
      with k Stop show ?thesis by (simp add: r c[OF T] own_acks_def)
    qed
  qed
next
  case (StartProducer k)
  with start_producer_shared[of t k s s'] st show ?thesis
    by (auto simp: cached_set_thread[OF T] own_acks_def mod_simps)
next
  case (Ref k)
  with st show ?thesis by (auto simp: log_msg_ref_def cached_add_cached[OF T] mod_simps split: if_splits)
next
  case (Unref k)
  with st show ?thesis by (auto simp: log_msg_unref_def Let_def cached_add_cached[OF T] mod_simps split: if_splits)
next
  case (AddAck k b)
  with st show ?thesis
    by (auto simp: log_msg_add_ack_def cached_add_cached[OF T] mod_simps algebra_simps split: if_splits)
next
  case (Ack k b)
  with st show ?thesis
    by (auto simp: log_msg_ack_def Let_def cached_add_cached[OF T] mod_simps algebra_simps split: if_splits)
next
  case (StartConsumer k b)
  with st show ?thesis
    by (auto simp: log_msg_refcache_start_consumer_def cached_set_thread[OF T] own_acks_def split: if_splits)
qed

text \<open>A step on another message changes nothing of this one.\<close>

lemma step_other:
  assumes T: "finite T" "t \<in> T" and st: "rc_step t ev s = Some s'" and k: "rc_target s t ev = Some k" "k \<noteq> m"
  shows "ref_cnt m s' = ref_cnt m s \<and> freed m s' = freed m s \<and> cached_refs T m s' = cached_refs T m s \<and> op_refs m s t ev = 0"
proof (cases ev)
  case (Stop d)
  with st have "log_msg_refcache_stop d t s = Some s'" by simp
  then show ?thesis by (rule stop_spec) (use T k Stop in \<open>auto simp: own_refs_def\<close>)
next
  case (StartProducer j)
  with start_producer_shared[of t j s s'] st k show ?thesis
    by (auto simp: cached_set_thread[OF T] own_refs_def)
qed (use assms in \<open>auto simp: log_msg_ref_def log_msg_unref_def log_msg_add_ack_def log_msg_ack_def
      log_msg_refcache_start_consumer_def Let_def cached_add_cached[OF T] cached_set_thread[OF T] own_refs_def split: if_splits\<close>)

definition handler_ok :: "rc_op \<Rightarrow> bool" where
  "handler_ok ev = (case ev of Stop d \<Rightarrow> - LOGMSG_REFCACHE_BIAS \<le> d \<and> d \<le> 0 | _ \<Rightarrow> True)"

lemma step_exact:
  assumes T: "finite T" "t \<in> T" and st: "rc_step t ev s = Some s'" and live: "\<not> freed m s" "0 < ref_cnt m s"
    and hd: "handler_ok ev" and E: "E = ref_cnt m s + cached_refs T m s + op_refs m s t ev - cached_refs T m s'"
    and range: "0 \<le> E" "E < 0xC000"
  shows "ref_cnt m s' = E \<and> (freed m s' \<longleftrightarrow> E = 0)"
proof -
  have "ref_cnt m s' mod 65536 = E mod 65536"
  proof -
    have "(ref_cnt m s' + cached_refs T m s' - cached_refs T m s') mod 65536 = (E + cached_refs T m s' - cached_refs T m s') mod 65536"
      using step_refs[OF T st, of m] E by (metis diff_add_cancel mod_diff_left_eq)
    then show ?thesis by simp
  qed
  then have ref: "ref_cnt m s' = E"
    using ref_cnt_range[of m s'] range by (simp add: mod_pos_pos_trivial)
  have one: "VALUE_TO_REF (ack_and_ref (rc_msgs s m)) = 1 \<longleftrightarrow> ref_cnt m s = 1"
    using val_eq[of "- 1" s m] by simp
  have "freed m s' \<longleftrightarrow> E = 0"
  proof (cases ev)
    case (Stop d)
    with st have "log_msg_refcache_stop d t s = Some s'" by simp
    then show ?thesis
    proof (rule stop_spec)
      fix k refs d'
      assume k: "logmsg_current (rc_threads s t) = Some k" "refs = logmsg_cached_refs (rc_threads s t)"
          "d' = (if stop_acked s t k then d else 0)" "- LOGMSG_REFCACHE_BIAS \<le> refs" "refs < LOGMSG_REFCACHE_BIAS"
        and z: "VALUE_TO_REF (ack_and_ref (rc_msgs s k)) = of_int (- refs) \<longrightarrow> d' = 0"
        and f: "\<And>j. freed j s' = (freed j s \<or> j = k \<and> (VALUE_TO_REF (ack_and_ref (rc_msgs s k)) = of_int (- refs) \<or>
           d' \<noteq> 0 \<and> VALUE_TO_REF (update_ack_and_ref (ack_and_ref (rc_msgs s k)) refs
             (logmsg_cached_acks (rc_threads s t))) = of_int (- d')))"
        and c: "\<And>T j. finite T \<Longrightarrow> t \<in> T \<Longrightarrow> cached_refs T j s' = cached_refs T j s - own_refs j (rc_threads s t)"
      have d': "- 16384 \<le> d'" "d' \<le> 0" using hd k(3) Stop by (auto simp: handler_ok_def LOGMSG_REFCACHE_BIAS_def)
      show ?thesis
      proof (cases "k = m")
        case True
        have Eq: "E = ref_cnt m s + refs + d'" using True k E Stop by (simp add: c[OF T] own_refs_def)
        have r: "- 65536 < refs" "refs < 65536" using k(4,5) by (simp_all add: LOGMSG_REFCACHE_BIAS_def)
        let ?s1 = "add_shared m refs (logmsg_cached_acks (rc_threads s t)) s"
        have w: "update_ack_and_ref (ack_and_ref (rc_msgs s k)) refs (logmsg_cached_acks (rc_threads s t)) = ack_and_ref (rc_msgs ?s1 m)"
          using True by (simp add: add_shared_def set_msg_def Let_def)
        have "ref_cnt m ?s1 = ref_cnt m s + refs" using Eq range d' by (simp add: mod_pos_pos_trivial)
        moreover have "- 65536 < d'" "d' < 65536" using d' by simp_all
        ultimately have "freed m s' \<longleftrightarrow> ref_cnt m s + refs = 0 \<or> d' \<noteq> 0 \<and> ref_cnt m s + refs + d' = 0"
          unfolding f w using val_eq[OF r, of s m] val_eq[of d' ?s1 m] True live by simp
        moreover have "ref_cnt m s + refs = 0 \<longrightarrow> d' = 0" using z val_eq[OF r, of s m] True by simp
        ultimately show ?thesis unfolding Eq by auto
      next
        case False
        with k E Stop live show ?thesis by (simp add: f c[OF T] own_refs_def)
      qed
    qed
  next
    case (StartProducer j)
    with start_producer_shared[of t j s s'] st E live show ?thesis
      by (auto simp: cached_set_thread[OF T] own_refs_def LOGMSG_REFCACHE_BIAS_def)
  next
    case (Ref j)
    then show ?thesis using st live unfolding E by (auto simp: log_msg_ref_def cached_add_cached[OF T] split: if_splits)
  next
    case (Unref j)
    then show ?thesis using st live one unfolding E by (auto simp: log_msg_unref_def Let_def cached_add_cached[OF T] split: if_splits)
  next
    case (AddAck j b)
    then show ?thesis using st live unfolding E by (auto simp: log_msg_add_ack_def cached_add_cached[OF T] split: if_splits)
  next
    case (Ack j b)
    then show ?thesis using st live unfolding E by (auto simp: log_msg_ack_def Let_def cached_add_cached[OF T] split: if_splits)
  next
    case (StartConsumer j b)
    then show ?thesis using st live unfolding E
      by (auto simp: log_msg_refcache_start_consumer_def cached_set_thread[OF T] own_refs_def split: if_splits)
  qed
  with ref show ?thesis by simp
qed


subsection \<open>Properties\<close>

text \<open>The exact value of the shared counter stays within its half of the word along a run that starts
  with \<open>R\<close> references, and the acknowledgement handlers only give references up.\<close>

fun rc_bounded :: "nat \<Rightarrow> nat set \<Rightarrow> (nat \<times> rc_op) list \<Rightarrow> rc_state \<Rightarrow> int \<Rightarrow> bool" where
  "rc_bounded m T [] s R = True"
| "rc_bounded m T ((t, ev) # evs) s R =
     (case rc_step t ev s of
        None \<Rightarrow> True
      | Some s' \<Rightarrow> let R' = R + op_refs m s t ev
                   in handler_ok ev \<and> 0 \<le> R' - cached_refs T m s' \<and> R' - cached_refs T m s' < 0xC000 \<and>
                      rc_bounded m T evs s' R')"

lemma run_exact:
  assumes "rc_run evs s = Some s'" "finite T" "fst ` set evs \<subseteq> T" "rc_bounded m T evs s R"
    and "ref_cnt m s = R - cached_refs T m s" "freed m s \<longleftrightarrow> ref_cnt m s = 0"
  shows "ref_cnt m s' = R + net_refs m evs s - cached_refs T m s' \<and> (freed m s' \<longleftrightarrow> ref_cnt m s' = 0)"
  using assms
proof (induction evs arbitrary: s R)
  case (Cons e evs)
  obtain t ev where e: "e = (t, ev)" by fastforce
  with Cons.prems(1) obtain k s1 where k: "rc_target s t ev = Some k" "\<not> freed k s" and s1: "rc_step t ev s = Some s1"
    and run: "rc_run evs s1 = Some s'"
    by (auto split: option.splits if_splits)
  have t: "t \<in> T" using Cons.prems(3) e by simp
  let ?R = "R + op_refs m s t ev"
  have b: "handler_ok ev" "0 \<le> ?R - cached_refs T m s1" "?R - cached_refs T m s1 < 0xC000" "rc_bounded m T evs s1 ?R"
    using Cons.prems(4) e s1 by (simp_all add: Let_def)
  have "ref_cnt m s1 = ?R - cached_refs T m s1 \<and> (freed m s1 \<longleftrightarrow> ref_cnt m s1 = 0)"
  proof (cases "k = m")
    case True
    then have live: "\<not> freed m s" "0 < ref_cnt m s"
      using k(2) Cons.prems(6) ref_cnt_range(1)[of m s] by auto
    have "?R - cached_refs T m s1 = ref_cnt m s + cached_refs T m s + op_refs m s t ev - cached_refs T m s1"
      using Cons.prems(5) by simp
    from step_exact[OF Cons.prems(2) t s1 live b(1) this b(2,3)] show ?thesis by simp
  next
    case False
    from step_other[OF Cons.prems(2) t s1 k(1) False] Cons.prems(5,6) show ?thesis by simp
  qed
  with Cons.IH[OF run Cons.prems(2) _ b(4)] Cons.prems(3) e s1 show ?case by (simp add: add.assoc)
qed simp

lemma rc_init_counts: "ref_cnt m rc_init = 1" "ack_cnt m rc_init = 0" "\<not> freed m rc_init"
    "cached_refs T m rc_init = 0" "cached_acks T m rc_init = 0"
proof -
  show "ref_cnt m rc_init = 1" "ack_cnt m rc_init = 0"
    by (simp_all add: ref_cnt_def ack_cnt_def rc_init_def REF_TO_VALUE_def REF_MASK_def VALUE_TO_REF_def VALUE_TO_ACK_def ACK_MASK_def)
qed (simp_all add: cached_refs_def cached_acks_def own_refs_def own_acks_def rc_init_def)




text \<open>The packed word holds two independent counters. Whatever is added to them, the reference half
  changes by the reference change and the acknowledgement half by the acknowledgement change, modulo
  65536 each: an overflow or a negative result of one half never reaches the other.\<close>

theorem update_ack_and_ref_independent:
  "uint (VALUE_TO_REF (update_ack_and_ref w dr da)) = (uint (VALUE_TO_REF w) + dr) mod 65536 \<and>
   uint (VALUE_TO_ACK (update_ack_and_ref w dr da)) = (uint (VALUE_TO_ACK w) + da) mod 65536"
  using update_ref update_ack by blast

lemma run_accounted:
  assumes "rc_run evs s = Some s'" "finite T" "fst ` set evs \<subseteq> T"
  shows "(ref_cnt m s' + cached_refs T m s') mod 65536 = (ref_cnt m s + cached_refs T m s + net_refs m evs s) mod 65536"
    "(ack_cnt m s' + cached_acks T m s') mod 65536 = (ack_cnt m s + cached_acks T m s + net_acks m evs) mod 65536"
proof -
  show "(ref_cnt m s' + cached_refs T m s') mod 65536 = (ref_cnt m s + cached_refs T m s + net_refs m evs s) mod 65536"
    using assms
  proof (induction evs arbitrary: s)
    case (Cons e evs)
    obtain t ev where e: "e = (t, ev)" by fastforce
    with Cons.prems(1) obtain s1 where s1: "rc_step t ev s = Some s1" and run: "rc_run evs s1 = Some s'"
      by (auto split: option.splits if_splits)
    have t: "t \<in> T" using Cons.prems(3) e by simp
    have "(ref_cnt m s' + cached_refs T m s') mod 65536 = (ref_cnt m s1 + cached_refs T m s1 + net_refs m evs s1) mod 65536"
      using Cons.IH[OF run] Cons.prems by simp
    also have "\<dots> = ((ref_cnt m s1 + cached_refs T m s1) mod 65536 + net_refs m evs s1) mod 65536" by (simp add: mod_shift)
    also have "\<dots> = (ref_cnt m s + cached_refs T m s + op_refs m s t ev + net_refs m evs s1) mod 65536"
      by (simp only: step_refs[OF Cons.prems(2) t s1] mod_shift)
    finally show ?case using e s1 by (simp add: add.assoc)
  qed simp
  show "(ack_cnt m s' + cached_acks T m s') mod 65536 = (ack_cnt m s + cached_acks T m s + net_acks m evs) mod 65536"
    using assms
  proof (induction evs arbitrary: s)
    case (Cons e evs)
    obtain t ev where e: "e = (t, ev)" by fastforce
    with Cons.prems(1) obtain s1 where s1: "rc_step t ev s = Some s1" and run: "rc_run evs s1 = Some s'"
      by (auto split: option.splits if_splits)
    have t: "t \<in> T" using Cons.prems(3) e by simp
    have "(ack_cnt m s' + cached_acks T m s') mod 65536 = (ack_cnt m s1 + cached_acks T m s1 + net_acks m evs) mod 65536"
      using Cons.IH[OF run] Cons.prems by simp
    also have "\<dots> = ((ack_cnt m s1 + cached_acks T m s1) mod 65536 + net_acks m evs) mod 65536" by (simp add: mod_shift)
    also have "\<dots> = (ack_cnt m s + cached_acks T m s + op_acks m ev + net_acks m evs) mod 65536"
      by (simp only: step_acks[OF Cons.prems(2) t s1] mod_shift)
    finally show ?case using e by (simp add: net_acks_def add.assoc)
  qed (simp add: net_acks_def)
qed



end
