(* ===== verification/Log_Queue.thy ===== *)
theory Log_Queue
  imports Prelude "HOL-Library.Multiset"
begin

text \<open>
  The message queue in front of a destination: the common part of \<^verbatim>\<open>lib/logqueue.c\<close> (waking up the
  consumer, throttling) and the in-memory implementation \<^verbatim>\<open>lib/logqueue-fifo.c\<close>, where messages go
  from unlocked per-thread input lists to a locked wait list, from there to the output list and, until
  they are acknowledged, to the backlog.

  A node is the message and its acknowledgement request. The lists are kept together with the
  length counters of the source, which are separate variables there. What happens to a message that
  leaves the queue (drop, acknowledge) is logged in ghost lists, since reference counting is another
  component. Every operation is one atomic step: the source serialises them with the lock or confines
  them to one thread.
\<close>

subsection \<open>State\<close>

record q_node =
  qn_msg :: nat
  qn_ack_needed :: bool

record q_input =
  qi_items :: "q_node list"
  qi_len :: nat
  qi_finish_cb_registered :: bool

record log_queue =
  q_throttle :: int
  q_throttle_buckets :: int
  q_last_check_sec :: int
  q_last_check_usec :: int
  q_notify_func :: "nat option"
  q_notify_data :: "nat option"
  q_notify_destroy :: bool
  q_notify_limit :: int
  qoverflow_output :: "q_node list"
  qoverflow_wait :: "q_node list"
  qoverflow_wait_len :: int
  qoverflow_output_len :: int
  qoverflow_size :: int
  qbacklog :: "q_node list"
  qbacklog_len :: int
  qoverflow_input :: "q_input list"
  stored_messages :: int
  dropped_messages :: int
  g_dropped :: "q_node list"
  g_acked :: "q_node list"
  g_called :: "(nat \<times> nat option) list"
  g_destroyed :: "nat list"

definition log_queue_fifo_new :: "nat \<Rightarrow> int \<Rightarrow> log_queue" where
  "log_queue_fifo_new max_threads fifo_size =
     \<lparr>q_throttle = 0, q_throttle_buckets = 0, q_last_check_sec = 0, q_last_check_usec = 0,
      q_notify_func = None, q_notify_data = None, q_notify_destroy = False, q_notify_limit = 0,
      qoverflow_output = [], qoverflow_wait = [], qoverflow_wait_len = 0, qoverflow_output_len = 0,
      qoverflow_size = fifo_size, qbacklog = [], qbacklog_len = 0,
      qoverflow_input = replicate max_threads \<lparr>qi_items = [], qi_len = 0, qi_finish_cb_registered = False\<rparr>,
      stored_messages = 0, dropped_messages = 0, g_dropped = [], g_acked = [], g_called = [], g_destroyed = []\<rparr>"

definition log_queue_fifo_get_length :: "log_queue \<Rightarrow> int" where
  "log_queue_fifo_get_length self = qoverflow_wait_len self + qoverflow_output_len self"

definition log_queue_fifo_keep_on_reload :: "log_queue \<Rightarrow> bool" where
  "log_queue_fifo_keep_on_reload self \<longleftrightarrow> log_queue_fifo_get_length self > 0"

subsection \<open>Waking up the consumer\<close>

definition destroy_data :: "nat option \<Rightarrow> bool \<Rightarrow> log_queue \<Rightarrow> log_queue" where
  "destroy_data data destroy self =
     (case data of Some d \<Rightarrow> if destroy then self\<lparr>g_destroyed := g_destroyed self @ [d]\<rparr> else self | None \<Rightarrow> self)"

definition log_queue_push_notify :: "log_queue \<Rightarrow> log_queue" where
  "log_queue_push_notify self =
     (case q_notify_func self of
        None \<Rightarrow> self
      | Some func \<Rightarrow>
          if log_queue_fifo_get_length self \<ge> q_notify_limit self
          then destroy_data (q_notify_data self) (q_notify_destroy self)
                 (self\<lparr>q_notify_data := None, q_notify_destroy := False, q_notify_func := None,
                       g_called := g_called self @ [(func, q_notify_data self)]\<rparr>)
          else self)"

definition log_queue_reset_parallel_push :: "log_queue \<Rightarrow> log_queue" where
  "log_queue_reset_parallel_push self = self\<lparr>q_notify_func := None, q_notify_data := None, q_notify_limit := 0\<rparr>"

definition log_queue_set_parallel_push :: "log_queue \<Rightarrow> int \<Rightarrow> nat \<Rightarrow> nat option \<Rightarrow> bool \<Rightarrow> log_queue" where
  "log_queue_set_parallel_push self limit func data destroy =
     self\<lparr>q_notify_func := Some func, q_notify_data := data, q_notify_limit := limit, q_notify_destroy := destroy\<rparr>"

text \<open>Throttling in \<^verbatim>\<open>log_queue_check_items\<close>: new buckets for the time since the last check (a C
  division, towards zero). Gives the new state and whether sending is allowed.\<close>

definition tdiv :: "int \<Rightarrow> int \<Rightarrow> int" where
  "tdiv a b = sgn a * sgn b * (\<bar>a\<bar> div \<bar>b\<bar>)"

definition check_throttle :: "log_queue \<Rightarrow> int \<Rightarrow> int \<Rightarrow> int \<Rightarrow> log_queue \<times> bool" where
  "check_throttle self num_elements sec usec =
     (if q_throttle self > 0 then
        (let first = q_last_check_sec self = 0;
             diff = (if first then 0 else (sec - q_last_check_sec self) * 1000000 + (usec - q_last_check_usec self));
             s1 = (if first then self\<lparr>q_last_check_sec := sec, q_last_check_usec := usec\<rparr> else self);
             new_buckets = tdiv (q_throttle self * diff) 1000000;
             s2 = (if new_buckets \<noteq> 0
                   then s1\<lparr>q_throttle_buckets := min (q_throttle self) (q_throttle_buckets self + new_buckets),
                           q_last_check_sec := sec, q_last_check_usec := usec\<rparr> else s1)
         in (s2, \<not> (num_elements \<noteq> 0 \<and> q_throttle_buckets s2 = 0)))
      else (self, True))"

text \<open>Results: whether the consumer may go on, the value written to \<^verbatim>\<open>*partial_batch\<close> (if any), the timeout
  written (if any), and the state.\<close>

definition log_queue_check_items ::
    "log_queue \<Rightarrow> int \<Rightarrow> int \<times> int \<Rightarrow> nat \<Rightarrow> nat option \<Rightarrow> bool \<Rightarrow> bool \<times> bool option \<times> int option \<times> log_queue" where
  "log_queue_check_items self batch_items now func data destroy =
     (let s1 = destroy_data (q_notify_data self) (q_notify_destroy self) self;
          num_elements = log_queue_fifo_get_length self
      in if num_elements = 0 \<or> num_elements < batch_items then
           (let s2 = s1\<lparr>q_notify_func := Some func, q_notify_data := data, q_notify_destroy := destroy,
                        q_notify_limit := if num_elements = 0 then 1 else batch_items\<rparr>
            in (False, Some (num_elements \<noteq> 0), None, s2))
         else
           (let s2 = (destroy_data data destroy s1)\<lparr>q_notify_func := None, q_notify_data := None\<rparr>;
                (s3, go) = check_throttle s2 num_elements (fst now) (snd now)
            in (go, None, if go then None else Some (1000 div q_throttle self + 1), s3)))"

definition log_queue_set_throttle :: "log_queue \<Rightarrow> int \<Rightarrow> log_queue" where
  "log_queue_set_throttle self throttle = self\<lparr>q_throttle := throttle, q_throttle_buckets := throttle\<rparr>"

definition log_queue_set_counters :: "log_queue \<Rightarrow> int \<Rightarrow> log_queue" where
  "log_queue_set_counters self dropped =
     self\<lparr>stored_messages := log_queue_fifo_get_length self, dropped_messages := dropped\<rparr>"

subsection \<open>Input\<close>

text \<open>The input list's length is a \<^verbatim>\<open>guint16\<close>.\<close>

definition log_queue_fifo_move_input_unlocked :: "log_queue \<Rightarrow> nat \<Rightarrow> log_queue" where
  "log_queue_fifo_move_input_unlocked self tid =
     (let inp = qoverflow_input self ! tid;
          queue_len = log_queue_fifo_get_length self;
          n = (if queue_len + int (qi_len inp) > qoverflow_size self
               then nat (int (qi_len inp) - max 0 (qoverflow_size self - queue_len)) else 0);
          len = qi_len inp - n
      in self\<lparr>dropped_messages := dropped_messages self + int n,
              g_dropped := g_dropped self @ take n (qi_items inp),
              stored_messages := stored_messages self + int len,
              qoverflow_wait := qoverflow_wait self @ drop n (qi_items inp),
              qoverflow_wait_len := qoverflow_wait_len self + int len,
              qoverflow_input := (qoverflow_input self)[tid := inp\<lparr>qi_items := [], qi_len := 0\<rparr>]\<rparr>)"

definition log_queue_fifo_move_input :: "log_queue \<Rightarrow> nat \<Rightarrow> log_queue" where
  "log_queue_fifo_move_input self tid =
     (let s = log_queue_push_notify (log_queue_fifo_move_input_unlocked self tid)
      in s\<lparr>qoverflow_input := (qoverflow_input s)[tid := (qoverflow_input s ! tid)\<lparr>qi_finish_cb_registered := False\<rparr>]\<rparr>)"

text \<open>\<open>tid\<close> is \<open>None\<close> outside the worker threads. A result \<open>None\<close> is a failed assertion.\<close>

definition log_queue_fifo_push_tail :: "log_queue \<Rightarrow> nat option \<Rightarrow> q_node \<Rightarrow> log_queue option" where
  "log_queue_fifo_push_tail self thread_id node =
     (case thread_id of
        Some tid \<Rightarrow>
          if tid < length (qoverflow_input self) then
            (let inp = qoverflow_input self ! tid
             in Some (self\<lparr>qoverflow_input := (qoverflow_input self)[tid :=
                   \<lparr>qi_items = qi_items inp @ [node], qi_len = (qi_len inp + 1) mod 2 ^ 16, qi_finish_cb_registered = True\<rparr>]\<rparr>))
          else None
      | None \<Rightarrow>
          if log_queue_fifo_get_length self < qoverflow_size self then
            (let s = log_queue_push_notify (self\<lparr>qoverflow_wait := qoverflow_wait self @ [node],
                                                 qoverflow_wait_len := qoverflow_wait_len self + 1\<rparr>)
             in Some (s\<lparr>stored_messages := stored_messages s + 1\<rparr>))
          else Some (self\<lparr>dropped_messages := dropped_messages self + 1, g_dropped := g_dropped self @ [node]\<rparr>))"

subsection \<open>Output\<close>

definition log_queue_fifo_push_head :: "log_queue \<Rightarrow> q_node \<Rightarrow> log_queue option" where
  "log_queue_fifo_push_head self node =
     (if q_notify_func self \<noteq> None then None
      else Some (self\<lparr>qoverflow_output := node # qoverflow_output self,
                      qoverflow_output_len := qoverflow_output_len self + 1,
                      stored_messages := stored_messages self + 1\<rparr>))"

definition fill_output :: "log_queue \<Rightarrow> log_queue" where
  "fill_output self =
     (if qoverflow_output_len self = 0
      then self\<lparr>qoverflow_output := qoverflow_output self @ qoverflow_wait self, qoverflow_wait := [],
                qoverflow_output_len := qoverflow_wait_len self, qoverflow_wait_len := 0\<rparr>
      else self)"

text \<open>The second component is the node handed out, if any. Reading the head of an empty list (the
  counter says there are elements) is \<open>None\<close>.\<close>

definition log_queue_fifo_pop_head :: "log_queue \<Rightarrow> bool \<Rightarrow> bool \<Rightarrow> (log_queue \<times> q_node option) option" where
  "log_queue_fifo_pop_head self push_to_backlog ignore_throttle =
     (if q_notify_func self \<noteq> None then None
      else if \<not> ignore_throttle \<and> q_throttle self \<noteq> 0 \<and> q_throttle_buckets self = 0 then Some (self, None)
      else let s = fill_output self
           in if qoverflow_output_len s > 0 then
                (case qoverflow_output s of
                   [] \<Rightarrow> None
                 | node # rest \<Rightarrow>
                     let s1 = s\<lparr>qoverflow_output := rest, qoverflow_output_len := qoverflow_output_len s - 1,
                                stored_messages := stored_messages s - 1\<rparr>;
                         s2 = (if push_to_backlog
                               then s1\<lparr>qbacklog := qbacklog s1 @ [node], qbacklog_len := qbacklog_len s1 + 1\<rparr> else s1);
                         s3 = (if \<not> ignore_throttle \<and> q_throttle_buckets s2 > 0
                               then s2\<lparr>q_throttle_buckets := q_throttle_buckets s2 - 1\<rparr> else s2)
                     in Some (s3, Some node))
              else Some (s, None))"

fun ack_loop :: "nat \<Rightarrow> log_queue \<Rightarrow> log_queue option" where
  "ack_loop 0 self = Some self"
| "ack_loop (Suc n) self =
     (if qbacklog_len self > 0 then
        (case qbacklog self of
           [] \<Rightarrow> None
         | node # rest \<Rightarrow> ack_loop n (self\<lparr>qbacklog := rest, qbacklog_len := qbacklog_len self - 1,
                                          g_acked := g_acked self @ [node]\<rparr>))
      else Some self)"

definition log_queue_fifo_ack_backlog :: "log_queue \<Rightarrow> int \<Rightarrow> log_queue option" where
  "log_queue_fifo_ack_backlog self n =
     (if q_notify_func self \<noteq> None then None else ack_loop (nat n) self)"

definition log_queue_fifo_rewind_backlog :: "log_queue \<Rightarrow> log_queue option" where
  "log_queue_fifo_rewind_backlog self =
     (if q_notify_func self \<noteq> None then None
      else Some (self\<lparr>qoverflow_output := qoverflow_output self @ qbacklog self, qbacklog := [],
                      qoverflow_output_len := qoverflow_output_len self + qbacklog_len self,
                      stored_messages := stored_messages self + qbacklog_len self, qbacklog_len := 0\<rparr>))"

text \<open>Freeing the queue acknowledges whatever it holds.\<close>

definition log_queue_fifo_free :: "log_queue \<Rightarrow> q_node list" where
  "log_queue_fifo_free self =
     concat (map qi_items (qoverflow_input self)) @ qoverflow_wait self @ qoverflow_output self @ qbacklog self"


subsection \<open>Invariant\<close>

definition input_ok :: "q_input \<Rightarrow> bool" where
  "input_ok inp \<longleftrightarrow> qi_len inp = length (qi_items inp)"

definition q_wf :: "log_queue \<Rightarrow> bool" where
  "q_wf s \<longleftrightarrow> qoverflow_wait_len s = int (length (qoverflow_wait s)) \<and>
     qoverflow_output_len s = int (length (qoverflow_output s)) \<and> qbacklog_len s = int (length (qbacklog s)) \<and>
     stored_messages s = qoverflow_wait_len s + qoverflow_output_len s \<and>
     dropped_messages s = int (length (g_dropped s)) \<and> (\<forall>inp \<in> set (qoverflow_input s). input_ok inp)"

text \<open>The messages in the order in which the consumer gets them.\<close>

definition q_content :: "log_queue \<Rightarrow> q_node list" where
  "q_content s = qoverflow_output s @ qoverflow_wait s"

lemma length_content: "q_wf s \<Longrightarrow> log_queue_fifo_get_length s = int (length (q_content s))"
  by (simp add: q_wf_def q_content_def log_queue_fifo_get_length_def)

lemma q_wf_new: "q_wf (log_queue_fifo_new n m)"
  by (auto simp: q_wf_def log_queue_fifo_new_def input_ok_def)

text \<open>What waking up the consumer leaves alone.\<close>

lemma destroy_data_simps [simp]:
  "qoverflow_output (destroy_data d b s) = qoverflow_output s" "qoverflow_wait (destroy_data d b s) = qoverflow_wait s"
  "qoverflow_output_len (destroy_data d b s) = qoverflow_output_len s" "qoverflow_wait_len (destroy_data d b s) = qoverflow_wait_len s"
  "qbacklog (destroy_data d b s) = qbacklog s" "qbacklog_len (destroy_data d b s) = qbacklog_len s"
  "stored_messages (destroy_data d b s) = stored_messages s" "dropped_messages (destroy_data d b s) = dropped_messages s"
  "g_dropped (destroy_data d b s) = g_dropped s" "g_acked (destroy_data d b s) = g_acked s"
  "qoverflow_input (destroy_data d b s) = qoverflow_input s" "qoverflow_size (destroy_data d b s) = qoverflow_size s"
  "q_notify_func (destroy_data d b s) = q_notify_func s" "q_notify_limit (destroy_data d b s) = q_notify_limit s"
  "g_called (destroy_data d b s) = g_called s" "q_throttle (destroy_data d b s) = q_throttle s"
  "q_throttle_buckets (destroy_data d b s) = q_throttle_buckets s" "q_last_check_sec (destroy_data d b s) = q_last_check_sec s"
  by (auto simp: destroy_data_def split: option.splits)

lemma push_notify_simps [simp]:
  "qoverflow_output (log_queue_push_notify s) = qoverflow_output s" "qoverflow_wait (log_queue_push_notify s) = qoverflow_wait s"
  "qoverflow_output_len (log_queue_push_notify s) = qoverflow_output_len s"
  "qoverflow_wait_len (log_queue_push_notify s) = qoverflow_wait_len s"
  "qbacklog (log_queue_push_notify s) = qbacklog s" "qbacklog_len (log_queue_push_notify s) = qbacklog_len s"
  "stored_messages (log_queue_push_notify s) = stored_messages s" "dropped_messages (log_queue_push_notify s) = dropped_messages s"
  "g_dropped (log_queue_push_notify s) = g_dropped s" "g_acked (log_queue_push_notify s) = g_acked s"
  "qoverflow_input (log_queue_push_notify s) = qoverflow_input s" "qoverflow_size (log_queue_push_notify s) = qoverflow_size s"
  by (auto simp: log_queue_push_notify_def split: option.splits)

subsection \<open>Moving the input\<close>

text \<open>How many messages of an input list are dropped.\<close>

definition overflow_cnt :: "log_queue \<Rightarrow> nat \<Rightarrow> nat" where
  "overflow_cnt s tid =
     (let queue_len = log_queue_fifo_get_length s; len = int (qi_len (qoverflow_input s ! tid))
      in if queue_len + len > qoverflow_size s then nat (len - max 0 (qoverflow_size s - queue_len)) else 0)"

lemma move_unlocked_eq:
  "log_queue_fifo_move_input_unlocked s tid =
     (let inp = qoverflow_input s ! tid; n = overflow_cnt s tid; len = qi_len inp - n
      in s\<lparr>dropped_messages := dropped_messages s + int n, g_dropped := g_dropped s @ take n (qi_items inp),
           stored_messages := stored_messages s + int len, qoverflow_wait := qoverflow_wait s @ drop n (qi_items inp),
           qoverflow_wait_len := qoverflow_wait_len s + int len,
           qoverflow_input := (qoverflow_input s)[tid := inp\<lparr>qi_items := [], qi_len := 0\<rparr>]\<rparr>)"
  by (simp only: log_queue_fifo_move_input_unlocked_def overflow_cnt_def Let_def)

lemma overflow_le: "input_ok (qoverflow_input s ! tid) \<Longrightarrow> overflow_cnt s tid \<le> length (qi_items (qoverflow_input s ! tid))"
  by (auto simp: overflow_cnt_def input_ok_def Let_def)

lemma move_input_spec:
  assumes wf: "q_wf s" and tid: "tid < length (qoverflow_input s)"
  shows "q_wf (log_queue_fifo_move_input s tid) \<and>
    q_content (log_queue_fifo_move_input s tid) =
      q_content s @ drop (overflow_cnt s tid) (qi_items (qoverflow_input s ! tid)) \<and>
    g_dropped (log_queue_fifo_move_input s tid) =
      g_dropped s @ take (overflow_cnt s tid) (qi_items (qoverflow_input s ! tid)) \<and>
    map qi_items (qoverflow_input (log_queue_fifo_move_input s tid)) = (map qi_items (qoverflow_input s))[tid := []] \<and>
    qbacklog (log_queue_fifo_move_input s tid) = qbacklog s \<and> g_acked (log_queue_fifo_move_input s tid) = g_acked s"
proof -
  let ?inp = "qoverflow_input s ! tid"
  have ok: "input_ok ?inp" using wf tid by (simp add: q_wf_def)
  have le: "overflow_cnt s tid \<le> qi_len ?inp" "qi_len ?inp = length (qi_items ?inp)"
    using overflow_le[OF ok] ok by (simp_all add: input_ok_def)
  have "\<forall>inp \<in> set (qoverflow_input (log_queue_fifo_move_input s tid)). input_ok inp"
    using wf tid by (auto simp: log_queue_fifo_move_input_def move_unlocked_eq Let_def q_wf_def input_ok_def
        dest!: set_update_subset_insert[THEN subsetD])
  then show ?thesis
    using wf le tid
    by (auto simp: q_wf_def q_content_def log_queue_fifo_move_input_def move_unlocked_eq Let_def map_update of_nat_diff)
qed


lemma push_tail_spec:
  assumes wf: "q_wf s" and r: "log_queue_fifo_push_tail s thread_id node = Some s'"
    and room: "\<forall>tid. thread_id = Some tid \<longrightarrow> qi_len (qoverflow_input s ! tid) < 65535"
  shows "q_wf s' \<and> qbacklog s' = qbacklog s \<and> g_acked s' = g_acked s \<and>
    (case thread_id of
       Some tid \<Rightarrow> tid < length (qoverflow_input s) \<and> q_content s' = q_content s \<and> g_dropped s' = g_dropped s \<and>
         map qi_items (qoverflow_input s') =
           (map qi_items (qoverflow_input s))[tid := qi_items (qoverflow_input s ! tid) @ [node]]
     | None \<Rightarrow> map qi_items (qoverflow_input s') = map qi_items (qoverflow_input s) \<and>
         (if int (length (q_content s)) < qoverflow_size s
          then q_content s' = q_content s @ [node] \<and> g_dropped s' = g_dropped s
          else q_content s' = q_content s \<and> g_dropped s' = g_dropped s @ [node]))"
proof (cases thread_id)
  case None
  with wf r show ?thesis
    by (auto simp: log_queue_fifo_push_tail_def q_wf_def q_content_def log_queue_fifo_get_length_def Let_def split: if_splits)
next
  case (Some tid)
  let ?inp = "qoverflow_input s ! tid"
  have t: "tid < length (qoverflow_input s)" using r Some by (auto simp: log_queue_fifo_push_tail_def split: if_splits)
  have ok: "input_ok ?inp" using wf t by (simp add: q_wf_def)
  have m: "(qi_len ?inp + 1) mod 2 ^ 16 = qi_len ?inp + 1" using room Some by simp
  have s': "s' = s\<lparr>qoverflow_input := (qoverflow_input s)[tid :=
       \<lparr>qi_items = qi_items ?inp @ [node], qi_len = qi_len ?inp + 1, qi_finish_cb_registered = True\<rparr>]\<rparr>"
    using r Some t m by (simp add: log_queue_fifo_push_tail_def Let_def)
  have "\<forall>inp \<in> set (qoverflow_input s'). input_ok inp"
    using wf ok by (auto simp: s' q_wf_def input_ok_def dest!: set_update_subset_insert[THEN subsetD])
  then show ?thesis
    using wf Some t by (auto simp: s' q_wf_def q_content_def map_update)
qed

lemma fill_output_spec:
  assumes "q_wf s"
  shows "q_wf (fill_output s) \<and> q_content (fill_output s) = q_content s \<and>
    qoverflow_output_len (fill_output s) = int (length (qoverflow_output (fill_output s))) \<and>
    (qoverflow_output (fill_output s) = [] \<longrightarrow> q_content s = []) \<and> qoverflow_input (fill_output s) = qoverflow_input s \<and>
    qbacklog (fill_output s) = qbacklog s \<and> g_acked (fill_output s) = g_acked s \<and> g_dropped (fill_output s) = g_dropped s \<and>
    q_notify_func (fill_output s) = q_notify_func s"
  using assms by (auto simp: fill_output_def q_wf_def q_content_def)

text \<open>The head of the content comes out, in order, whatever is split between the two lists.\<close>

lemma pop_head_spec:
  assumes wf: "q_wf s" and nf: "q_notify_func s = None"
    and thr: "ignore_throttle \<or> q_throttle s = 0 \<or> q_throttle_buckets s \<noteq> 0"
  shows "case q_content s of
      [] \<Rightarrow> \<exists>s'. log_queue_fifo_pop_head s backlog ignore_throttle = Some (s', None) \<and> q_wf s' \<and> q_content s' = [] \<and>
              q_notify_func s' = None \<and> qbacklog s' = qbacklog s \<and> qoverflow_input s' = qoverflow_input s \<and>
              g_acked s' = g_acked s \<and> g_dropped s' = g_dropped s
    | x # xs \<Rightarrow> \<exists>s'. log_queue_fifo_pop_head s backlog ignore_throttle = Some (s', Some x) \<and> q_wf s' \<and> q_content s' = xs \<and>
              q_notify_func s' = None \<and> qbacklog s' = (if backlog then qbacklog s @ [x] else qbacklog s) \<and>
              qoverflow_input s' = qoverflow_input s \<and> g_acked s' = g_acked s \<and> g_dropped s' = g_dropped s"
proof -
  let ?f = "fill_output s"
  note f = fill_output_spec[OF wf]
  have p: "log_queue_fifo_pop_head s backlog ignore_throttle =
     (if qoverflow_output_len ?f > 0 then
        (case qoverflow_output ?f of
           [] \<Rightarrow> None
         | node # rest \<Rightarrow>
             let s1 = ?f\<lparr>qoverflow_output := rest, qoverflow_output_len := qoverflow_output_len ?f - 1,
                        stored_messages := stored_messages ?f - 1\<rparr>;
                 s2 = (if backlog
                       then s1\<lparr>qbacklog := qbacklog s1 @ [node], qbacklog_len := qbacklog_len s1 + 1\<rparr> else s1);
                 s3 = (if \<not> ignore_throttle \<and> q_throttle_buckets s2 > 0
                       then s2\<lparr>q_throttle_buckets := q_throttle_buckets s2 - 1\<rparr> else s2)
             in Some (s3, Some node))
      else Some (?f, None))"
  proof -
    have "(q_notify_func s \<noteq> None) = False" "(\<not> ignore_throttle \<and> q_throttle s \<noteq> 0 \<and> q_throttle_buckets s = 0) = False"
      using nf thr by auto
    then show ?thesis by (simp only: log_queue_fifo_pop_head_def Let_def if_False)
  qed
  show ?thesis
  proof (cases "qoverflow_output ?f")
    case Nil
    then have "q_content s = []" using f by simp
    with p f Nil nf show ?thesis by simp
  next
    case (Cons x rest)
    have c: "q_content s = x # (rest @ qoverflow_wait ?f)"
    proof -
      have "q_content s = q_content ?f" using f by simp
      then show ?thesis using Cons by (simp add: q_content_def)
    qed
    have w: "q_wf ?f" using f by simp
    show ?thesis
      unfolding c list.case p using f w Cons nf
      by (simp add: Let_def) (auto simp: q_wf_def q_content_def)
  qed
qed

lemma ack_loop_spec:
  assumes "q_wf s"
  shows "\<exists>s'. ack_loop n s = Some s' \<and> q_wf s' \<and> q_content s' = q_content s \<and> qbacklog s' = drop n (qbacklog s) \<and>
    g_acked s' = g_acked s @ take n (qbacklog s) \<and> qoverflow_input s' = qoverflow_input s \<and> g_dropped s' = g_dropped s \<and>
    q_notify_func s' = q_notify_func s"
  using assms
proof (induction n arbitrary: s)
  case (Suc n)
  show ?case
  proof (cases "qbacklog s")
    case Nil
    with Suc.prems show ?thesis by (simp add: q_wf_def)
  next
    case (Cons x xs)
    let ?s = "s\<lparr>qbacklog := xs, qbacklog_len := qbacklog_len s - 1, g_acked := g_acked s @ [x]\<rparr>"
    have "q_wf ?s" using Suc.prems Cons by (simp add: q_wf_def)
    moreover have "qbacklog_len s > 0" using Suc.prems Cons by (simp add: q_wf_def)
    ultimately show ?thesis using Suc.IH[of ?s] Cons by (simp add: q_content_def)
  qed
qed simp


subsection \<open>Draining\<close>

text \<open>The contract that a consumer relies on: \<open>pop\<close> hands out the first element of the content. A
  consumer that pops until nothing comes gets the content in order.\<close>

fun pop_many :: "('s \<Rightarrow> 's \<times> 'a option) \<Rightarrow> nat \<Rightarrow> 's \<Rightarrow> 's \<times> 'a list" where
  "pop_many pop 0 s = (s, [])"
| "pop_many pop (Suc n) s =
     (case pop s of (s', None) \<Rightarrow> (s', []) | (s', Some x) \<Rightarrow> (let (s'', xs) = pop_many pop n s' in (s'', x # xs)))"

locale consumer_queue =
  fixes invar :: "'s \<Rightarrow> bool" and content :: "'s \<Rightarrow> 'a list" and pop :: "'s \<Rightarrow> 's \<times> 'a option"
  assumes pop_empty: "invar s \<Longrightarrow> content s = [] \<Longrightarrow> invar (fst (pop s)) \<and> content (fst (pop s)) = [] \<and> snd (pop s) = None"
    and pop_first: "invar s \<Longrightarrow> content s = x # xs \<Longrightarrow> invar (fst (pop s)) \<and> content (fst (pop s)) = xs \<and> snd (pop s) = Some x"
begin

lemma pop_many_content:
  assumes "invar s"
  shows "invar (fst (pop_many pop n s)) \<and> snd (pop_many pop n s) = take n (content s) \<and>
    content (fst (pop_many pop n s)) = drop n (content s)"
  using assms
proof (induction n arbitrary: s)
  case (Suc n)
  show ?case
  proof (cases "content s")
    case Nil
    with pop_empty[OF Suc.prems] show ?thesis by (auto simp: case_prod_beta split: option.splits)
  next
    case (Cons x xs)
    from pop_first[OF Suc.prems Cons] have p: "invar (fst (pop s))" "content (fst (pop s)) = xs" "snd (pop s) = Some x" by auto
    then obtain s' where s': "pop s = (s', Some x)" by (metis prod.collapse)
    with p Suc.IH[of s'] Cons show ?thesis by (simp add: case_prod_beta Let_def)
  qed
qed simp

lemma drain: "invar s \<Longrightarrow> length (content s) \<le> n \<Longrightarrow> snd (pop_many pop n s) = content s \<and> content (fst (pop_many pop n s)) = []"
  using pop_many_content[of s n] by simp

end

definition q_pop :: "bool \<Rightarrow> log_queue \<Rightarrow> log_queue \<times> q_node option" where
  "q_pop backlog s = (case log_queue_fifo_pop_head s backlog True of Some r \<Rightarrow> r | None \<Rightarrow> (s, None))"

interpretation fifo: consumer_queue "\<lambda>s. q_wf s \<and> q_notify_func s = None" q_content "q_pop backlog" for backlog
proof unfold_locales
  fix s assume s: "q_wf s \<and> q_notify_func s = None" and c: "q_content s = []"
  with pop_head_spec[of s True backlog]
  show "(q_wf (fst (q_pop backlog s)) \<and> q_notify_func (fst (q_pop backlog s)) = None) \<and>
      q_content (fst (q_pop backlog s)) = [] \<and> snd (q_pop backlog s) = None"
    by (auto simp: q_pop_def)
next
  fix s x xs assume s: "q_wf s \<and> q_notify_func s = None" and c: "q_content s = x # xs"
  with pop_head_spec[of s True backlog]
  show "(q_wf (fst (q_pop backlog s)) \<and> q_notify_func (fst (q_pop backlog s)) = None) \<and>
      q_content (fst (q_pop backlog s)) = xs \<and> snd (q_pop backlog s) = Some x"
    by (auto simp: q_pop_def)
qed

subsection \<open>Runs\<close>

datatype q_op =
    OpPushTail "nat option" q_node | OpMoveInput nat | OpPushHead q_node | OpPop bool bool
  | OpAck int | OpRewind | OpCheck int "int \<times> int" nat "nat option" bool

text \<open>The state after an operation, and the messages that the consumer takes over without leaving
  them in the backlog.\<close>

fun q_step :: "q_op \<Rightarrow> log_queue \<Rightarrow> (log_queue \<times> q_node list) option" where
  "q_step (OpPushTail tid node) s =
     (if (case tid of None \<Rightarrow> True | Some i \<Rightarrow> qi_len (qoverflow_input s ! i) < 65535)
      then map_option (\<lambda>s'. (s', [])) (log_queue_fifo_push_tail s tid node) else None)"
| "q_step (OpMoveInput tid) s = (if tid < length (qoverflow_input s) then Some (log_queue_fifo_move_input s tid, []) else None)"
| "q_step (OpPushHead node) s = map_option (\<lambda>s'. (s', [])) (log_queue_fifo_push_head s node)"
| "q_step (OpPop backlog it) s =
     map_option (\<lambda>(s', x). (s', case x of Some n \<Rightarrow> if backlog then [] else [n] | None \<Rightarrow> []))
       (log_queue_fifo_pop_head s backlog it)"
| "q_step (OpAck n) s = map_option (\<lambda>s'. (s', [])) (log_queue_fifo_ack_backlog s n)"
| "q_step OpRewind s = map_option (\<lambda>s'. (s', [])) (log_queue_fifo_rewind_backlog s)"
| "q_step (OpCheck b now f d ds) s = (case log_queue_check_items s b now f d ds of (_, _, _, s') \<Rightarrow> Some (s', []))"

fun op_in :: "q_op \<Rightarrow> q_node list" where
  "op_in (OpPushTail tid node) = [node]"
| "op_in (OpPushHead node) = [node]"
| "op_in _ = []"

fun q_run :: "q_op list \<Rightarrow> log_queue \<Rightarrow> (log_queue \<times> q_node list) option" where
  "q_run [] s = Some (s, [])"
| "q_run (a # as) s = (case q_step a s of
     None \<Rightarrow> None
   | Some (s', out) \<Rightarrow> map_option (\<lambda>(s'', outs). (s'', out @ outs)) (q_run as s'))"

text \<open>Everything the queue holds or has accounted for.\<close>

definition q_held :: "log_queue \<Rightarrow> q_node multiset" where
  "q_held s = mset (concat (map qi_items (qoverflow_input s))) + mset (q_content s) + mset (qbacklog s) +
     mset (g_dropped s) + mset (g_acked s)"

lemma check_items_simps:
  assumes "log_queue_check_items s b now f d ds = (go, pb, to, s')"
  shows "q_wf s' = q_wf s" "q_content s' = q_content s" "qoverflow_input s' = qoverflow_input s" "qbacklog s' = qbacklog s"
    "g_dropped s' = g_dropped s" "g_acked s' = g_acked s"
  using assms by (auto simp: log_queue_check_items_def check_throttle_def Let_def q_wf_def q_content_def split: if_splits prod.splits)


lemma step_conserves:
  assumes wf: "q_wf s" and st: "q_step a s = Some (s', out)"
  shows "q_wf s' \<and> q_held s' + mset out = q_held s + mset (op_in a)"
proof (cases a)
  case (OpPushTail tid node)
  with st have r: "log_queue_fifo_push_tail s tid node = Some s'" "out = []"
      "\<forall>i. tid = Some i \<longrightarrow> qi_len (qoverflow_input s ! i) < 65535"
    by (auto split: if_splits option.splits)
  note p = push_tail_spec[OF wf r(1,3)]
  show ?thesis
  proof (cases tid)
    case None
    with p r OpPushTail show ?thesis by (auto simp: q_held_def split: if_splits)
  next
    case (Some i)
    with p have i: "i < length (map qi_items (qoverflow_input s))" by simp
    from Some p mset_concat_update[OF i, of "qi_items (qoverflow_input s ! i) @ [node]"] r OpPushTail i show ?thesis
      by (simp add: q_held_def)
  qed
next
  case (OpMoveInput tid)
  with st have t: "tid < length (qoverflow_input s)" and s': "s' = log_queue_fifo_move_input s tid" "out = []"
    by (auto split: if_splits)
  let ?items = "qi_items (qoverflow_input s ! tid)"
  note m = move_input_spec[OF wf t]
  have "mset (concat ((map qi_items (qoverflow_input s))[tid := []])) + mset ?items = mset (concat (map qi_items (qoverflow_input s)))"
    using mset_concat_update[of tid "map qi_items (qoverflow_input s)" "[]"] t by simp
  moreover have "mset ?items = mset (take (overflow_cnt s tid) ?items) + mset (drop (overflow_cnt s tid) ?items)"
    by (metis append_take_drop_id mset_append)
  ultimately show ?thesis
    using m s' OpMoveInput by (simp add: q_held_def) (metis (no_types, lifting) add.assoc add.commute)
next
  case (OpPushHead node)
  with st wf show ?thesis
    by (auto simp: log_queue_fifo_push_head_def q_wf_def q_held_def q_content_def split: if_splits)
next
  case (OpPop backlog it)
  show ?thesis
  proof (cases "q_notify_func s = None \<and> (it \<or> q_throttle s = 0 \<or> q_throttle_buckets s \<noteq> 0)")
    case True
    with pop_head_spec[OF wf, of it backlog] st OpPop show ?thesis
      by (cases "q_content s") (auto simp: q_held_def)
  next
    case False
    with st OpPop wf show ?thesis by (auto simp: log_queue_fifo_pop_head_def split: if_splits)
  qed
next
  case (OpAck n)
  with st have nf: "q_notify_func s = None" and r: "ack_loop (nat n) s = Some s'" "out = []"
    by (auto simp: log_queue_fifo_ack_backlog_def split: if_splits)
  have "mset (qbacklog s) = mset (take (nat n) (qbacklog s)) + mset (drop (nat n) (qbacklog s))"
    by (metis append_take_drop_id mset_append)
  with ack_loop_spec[OF wf, of "nat n"] r OpAck show ?thesis by (auto simp: q_held_def)
next
  case OpRewind
  with st wf show ?thesis
    by (auto simp: log_queue_fifo_rewind_backlog_def q_wf_def q_held_def q_content_def split: if_splits)
next
  case (OpCheck b now f d ds)
  with st obtain go pb to where c: "log_queue_check_items s b now f d ds = (go, pb, to, s')" "out = []"
    by (auto split: prod.splits)
  with check_items_simps[OF c(1)] wf OpCheck show ?thesis by (simp add: q_held_def)
qed

subsection \<open>Properties\<close>








definition waiting :: "log_queue \<Rightarrow> bool" where
  "waiting s \<longleftrightarrow> q_notify_func s \<noteq> None \<and> log_queue_fifo_get_length s < q_notify_limit s"

fun is_push :: "q_op \<Rightarrow> bool" where
  "is_push (OpPushTail tid node) = True"
| "is_push (OpMoveInput tid) = True"
| "is_push _ = False"

lemma push_notify_wakes:
  "case q_notify_func s of
     None \<Rightarrow> log_queue_push_notify s = s
   | Some f \<Rightarrow> (if log_queue_fifo_get_length s < q_notify_limit s then log_queue_push_notify s = s
                else q_notify_func (log_queue_push_notify s) = None \<and>
                     g_called (log_queue_push_notify s) = g_called s @ [(f, q_notify_data s)])"
  by (auto simp: log_queue_push_notify_def split: option.splits)

lemma push_step_wakes:
  assumes w: "waiting s \<or> q_notify_func s = None" and st: "q_step a s = Some (s', out)" and p: "is_push a"
  shows "if q_notify_func s = None then q_notify_func s' = None \<and> g_called s' = g_called s
    else (waiting s' \<and> g_called s' = g_called s \<and> q_notify_func s' = q_notify_func s \<and> q_notify_data s' = q_notify_data s) \<or>
      q_notify_func s' = None \<and> g_called s' = g_called s @ [(the (q_notify_func s), q_notify_data s)]"
proof (cases a)
  case (OpPushTail tid node)
  let ?s = "s\<lparr>qoverflow_wait := qoverflow_wait s @ [node], qoverflow_wait_len := qoverflow_wait_len s + 1\<rparr>"
  show ?thesis
    using w st OpPushTail push_notify_wakes[of ?s]
    by (auto simp: log_queue_fifo_push_tail_def waiting_def log_queue_fifo_get_length_def Let_def split: if_splits option.splits)
next
  case (OpMoveInput tid)
  let ?s = "log_queue_fifo_move_input_unlocked s tid"
  have "q_notify_func ?s = q_notify_func s" "q_notify_data ?s = q_notify_data s" "g_called ?s = g_called s"
    "q_notify_limit ?s = q_notify_limit s"
    by (simp_all add: move_unlocked_eq Let_def)
  then show ?thesis
    using w st OpMoveInput push_notify_wakes[of ?s]
    by (auto simp: log_queue_fifo_move_input_def waiting_def log_queue_fifo_get_length_def Let_def split: if_splits option.splits)
qed (use p in auto)

lemma check_registers:
  assumes "log_queue_check_items s b now f d ds = (False, Some pb, to, s1)"
  shows "waiting s1 \<and> q_notify_func s1 = Some f \<and> q_notify_data s1 = d \<and> g_called s1 = g_called s"
  using assms by (auto simp: log_queue_check_items_def Let_def waiting_def log_queue_fifo_get_length_def split: if_splits prod.splits)



text \<open>Throttled output.\<close>

definition q_pop_throttled :: "bool \<Rightarrow> log_queue \<Rightarrow> log_queue \<times> q_node option" where
  "q_pop_throttled backlog s = (case log_queue_fifo_pop_head s backlog False of Some r \<Rightarrow> r | None \<Rightarrow> (s, None))"

lemma pop_throttled_step:
  assumes "q_throttle s > 0" "0 \<le> q_throttle_buckets s"
  shows "q_throttle (fst (q_pop_throttled backlog s)) = q_throttle s \<and>
    (case snd (q_pop_throttled backlog s) of
       None \<Rightarrow> q_throttle_buckets (fst (q_pop_throttled backlog s)) = q_throttle_buckets s
     | Some x \<Rightarrow> q_throttle_buckets s > 0 \<and> q_throttle_buckets (fst (q_pop_throttled backlog s)) = q_throttle_buckets s - 1)"
  using assms
  by (auto simp: q_pop_throttled_def log_queue_fifo_pop_head_def fill_output_def Let_def split: list.splits option.splits if_splits)



text \<open>A clock that is set back turns throttling off. The check then adds a negative number of buckets,
  the count may become negative, and with a negative count every message is handed out and the
  count stays: there is no limit until the clock has caught up.\<close>

theorem log_queue_throttle_bypassed:
  assumes wf: "q_wf s" "q_notify_func s = None" and t: "q_throttle s > 0" "q_last_check_sec s > 0"
    and jump: "q_throttle s * ((q_last_check_sec s - sec) * 1000000 + (q_last_check_usec s - usec)) \<ge>
      (q_throttle_buckets s + 1) * 1000000" and nn: "0 \<le> q_throttle_buckets s"
    and ne: "q_content s = x # xs"
  shows "let s1 = fst (check_throttle s (log_queue_fifo_get_length s) sec usec)
         in q_throttle_buckets s1 < 0 \<and>
            (\<exists>s2. log_queue_fifo_pop_head s1 backlog False = Some (s2, Some x) \<and> q_content s2 = xs \<and>
                  q_throttle_buckets s2 = q_throttle_buckets s1)"
proof -
  let ?d = "(sec - q_last_check_sec s) * 1000000 + (usec - q_last_check_usec s)"
  let ?s1 = "fst (check_throttle s (log_queue_fifo_get_length s) sec usec)"
  have eq: "q_throttle s * ((q_last_check_sec s - sec) * 1000000 + (q_last_check_usec s - usec)) = - (q_throttle s * ?d)"
    by (simp add: algebra_simps)
  define p where "p = q_throttle s * ?d"
  have le: "(q_throttle_buckets s + 1) * 1000000 \<le> - p" using jump unfolding eq p_def .
  then have neg: "p < 0" using nn by (simp add: algebra_simps)
  define nb where "nb = tdiv p 1000000"
  have "(q_throttle_buckets s + 1) * 1000000 div 1000000 \<le> (- p) div 1000000"
    by (rule zdiv_mono1[OF le]) simp
  moreover have "nb = - ((- p) div 1000000)" unfolding nb_def tdiv_def using neg by simp
  ultimately have nb: "nb \<le> - (q_throttle_buckets s + 1)" by simp
  have s1: "?s1 = s\<lparr>q_throttle_buckets := min (q_throttle s) (q_throttle_buckets s + nb), q_last_check_sec := sec, q_last_check_usec := usec\<rparr>"
  proof -
    have e: "tdiv (q_throttle s * ?d) 1000000 = nb" by (simp only: nb_def p_def)
    have "nb \<noteq> 0" "q_throttle s > 0" "q_last_check_sec s \<noteq> 0" using t nb nn by simp_all
    then show ?thesis by (simp only: check_throttle_def Let_def if_True if_False e simp_thms fst_conv)
  qed
  have b: "q_throttle_buckets ?s1 < 0" unfolding s1 using nb by simp
  have w: "q_wf ?s1" "q_notify_func ?s1 = None" "q_content ?s1 = x # xs"
    unfolding s1 using wf ne by (simp_all add: q_wf_def q_content_def)
  from pop_head_spec[OF w(1,2), of False backlog] b w(3)
  obtain s2 where s2: "log_queue_fifo_pop_head ?s1 backlog False = Some (s2, Some x)" "q_content s2 = xs" by auto
  moreover have "q_throttle_buckets s2 = q_throttle_buckets ?s1"
    using s2(1) b by (auto simp: log_queue_fifo_pop_head_def fill_output_def Let_def split: list.splits if_splits)
  ultimately show ?thesis using b by (simp add: Let_def)
qed

lemma log_queue_throttle_bypassed_witness:
  "let s = (log_queue_set_throttle (log_queue_fifo_new 1 10) 1)\<lparr>q_last_check_sec := 100,
         qoverflow_output := [\<lparr>qn_msg = 7, qn_ack_needed = True\<rparr>], qoverflow_output_len := 1, stored_messages := 1\<rparr>
   in q_throttle_buckets (fst (check_throttle s (log_queue_fifo_get_length s) 50 0)) < 0"
proof -
  let ?s = "(log_queue_set_throttle (log_queue_fifo_new 1 10) 1)\<lparr>q_last_check_sec := 100,
         qoverflow_output := [\<lparr>qn_msg = 7, qn_ack_needed = True\<rparr>], qoverflow_output_len := 1, stored_messages := 1\<rparr>"
  have "q_wf ?s" "q_notify_func ?s = None" "q_throttle ?s > 0" "q_last_check_sec ?s > 0" "0 \<le> q_throttle_buckets ?s"
    "q_throttle ?s * ((q_last_check_sec ?s - 50) * 1000000 + (q_last_check_usec ?s - 0)) \<ge> (q_throttle_buckets ?s + 1) * 1000000"
    "q_content ?s = \<lparr>qn_msg = 7, qn_ack_needed = True\<rparr> # []"
    by (simp_all add: q_wf_def q_content_def log_queue_set_throttle_def log_queue_fifo_new_def input_ok_def)
  from log_queue_throttle_bypassed[OF this(1-4,6,5,7), of True] show ?thesis by (simp add: Let_def)
qed

end
