(* ===== verification/Serialize.thy ===== *)
theory Serialize
  imports Prelude
begin

text \<open>
  Serialisation of \<^verbatim>\<open>lib/serialize.c\<close>: integers in network byte order, strings with a 32-bit length,
  and blobs, on archives over a string, a fixed buffer or a file. The function table of an archive is the
  pair of arguments \<open>rd\<close>, \<open>wr\<close>; what the codecs rely on is stated as the locales \<open>byte_source\<close> and
  \<open>byte_sink\<close> and proved for all three archives.
\<close>

type_synonym byte = guint8

subsection \<open>Archives\<close>

text \<open>\<^verbatim>\<open>SerializeArchive\<close>: the sticky error and the state of the implementation.\<close>

record 's archive =
  ar_error :: bool
  ar_state :: 's

type_synonym 's reader = "'s \<Rightarrow> nat \<Rightarrow> 's \<times> byte list option"
type_synonym 's writer = "'s \<Rightarrow> byte list \<Rightarrow> 's \<times> bool"

definition new_archive :: "'s \<Rightarrow> 's archive" where
  "new_archive s = \<lparr>ar_error = False, ar_state = s\<rparr>"

definition serialize_archive_read_bytes :: "'s reader \<Rightarrow> 's archive \<Rightarrow> nat \<Rightarrow> 's archive \<times> byte list option" where
  "serialize_archive_read_bytes rd self buflen =
     (if ar_error self then (self, None)
      else case rd (ar_state self) buflen of
             (s, None) \<Rightarrow> (\<lparr>ar_error = True, ar_state = s\<rparr>, None)
           | (s, Some bs) \<Rightarrow> (\<lparr>ar_error = False, ar_state = s\<rparr>, Some bs))"

definition serialize_archive_write_bytes :: "'s writer \<Rightarrow> 's archive \<Rightarrow> byte list \<Rightarrow> 's archive \<times> bool" where
  "serialize_archive_write_bytes wr self buf =
     (if ar_error self then (self, False)
      else case wr (ar_state self) buf of
             (s, ok) \<Rightarrow> (\<lparr>ar_error = \<not> ok, ar_state = s\<rparr>, ok))"

text \<open>The string archive appends to its string and reads from a position in it.\<close>

record string_archive =
  sa_pos :: nat
  sa_string :: "byte list"

definition serialize_string_archive_new :: "byte list \<Rightarrow> string_archive archive" where
  "serialize_string_archive_new str = new_archive \<lparr>sa_pos = 0, sa_string = str\<rparr>"

definition serialize_string_archive_read_bytes :: "string_archive reader" where
  "serialize_string_archive_read_bytes self buflen =
     (if gsize_add (sa_pos self) buflen > length (sa_string self) then (self, None)
      else (self\<lparr>sa_pos := gsize_add (sa_pos self) buflen\<rparr>, Some (take buflen (drop (sa_pos self) (sa_string self)))))"

definition serialize_string_archive_write_bytes :: "string_archive writer" where
  "serialize_string_archive_write_bytes self buf = (self\<lparr>sa_string := sa_string self @ buf\<rparr>, True)"

text \<open>The buffer archive has one position for reading and writing in a buffer of fixed length.\<close>

record buffer_archive =
  ba_pos :: nat
  ba_buff :: "byte list"

definition serialize_buffer_archive_new :: "byte list \<Rightarrow> buffer_archive archive" where
  "serialize_buffer_archive_new buff = new_archive \<lparr>ba_pos = 0, ba_buff = buff\<rparr>"

definition serialize_buffer_archive_get_pos :: "buffer_archive archive \<Rightarrow> nat" where
  "serialize_buffer_archive_get_pos self = ba_pos (ar_state self)"

definition serialize_buffer_archive_read_bytes :: "buffer_archive reader" where
  "serialize_buffer_archive_read_bytes self buflen =
     (if gsize_add (ba_pos self) buflen > length (ba_buff self) then (self, None)
      else (self\<lparr>ba_pos := gsize_add (ba_pos self) buflen\<rparr>, Some (take buflen (drop (ba_pos self) (ba_buff self)))))"

definition serialize_buffer_archive_write_bytes :: "buffer_archive writer" where
  "serialize_buffer_archive_write_bytes self buf =
     (if gsize_add (ba_pos self) (length buf) > length (ba_buff self) then (self, False)
      else (self\<lparr>ba_pos := gsize_add (ba_pos self) (length buf),
                 ba_buff := take (ba_pos self) (ba_buff self) @ buf @ drop (ba_pos self + length buf) (ba_buff self)\<rparr>, True))"

text \<open>The file archive: the bytes not read yet, the bytes written, and how many more the medium takes.
  \<^verbatim>\<open>fread\<close> and \<^verbatim>\<open>fwrite\<close> transfer what they can and report a short count.\<close>

record file_archive =
  fa_rest :: "byte list"
  fa_written :: "byte list"
  fa_room :: nat

definition serialize_file_archive_read_bytes :: "file_archive reader" where
  "serialize_file_archive_read_bytes self buflen =
     (let got = take buflen (fa_rest self)
      in (self\<lparr>fa_rest := drop buflen (fa_rest self)\<rparr>, if length got \<noteq> buflen then None else Some got))"

definition serialize_file_archive_write_bytes :: "file_archive writer" where
  "serialize_file_archive_write_bytes self buf =
     (let put = take (fa_room self) buf
      in (self\<lparr>fa_written := fa_written self @ put, fa_room := fa_room self - length put\<rparr>, length put = length buf))"

subsection \<open>Codecs\<close>

text \<open>An \<open>n\<close>-byte integer in network byte order, as it lies in memory after \<^verbatim>\<open>GUINT32_TO_BE\<close> and the like,
  and the way back.\<close>

fun be_bytes :: "nat \<Rightarrow> 'a::len word \<Rightarrow> byte list" where
  "be_bytes 0 w = []"
| "be_bytes (Suc n) w = be_bytes n (drop_bit 8 w) @ [ucast w]"

definition be_value :: "byte list \<Rightarrow> 'a::len word" where
  "be_value bs = foldl (\<lambda>acc b. push_bit 8 acc OR ucast b) 0 bs"

definition serialize_write_blob :: "'s writer \<Rightarrow> 's archive \<Rightarrow> byte list \<Rightarrow> 's archive \<times> bool" where
  "serialize_write_blob wr archive blob = serialize_archive_write_bytes wr archive blob"

definition serialize_read_blob :: "'s reader \<Rightarrow> 's archive \<Rightarrow> nat \<Rightarrow> 's archive \<times> byte list option" where
  "serialize_read_blob rd archive len = serialize_archive_read_bytes rd archive len"

definition serialize_write_uint32 :: "'s writer \<Rightarrow> 's archive \<Rightarrow> guint32 \<Rightarrow> 's archive \<times> bool" where
  "serialize_write_uint32 wr archive value = serialize_archive_write_bytes wr archive (be_bytes 4 value)"

definition serialize_read_uint32 :: "'s reader \<Rightarrow> 's archive \<Rightarrow> 's archive \<times> guint32 option" where
  "serialize_read_uint32 rd archive = (case serialize_archive_read_bytes rd archive 4 of (a, bs) \<Rightarrow> (a, map_option be_value bs))"

definition serialize_write_uint64 :: "'s writer \<Rightarrow> 's archive \<Rightarrow> guint64 \<Rightarrow> 's archive \<times> bool" where
  "serialize_write_uint64 wr archive value = serialize_archive_write_bytes wr archive (be_bytes 8 value)"

definition serialize_read_uint64 :: "'s reader \<Rightarrow> 's archive \<Rightarrow> 's archive \<times> guint64 option" where
  "serialize_read_uint64 rd archive = (case serialize_archive_read_bytes rd archive 8 of (a, bs) \<Rightarrow> (a, map_option be_value bs))"

definition serialize_write_uint16 :: "'s writer \<Rightarrow> 's archive \<Rightarrow> guint16 \<Rightarrow> 's archive \<times> bool" where
  "serialize_write_uint16 wr archive value = serialize_archive_write_bytes wr archive (be_bytes 2 value)"

definition serialize_read_uint16 :: "'s reader \<Rightarrow> 's archive \<Rightarrow> 's archive \<times> guint16 option" where
  "serialize_read_uint16 rd archive = (case serialize_archive_read_bytes rd archive 2 of (a, bs) \<Rightarrow> (a, map_option be_value bs))"

definition serialize_write_uint8 :: "'s writer \<Rightarrow> 's archive \<Rightarrow> guint8 \<Rightarrow> 's archive \<times> bool" where
  "serialize_write_uint8 wr archive value = serialize_archive_write_bytes wr archive [value]"

definition serialize_read_uint8 :: "'s reader \<Rightarrow> 's archive \<Rightarrow> 's archive \<times> guint8 option" where
  "serialize_read_uint8 rd archive = (case serialize_archive_read_bytes rd archive 1 of (a, bs) \<Rightarrow> (a, map_option (\<lambda>b. b ! 0) bs))"

text \<open>Strings. \<open>alloc\<close> says whether the allocator can provide a size; the size \<open>len + 1\<close> is computed in 32
  bits.\<close>

definition serialize_write_string :: "'s writer \<Rightarrow> 's archive \<Rightarrow> byte list \<Rightarrow> 's archive \<times> bool" where
  "serialize_write_string wr archive str =
     (case serialize_write_uint32 wr archive (of_nat (length str)) of
        (a, ok) \<Rightarrow> if ok then serialize_archive_write_bytes wr a str else (a, False))"

definition serialize_read_string ::
    "'s reader \<Rightarrow> (nat \<Rightarrow> bool) \<Rightarrow> nat \<Rightarrow> 's archive \<Rightarrow> 's archive \<times> byte list option" where
  "serialize_read_string rd alloc allocated_len archive =
     (case serialize_read_uint32 rd archive of
        (a, None) \<Rightarrow> (a, None)
      | (a, Some len) \<Rightarrow>
          if unat len > allocated_len \<and> \<not> alloc (unat (len + 1)) then (a, None)
          else serialize_archive_read_bytes rd a (unat len))"

definition serialize_write_cstring :: "'s writer \<Rightarrow> 's archive \<Rightarrow> byte list \<Rightarrow> 's archive \<times> bool" where
  "serialize_write_cstring wr archive str =
     (case serialize_write_uint32 wr archive (of_nat (length str)) of
        (a, ok) \<Rightarrow> if ok then (if length str = 0 then (a, True) else serialize_archive_write_bytes wr a str) else (a, False))"

definition serialize_read_cstring ::
    "'s reader \<Rightarrow> (nat \<Rightarrow> bool) \<Rightarrow> 's archive \<Rightarrow> 's archive \<times> byte list option" where
  "serialize_read_cstring rd alloc archive =
     (case serialize_read_uint32 rd archive of
        (a, None) \<Rightarrow> (a, None)
      | (a, Some len) \<Rightarrow>
          if \<not> alloc (unat (len + 1)) then (a, None) else serialize_archive_read_bytes rd a (unat len))"

subsection \<open>Byte order\<close>

lemma length_be_bytes [simp]: "length (be_bytes n w) = n"
  by (induction n arbitrary: w) auto

lemma be_value_snoc: "be_value (bs @ [b]) = push_bit 8 (be_value bs) OR ucast b"
  by (simp add: be_value_def)

lemma be_value_be_bytes:
  "be_value (be_bytes n (w :: 'a::len word)) = (take_bit (8 * n) w :: 'a word)"
proof (induction n arbitrary: w)
  case 0
  then show ?case by (simp add: be_value_def)
next
  case (Suc n)
  show ?case
    unfolding be_bytes.simps be_value_snoc Suc.IH
    by (rule bit_word_eqI) (auto simp: bit_simps)
qed

lemma be_value_exact: "8 * n = LENGTH('a) \<Longrightarrow> be_value (be_bytes n (w :: 'a::len word)) = w"
  by (simp add: be_value_be_bytes take_bit_word_eq_self)


subsection \<open>What the codecs rely on\<close>

text \<open>Items in the order a caller writes them; a reader gives the kinds and the sizes of the blobs.\<close>

datatype ser_item =
    SU8 guint8 | SU16 guint16 | SU32 guint32 | SU64 guint64
  | SStr "byte list" | SCStr "byte list" | SBlob "byte list"

datatype ser_kind = KU8 | KU16 | KU32 | KU64 | KStr | KCStr | KBlob nat

fun kind_of :: "ser_item \<Rightarrow> ser_kind" where
  "kind_of (SU8 w) = KU8" | "kind_of (SU16 w) = KU16" | "kind_of (SU32 w) = KU32" | "kind_of (SU64 w) = KU64"
| "kind_of (SStr b) = KStr" | "kind_of (SCStr b) = KCStr" | "kind_of (SBlob b) = KBlob (length b)"

fun encode :: "ser_item \<Rightarrow> byte list" where
  "encode (SU8 w) = [w]" | "encode (SU16 w) = be_bytes 2 w" | "encode (SU32 w) = be_bytes 4 w" | "encode (SU64 w) = be_bytes 8 w"
| "encode (SStr b) = be_bytes 4 (of_nat (length b) :: guint32) @ b"
| "encode (SCStr b) = be_bytes 4 (of_nat (length b) :: guint32) @ b"
| "encode (SBlob b) = b"

text \<open>Strings have to have a length whose successor fits 32 bits.\<close>

fun item_ok :: "ser_item \<Rightarrow> bool" where
  "item_ok (SStr b) = (length b + 1 < 2 ^ 32)"
| "item_ok (SCStr b) = (length b + 1 < 2 ^ 32)"
| "item_ok (SBlob b) = (length b < 2 ^ 32)"
| "item_ok _ = True"

fun put_item :: "'s writer \<Rightarrow> 's archive \<Rightarrow> ser_item \<Rightarrow> 's archive \<times> bool" where
  "put_item wr a (SU8 w) = serialize_write_uint8 wr a w"
| "put_item wr a (SU16 w) = serialize_write_uint16 wr a w"
| "put_item wr a (SU32 w) = serialize_write_uint32 wr a w"
| "put_item wr a (SU64 w) = serialize_write_uint64 wr a w"
| "put_item wr a (SStr b) = serialize_write_string wr a b"
| "put_item wr a (SCStr b) = serialize_write_cstring wr a b"
| "put_item wr a (SBlob b) = serialize_write_blob wr a b"

fun get_item :: "'s reader \<Rightarrow> (nat \<Rightarrow> bool) \<Rightarrow> 's archive \<Rightarrow> ser_kind \<Rightarrow> 's archive \<times> ser_item option" where
  "get_item rd alloc a KU8 = map_prod id (map_option SU8) (serialize_read_uint8 rd a)"
| "get_item rd alloc a KU16 = map_prod id (map_option SU16) (serialize_read_uint16 rd a)"
| "get_item rd alloc a KU32 = map_prod id (map_option SU32) (serialize_read_uint32 rd a)"
| "get_item rd alloc a KU64 = map_prod id (map_option SU64) (serialize_read_uint64 rd a)"
| "get_item rd alloc a KStr = map_prod id (map_option SStr) (serialize_read_string rd alloc 0 a)"
| "get_item rd alloc a KCStr = map_prod id (map_option SCStr) (serialize_read_cstring rd alloc a)"
| "get_item rd alloc a (KBlob n) = map_prod id (map_option SBlob) (serialize_read_blob rd a n)"

fun put_items :: "'s writer \<Rightarrow> 's archive \<Rightarrow> ser_item list \<Rightarrow> 's archive \<times> bool" where
  "put_items wr a [] = (a, True)"
| "put_items wr a (i # is) = (case put_item wr a i of (a', ok) \<Rightarrow> if ok then put_items wr a' is else (a', False))"

fun get_items :: "'s reader \<Rightarrow> (nat \<Rightarrow> bool) \<Rightarrow> 's archive \<Rightarrow> ser_kind list \<Rightarrow> 's archive \<times> ser_item list option" where
  "get_items rd alloc a [] = (a, Some [])"
| "get_items rd alloc a (k # ks) =
     (case get_item rd alloc a k of
        (a', None) \<Rightarrow> (a', None)
      | (a', Some i) \<Rightarrow> map_prod id (map_option ((#) i)) (get_items rd alloc a' ks))"

locale byte_source =
  fixes rd :: "'s reader" and pending :: "'s \<Rightarrow> byte list" and invar :: "'s \<Rightarrow> bool"
  assumes rd_ok: "invar s \<Longrightarrow> n \<le> length (pending s) \<Longrightarrow> n < 2 ^ 32 \<Longrightarrow>
      snd (rd s n) = Some (take n (pending s)) \<and> pending (fst (rd s n)) = drop n (pending s) \<and> invar (fst (rd s n))"
    and rd_short: "invar s \<Longrightarrow> length (pending s) < n \<Longrightarrow> n < 2 ^ 32 \<Longrightarrow> snd (rd s n) = None"
begin

definition ready :: "'s archive \<Rightarrow> byte list \<Rightarrow> bool" where
  "ready a bs \<longleftrightarrow> \<not> ar_error a \<and> invar (ar_state a) \<and> pending (ar_state a) = bs"

lemma read_bytes_ready:
  assumes "ready a (xs @ ys)" "length xs = n" "n < 2 ^ 32"
  shows "\<exists>a'. serialize_archive_read_bytes rd a n = (a', Some xs) \<and> ready a' ys"
  using assms rd_ok[of "ar_state a" n]
  by (auto simp: ready_def serialize_archive_read_bytes_def split: prod.splits option.splits)

lemma read_bytes_short:
  assumes "ready a bs" "length bs < n" "n < 2 ^ 32"
  shows "snd (serialize_archive_read_bytes rd a n) = None \<and> ar_error (fst (serialize_archive_read_bytes rd a n))"
  using assms rd_short[of "ar_state a" n]
  by (auto simp: ready_def serialize_archive_read_bytes_def split: prod.splits option.splits)

lemma get_item_encode:
  assumes r: "ready a (encode i @ ys)" and ok: "item_ok i" and al: "\<forall>n. 0 < n \<and> n < 2 ^ 32 \<longrightarrow> alloc n"
  shows "\<exists>a'. get_item rd alloc a (kind_of i) = (a', Some i) \<and> ready a' ys"
proof -
  have str: "\<exists>a1 a2. serialize_read_uint32 rd a = (a1, Some (of_nat (length b))) \<and>
      serialize_archive_read_bytes rd a1 (length b) = (a2, Some b) \<and> ready a2 ys"
    if th: "ready a (be_bytes 4 (of_nat (length b) :: guint32) @ b @ ys)" "length b < 2 ^ 32" for b
  proof -
    obtain a1 where a1: "serialize_archive_read_bytes rd a 4 = (a1, Some (be_bytes 4 (of_nat (length b) :: guint32)))" "ready a1 (b @ ys)"
      using read_bytes_ready[OF th(1), of 4] by auto
    obtain a2 where "serialize_archive_read_bytes rd a1 (length b) = (a2, Some b)" "ready a2 ys"
      using read_bytes_ready[OF a1(2) refl th(2)] by auto
    with a1(1) show ?thesis by (simp add: serialize_read_uint32_def be_value_exact)
  qed
  have un: "unat (of_nat (length b) :: guint32) = length b" "alloc (unat ((of_nat (length b) :: guint32) + 1))"
    if "length b + 1 < 2 ^ 32" for b :: "byte list"
  proof -
    show "unat (of_nat (length b) :: guint32) = length b" using that by (simp add: unat_of_nat)
    have "(of_nat (length b) :: guint32) + 1 = of_nat (length b + 1)" by simp
    then have "unat ((of_nat (length b) :: guint32) + 1) = length b + 1" using that by (simp only: unat_of_nat) simp
    then show "alloc (unat ((of_nat (length b) :: guint32) + 1))" using al that by simp
  qed
  show ?thesis
  proof (cases i)
    case (SU8 w)
    with r read_bytes_ready[of a "[w]" ys 1] show ?thesis by (auto simp: serialize_read_uint8_def)
  next
    case (SU16 w)
    with r read_bytes_ready[of a "be_bytes 2 w" ys 2] show ?thesis by (auto simp: serialize_read_uint16_def be_value_exact)
  next
    case (SU32 w)
    with r read_bytes_ready[of a "be_bytes 4 w" ys 4] show ?thesis by (auto simp: serialize_read_uint32_def be_value_exact)
  next
    case (SU64 w)
    with r read_bytes_ready[of a "be_bytes 8 w" ys 8] show ?thesis by (auto simp: serialize_read_uint64_def be_value_exact)
  next
    case (SStr b)
    with r ok str[of b] un[of b] show ?thesis by (auto simp: serialize_read_string_def)
  next
    case (SCStr b)
    with r ok str[of b] un[of b] show ?thesis by (auto simp: serialize_read_cstring_def)
  next
    case (SBlob b)
    with r ok read_bytes_ready[of a b ys "length b"] show ?thesis by (auto simp: serialize_read_blob_def)
  qed
qed

lemma get_items_encode:
  assumes "ready a (concat (map encode is) @ ys)" "\<forall>i \<in> set is. item_ok i" "\<forall>n. 0 < n \<and> n < 2 ^ 32 \<longrightarrow> alloc n"
  shows "\<exists>a'. get_items rd alloc a (map kind_of is) = (a', Some is) \<and> ready a' ys"
  using assms
proof (induction "is" arbitrary: a)
  case (Cons i "is")
  then obtain a' where a': "get_item rd alloc a (kind_of i) = (a', Some i)" "ready a' (concat (map encode is) @ ys)"
    using get_item_encode[of a i "concat (map encode is) @ ys" alloc] by auto
  with Cons show ?case by fastforce
qed auto

end

locale byte_sink =
  fixes wr :: "'s writer" and emitted :: "'s \<Rightarrow> byte list" and accepts :: "'s \<Rightarrow> nat \<Rightarrow> bool"
  assumes wr_ok: "accepts s (length bs) \<Longrightarrow> snd (wr s bs) \<and> emitted (fst (wr s bs)) = emitted s @ bs"
    and wr_accepts: "accepts s (length bs + k) \<Longrightarrow> accepts (fst (wr s bs)) k"
    and accepts_mono: "accepts s n \<Longrightarrow> m \<le> n \<Longrightarrow> accepts s m"
begin

definition open_for :: "'s archive \<Rightarrow> nat \<Rightarrow> bool" where
  "open_for a n \<longleftrightarrow> \<not> ar_error a \<and> accepts (ar_state a) n"

lemma write_bytes_open:
  assumes "open_for a (length bs + k)"
  shows "\<exists>a'. serialize_archive_write_bytes wr a bs = (a', True) \<and> open_for a' k \<and>
    emitted (ar_state a') = emitted (ar_state a) @ bs"
  using assms wr_ok[of "ar_state a" bs] wr_accepts[of "ar_state a" bs k] accepts_mono[of "ar_state a" "length bs + k" "length bs"]
  by (auto simp: open_for_def serialize_archive_write_bytes_def split: prod.splits)

lemma put_item_open:
  assumes "open_for a (length (encode i) + k)"
  shows "\<exists>a'. put_item wr a i = (a', True) \<and> open_for a' k \<and> emitted (ar_state a') = emitted (ar_state a) @ encode i"
proof -
  have str: "\<exists>a1 a2. serialize_write_uint32 wr a (of_nat (length b)) = (a1, True) \<and>
      serialize_archive_write_bytes wr a1 b = (a2, True) \<and> open_for a2 k \<and> open_for a1 (length b + k) \<and>
      emitted (ar_state a1) = emitted (ar_state a) @ be_bytes 4 (of_nat (length b) :: guint32) \<and>
      emitted (ar_state a2) = emitted (ar_state a) @ be_bytes 4 (of_nat (length b) :: guint32) @ b"
    if o: "open_for a (4 + length b + k)" for b
  proof -
    obtain a1 where a1: "serialize_write_uint32 wr a (of_nat (length b)) = (a1, True)" "open_for a1 (length b + k)"
      "emitted (ar_state a1) = emitted (ar_state a) @ be_bytes 4 (of_nat (length b) :: guint32)"
      using write_bytes_open[of a "be_bytes 4 (of_nat (length b) :: guint32)" "length b + k"] o
      by (auto simp: serialize_write_uint32_def add.assoc)
    with write_bytes_open[OF a1(2)] show ?thesis by auto
  qed
  show ?thesis
    using assms
  proof (cases i)
    case (SStr b)
    with str[of b] assms show ?thesis by (auto simp: serialize_write_string_def)
  next
    case (SCStr b)
    with str[of b] assms show ?thesis by (auto simp: serialize_write_cstring_def)
  qed (use write_bytes_open[of a "encode i" k] in \<open>auto simp: serialize_write_uint8_def serialize_write_uint16_def
        serialize_write_uint32_def serialize_write_uint64_def serialize_write_blob_def\<close>)
qed

lemma put_items_open:
  assumes "open_for a (length (concat (map encode is)))"
  shows "\<exists>a'. put_items wr a is = (a', True) \<and> open_for a' 0 \<and>
    emitted (ar_state a') = emitted (ar_state a) @ concat (map encode is)"
  using assms
proof (induction "is" arbitrary: a)
  case (Cons i "is")
  then obtain a' where a': "put_item wr a i = (a', True)" "open_for a' (length (concat (map encode is)))"
    "emitted (ar_state a') = emitted (ar_state a) @ encode i"
    using put_item_open[of a i "length (concat (map encode is))"] by auto
  with Cons.IH[OF a'(2)] show ?case by auto
qed auto

end


subsection \<open>The three archives\<close>

interpretation string_src: byte_source serialize_string_archive_read_bytes
  "\<lambda>s. drop (sa_pos s) (sa_string s)" "\<lambda>s. sa_pos s \<le> length (sa_string s) \<and> length (sa_string s) < 2 ^ 63"
proof unfold_locales
  fix s :: string_archive and n :: nat
  assume i: "sa_pos s \<le> length (sa_string s) \<and> length (sa_string s) < 2 ^ 63" and n: "n < 2 ^ 32"
  have g: "gsize_add (sa_pos s) n = sa_pos s + n" using i n by simp
  show "snd (serialize_string_archive_read_bytes s n) = Some (take n (drop (sa_pos s) (sa_string s))) \<and>
      drop (sa_pos (fst (serialize_string_archive_read_bytes s n))) (sa_string (fst (serialize_string_archive_read_bytes s n))) =
        drop n (drop (sa_pos s) (sa_string s)) \<and>
      (sa_pos (fst (serialize_string_archive_read_bytes s n)) \<le> length (sa_string (fst (serialize_string_archive_read_bytes s n))) \<and>
       length (sa_string (fst (serialize_string_archive_read_bytes s n))) < 2 ^ 63)"
    if "n \<le> length (drop (sa_pos s) (sa_string s))"
    using that i by (auto simp: serialize_string_archive_read_bytes_def g add.commute)
  show "snd (serialize_string_archive_read_bytes s n) = None" if "length (drop (sa_pos s) (sa_string s)) < n"
    using that i by (auto simp: serialize_string_archive_read_bytes_def g)
qed

interpretation string_snk: byte_sink serialize_string_archive_write_bytes sa_string "\<lambda>s n. True"
  by unfold_locales (simp_all add: serialize_string_archive_write_bytes_def)

interpretation buffer_src: byte_source serialize_buffer_archive_read_bytes
  "\<lambda>s. drop (ba_pos s) (ba_buff s)" "\<lambda>s. ba_pos s \<le> length (ba_buff s) \<and> length (ba_buff s) < 2 ^ 63"
proof unfold_locales
  fix s :: buffer_archive and n :: nat
  assume i: "ba_pos s \<le> length (ba_buff s) \<and> length (ba_buff s) < 2 ^ 63" and n: "n < 2 ^ 32"
  have g: "gsize_add (ba_pos s) n = ba_pos s + n" using i n by simp
  show "snd (serialize_buffer_archive_read_bytes s n) = Some (take n (drop (ba_pos s) (ba_buff s))) \<and>
      drop (ba_pos (fst (serialize_buffer_archive_read_bytes s n))) (ba_buff (fst (serialize_buffer_archive_read_bytes s n))) =
        drop n (drop (ba_pos s) (ba_buff s)) \<and>
      (ba_pos (fst (serialize_buffer_archive_read_bytes s n)) \<le> length (ba_buff (fst (serialize_buffer_archive_read_bytes s n))) \<and>
       length (ba_buff (fst (serialize_buffer_archive_read_bytes s n))) < 2 ^ 63)"
    if "n \<le> length (drop (ba_pos s) (ba_buff s))"
    using that i by (auto simp: serialize_buffer_archive_read_bytes_def g add.commute)
  show "snd (serialize_buffer_archive_read_bytes s n) = None" if "length (drop (ba_pos s) (ba_buff s)) < n"
    using that i by (auto simp: serialize_buffer_archive_read_bytes_def g)
qed

interpretation buffer_snk: byte_sink serialize_buffer_archive_write_bytes "\<lambda>s. take (ba_pos s) (ba_buff s)"
  "\<lambda>s n. ba_pos s + n \<le> length (ba_buff s) \<and> length (ba_buff s) = len \<and> len < 2 ^ 63" for len
proof unfold_locales
  fix s :: buffer_archive and bs :: "byte list"
  have g: "gsize_add (ba_pos s) (length bs) = ba_pos s + length bs"
    if "ba_pos s + length bs + k \<le> length (ba_buff s) \<and> length (ba_buff s) = len \<and> len < 2 ^ 63" for k
    using that by simp
  show "snd (serialize_buffer_archive_write_bytes s bs) \<and>
      take (ba_pos (fst (serialize_buffer_archive_write_bytes s bs))) (ba_buff (fst (serialize_buffer_archive_write_bytes s bs))) =
        take (ba_pos s) (ba_buff s) @ bs"
    if "ba_pos s + length bs \<le> length (ba_buff s) \<and> length (ba_buff s) = len \<and> len < 2 ^ 63"
    using that g[of 0] by (simp add: serialize_buffer_archive_write_bytes_def)
  show "ba_pos (fst (serialize_buffer_archive_write_bytes s bs)) + k \<le> length (ba_buff (fst (serialize_buffer_archive_write_bytes s bs))) \<and>
      length (ba_buff (fst (serialize_buffer_archive_write_bytes s bs))) = len \<and> len < 2 ^ 63"
    if "ba_pos s + (length bs + k) \<le> length (ba_buff s) \<and> length (ba_buff s) = len \<and> len < 2 ^ 63" for k
    using that g[of k] by (simp add: serialize_buffer_archive_write_bytes_def add.assoc)
qed auto

interpretation file_src: byte_source serialize_file_archive_read_bytes fa_rest "\<lambda>s. True"
  by unfold_locales (auto simp: serialize_file_archive_read_bytes_def Let_def)

interpretation file_snk: byte_sink serialize_file_archive_write_bytes fa_written "\<lambda>s n. n \<le> fa_room s"
  by unfold_locales (auto simp: serialize_file_archive_write_bytes_def Let_def)

subsection \<open>Properties\<close>

text \<open>C16: Round trip. Any sequence of integers of all widths, strings and blobs (strings shorter than 4 GB)
  that is written to a string archive, to a large enough buffer, or to a file with enough room, is read
  back unchanged by the corresponding sequence of read calls, when the allocator does not fail.\<close>

theorem serialize_roundtrip:
  assumes ok: "\<forall>i \<in> set is. item_ok i" and al: "\<forall>n. 0 < n \<and> n < 2 ^ 32 \<longrightarrow> alloc n"
    and len: "length (concat (map encode is)) \<le> length buff" "length buff < 2 ^ 63" "length (concat (map encode is)) \<le> room"
  shows "(case put_items serialize_string_archive_write_bytes (serialize_string_archive_new []) is of (a, done) \<Rightarrow>
      done \<and> snd (get_items serialize_string_archive_read_bytes alloc
                   (serialize_string_archive_new (sa_string (ar_state a))) (map kind_of is)) = Some is) \<and>
    (case put_items serialize_buffer_archive_write_bytes (serialize_buffer_archive_new buff) is of (a, done) \<Rightarrow>
      done \<and> snd (get_items serialize_buffer_archive_read_bytes alloc
                   (serialize_buffer_archive_new (ba_buff (ar_state a))) (map kind_of is)) = Some is) \<and>
    (case put_items serialize_file_archive_write_bytes (new_archive \<lparr>fa_rest = [], fa_written = [], fa_room = room\<rparr>) is of (a, done) \<Rightarrow>
      done \<and> snd (get_items serialize_file_archive_read_bytes alloc
                   (new_archive \<lparr>fa_rest = fa_written (ar_state a), fa_written = [], fa_room = 0\<rparr>) (map kind_of is)) = Some is)"
proof -
  let ?enc = "concat (map encode is)"
  obtain a where a: "put_items serialize_string_archive_write_bytes (serialize_string_archive_new []) is = (a, True)"
    "sa_string (ar_state a) = ?enc"
    using string_snk.put_items_open[of "serialize_string_archive_new []" "is"]
    by (auto simp: string_snk.open_for_def serialize_string_archive_new_def new_archive_def)
  have "string_src.ready (serialize_string_archive_new ?enc) (?enc @ [])"
    unfolding string_src.ready_def using len by (simp add: serialize_string_archive_new_def new_archive_def)
  from string_src.get_items_encode[OF this ok al] a(2)
  have s: "snd (get_items serialize_string_archive_read_bytes alloc (serialize_string_archive_new (sa_string (ar_state a)))
      (map kind_of is)) = Some is" by auto
  have "buffer_snk.open_for (length buff) (serialize_buffer_archive_new buff) (length ?enc)"
    unfolding buffer_snk.open_for_def using len by (simp add: serialize_buffer_archive_new_def new_archive_def)
  from buffer_snk.put_items_open[OF this]
  obtain b where b: "put_items serialize_buffer_archive_write_bytes (serialize_buffer_archive_new buff) is = (b, True)"
    "buffer_snk.open_for (length buff) b 0" "take (ba_pos (ar_state b)) (ba_buff (ar_state b)) = ?enc"
    by (auto simp: serialize_buffer_archive_new_def new_archive_def)
  have "buffer_src.ready (serialize_buffer_archive_new (ba_buff (ar_state b))) (?enc @ drop (ba_pos (ar_state b)) (ba_buff (ar_state b)))"
    using b(2) unfolding buffer_src.ready_def buffer_snk.open_for_def b(3)[symmetric]
    by (simp add: serialize_buffer_archive_new_def new_archive_def)
  from buffer_src.get_items_encode[OF this ok al]
  have t: "snd (get_items serialize_buffer_archive_read_bytes alloc (serialize_buffer_archive_new (ba_buff (ar_state b)))
      (map kind_of is)) = Some is" by auto
  let ?f = "new_archive \<lparr>fa_rest = [], fa_written = [], fa_room = room\<rparr>"
  have "file_snk.open_for ?f (length ?enc)" unfolding file_snk.open_for_def using len by (simp add: new_archive_def)
  from file_snk.put_items_open[OF this]
  obtain c where c: "put_items serialize_file_archive_write_bytes ?f is = (c, True)" "fa_written (ar_state c) = ?enc"
    by (auto simp: new_archive_def)
  have "file_src.ready (new_archive \<lparr>fa_rest = ?enc, fa_written = [], fa_room = 0\<rparr>) (?enc @ [])"
    unfolding file_src.ready_def by (simp add: new_archive_def)
  from file_src.get_items_encode[OF this ok al] c(2)
  have u: "snd (get_items serialize_file_archive_read_bytes alloc
      (new_archive \<lparr>fa_rest = fa_written (ar_state c), fa_written = [], fa_room = 0\<rparr>) (map kind_of is)) = Some is" by auto
  from a(1) s b(1) t c(1) u show ?thesis by simp
qed

lemma serialize_roundtrip_witness:
  "snd (get_items serialize_string_archive_read_bytes (\<lambda>n. True)
     (serialize_string_archive_new (sa_string (ar_state (fst (put_items serialize_string_archive_write_bytes
        (serialize_string_archive_new []) [SU16 7, SStr [1, 2]]))))) [KU16, KStr]) = Some [SU16 7, SStr [1, 2]]"
proof -
  have "length (concat (map encode [SU16 7, SStr [1, 2]])) \<le> length (replicate 8 (0 :: byte))"
    "length (replicate 8 (0 :: byte)) < 2 ^ 63" "length (concat (map encode [SU16 7, SStr [1, 2]])) \<le> 8" by simp_all
  from serialize_roundtrip[OF _ _ this, of "\<lambda>n. True"] show ?thesis by (simp add: case_prod_beta)
qed



end
