(* ===== verification/Str_Format.thy ===== *)
theory Str_Format
  imports Prelude
begin

text \<open>
  Formatting and scanning of numbers and timestamps (\<^verbatim>\<open>lib/str-format.c\<close>). The digits are produced in
  reverse into a fixed buffer and copied to the end of a padded field. A scanner works on the rest of
  the input (the pointer and the count \<^verbatim>\<open>left\<close> of the source): it returns the rest after what it
  consumed, also when it fails, and the scanned value.
\<close>

subsection \<open>Formatting\<close>

definition digits :: string where
  "digits = ''0123456789abcdef''"

definition gsize_dec :: "nat \<Rightarrow> nat" where
  "gsize_dec n = (n + (2 ^ 64 - 1)) mod 2 ^ 64"

text \<open>The loop that writes digits: \<open>first\<close> forces one digit, \<open>result_len\<close> is the room left in the buffer.\<close>

function rev_digits :: "nat \<Rightarrow> bool \<Rightarrow> nat \<Rightarrow> nat \<Rightarrow> string" where
  "rev_digits base first result_len value =
     (if first \<or> (result_len > 0 \<and> value > 0)
      then digits ! (value mod base) # rev_digits base False (gsize_dec result_len) (if base \<le> 1 then 0 else value div base)
      else [])"
  by pat_completeness auto
termination
  by (relation "measure (\<lambda>(base, first, result_len, value). (if first then 1 else 0) + value)")
     (auto split: if_splits intro: le_imp_less_Suc div_le_dividend div_less_dividend)

declare rev_digits.simps [simp del]

definition format_uint64_base10_rev :: "nat \<Rightarrow> bool \<Rightarrow> guint64 \<Rightarrow> string" where
  "format_uint64_base10_rev result_len sign value =
     (let negative = (sign \<and> sint value < 0);
          value = (if negative then - value else value);
          num = rev_digits 10 True result_len (unat value)
      in if negative \<and> (int result_len - int (length num)) mod 2 ^ 64 > 0 then num @ ''-'' else num)"

definition format_uint64_base16_rev :: "nat \<Rightarrow> guint64 \<Rightarrow> string" where
  "format_uint64_base16_rev result_len value = rev_digits 16 False result_len (unat value)"

definition format_uint32_base10_rev :: "nat \<Rightarrow> bool \<Rightarrow> guint32 \<Rightarrow> string" where
  "format_uint32_base10_rev result_len sign value =
     (let negative = (sign \<and> sint value < 0);
          value = (if negative then - value else value);
          num = rev_digits 10 True result_len (unat value)
      in if negative \<and> (int result_len - int (length num)) mod 2 ^ 64 > 0 then num @ ''-'' else num)"

definition format_uint32_base16_rev :: "nat \<Rightarrow> guint32 \<Rightarrow> string" where
  "format_uint32_base16_rev result_len value = rev_digits 16 True result_len (unat value)"

text \<open>The common part of \<^verbatim>\<open>format_padded_int64\<close> and \<^verbatim>\<open>format_padded_int32\<close>: append the field, give its
  length.\<close>

definition put_field :: "string \<Rightarrow> int \<Rightarrow> char \<Rightarrow> string \<Rightarrow> string \<times> int" where
  "put_field result field_len pad_char num =
     (let len = int (length num);
          field_len = (if field_len = 0 \<or> field_len < len then len else field_len)
      in (result @ replicate (nat (field_len - len)) pad_char @ rev num, field_len))"

definition format_padded_int64 :: "string \<Rightarrow> int \<Rightarrow> char \<Rightarrow> bool \<Rightarrow> nat \<Rightarrow> guint64 \<Rightarrow> string \<times> int" where
  "format_padded_int64 result field_len pad_char sign base value =
     (if base = 10 then put_field result field_len pad_char (format_uint64_base10_rev 64 sign value)
      else if base = 16 then put_field result field_len pad_char (format_uint64_base16_rev 64 value)
      else (result, 0))"

definition format_padded_int32 :: "string \<Rightarrow> int \<Rightarrow> char \<Rightarrow> bool \<Rightarrow> nat \<Rightarrow> guint32 \<Rightarrow> string \<times> int" where
  "format_padded_int32 result field_len pad_char sign base value =
     (if base = 10 then put_field result field_len pad_char (format_uint32_base10_rev 32 sign value)
      else if base = 16 then put_field result field_len pad_char (format_uint32_base16_rev 32 value)
      else (result, 0))"

definition format_uint64_padded :: "string \<Rightarrow> int \<Rightarrow> char \<Rightarrow> nat \<Rightarrow> guint64 \<Rightarrow> string \<times> int" where
  "format_uint64_padded result field_len pad_char base value = format_padded_int64 result field_len pad_char False base value"

definition format_int64_padded :: "string \<Rightarrow> int \<Rightarrow> char \<Rightarrow> nat \<Rightarrow> guint64 \<Rightarrow> string \<times> int" where
  "format_int64_padded result field_len pad_char base value = format_padded_int64 result field_len pad_char True base value"

definition format_uint32_padded :: "string \<Rightarrow> int \<Rightarrow> char \<Rightarrow> nat \<Rightarrow> guint32 \<Rightarrow> string \<times> int" where
  "format_uint32_padded result field_len pad_char base value = format_padded_int32 result field_len pad_char False base value"

definition format_int32_padded :: "string \<Rightarrow> int \<Rightarrow> char \<Rightarrow> nat \<Rightarrow> guint32 \<Rightarrow> string \<times> int" where
  "format_int32_padded result field_len pad_char base value = format_padded_int32 result field_len pad_char True base value"

subsection \<open>Scanning\<close>

type_synonym 'a scanner = "string \<Rightarrow> string \<times> 'a option"

fun scan_digits :: "nat \<Rightarrow> guint32 \<Rightarrow> guint32 scanner" where
  "scan_digits 0 result buf = (buf, Some result)"
| "scan_digits (Suc field_width) result [] = ([], None)"
| "scan_digits (Suc field_width) result (c # buf) =
     (if isdigit c then scan_digits field_width (result * 10 + of_nat (code c - 48)) buf
      else if isspace c then scan_digits field_width result buf
      else (c # buf, None))"

definition scan_uint32 :: "nat \<Rightarrow> guint32 scanner" where
  "scan_uint32 field_width buf = scan_digits field_width 0 buf"

definition scan_int :: "nat \<Rightarrow> int scanner" where
  "scan_int field_width buf = (case scan_uint32 field_width buf of (b, r) \<Rightarrow> (b, map_option sint r))"

definition scan_expect_char :: "char \<Rightarrow> unit scanner" where
  "scan_expect_char value buf =
     (case buf of [] \<Rightarrow> (buf, None) | c # cs \<Rightarrow> if c \<noteq> value then (buf, None) else (cs, Some ()))"

text \<open>The names of days and months: the first letter chooses a case of the \<^verbatim>\<open>switch\<close>; a text with a
  known first letter that is no name is accepted with the value -1.\<close>

definition scan_day_abbrev :: "int scanner" where
  "scan_day_abbrev buf =
     (let s = take 3 buf
      in if length buf < 3 then (buf, None)
         else if hd buf \<in> set ''SMTWF'' then
           (drop 3 buf, Some (if s = ''Sun'' then 0 else if s = ''Sat'' then 6 else if s = ''Mon'' then 1
              else if s = ''Tue'' then 2 else if s = ''Thu'' then 4 else if s = ''Wed'' then 3 else if s = ''Fri'' then 5 else - 1))
         else (buf, None))"

definition scan_month_abbrev :: "int scanner" where
  "scan_month_abbrev buf =
     (let s = take 3 buf
      in if length buf < 3 then (buf, None)
         else if hd buf \<in> set ''JFMASOND'' then
           (drop 3 buf, Some (if s = ''Jan'' then 0 else if s = ''Jun'' then 5 else if s = ''Jul'' then 6
              else if s = ''Feb'' then 1 else if s = ''Mar'' then 2 else if s = ''May'' then 4 else if s = ''Apr'' then 3
              else if s = ''Aug'' then 7 else if s = ''Sep'' then 8 else if s = ''Oct'' then 9 else if s = ''Nov'' then 10
              else if s = ''Dec'' then 11 else - 1))
         else (buf, None))"

record tm =
  tm_year :: int
  tm_mon :: int
  tm_mday :: int
  tm_hour :: int
  tm_min :: int
  tm_sec :: int

text \<open>The chains of \<^verbatim>\<open>||\<close>: the first scanner that fails ends the chain.\<close>

definition scan_then :: "'a scanner \<Rightarrow> ('a \<Rightarrow> 'b scanner) \<Rightarrow> 'b scanner" where
  "scan_then p f buf = (case p buf of (b, None) \<Rightarrow> (b, None) | (b, Some x) \<Rightarrow> f x b)"

definition scan_done :: "'a \<Rightarrow> 'a scanner" where
  "scan_done x buf = (buf, Some x)"

definition scan_hms :: "(int \<Rightarrow> int \<Rightarrow> int \<Rightarrow> 'b scanner) \<Rightarrow> 'b scanner" where
  "scan_hms f =
     scan_then (scan_int 2) (\<lambda>h. scan_then (scan_expect_char CHR '':'') (\<lambda>_.
     scan_then (scan_int 2) (\<lambda>m. scan_then (scan_expect_char CHR '':'') (\<lambda>_.
     scan_then (scan_int 2) (\<lambda>s. f h m s)))))"

definition scan_iso_timestamp :: "tm scanner" where
  "scan_iso_timestamp =
     scan_then (scan_int 4) (\<lambda>y. scan_then (scan_expect_char CHR ''-'') (\<lambda>_.
     scan_then (scan_int 2) (\<lambda>mo. scan_then (scan_expect_char CHR ''-'') (\<lambda>_.
     scan_then (scan_int 2) (\<lambda>d. scan_then (scan_expect_char CHR ''T'') (\<lambda>_.
     scan_hms (\<lambda>h m s. scan_done \<lparr>tm_year = y - 1900, tm_mon = mo - 1, tm_mday = d, tm_hour = h, tm_min = m, tm_sec = s\<rparr>)))))))"

definition scan_pix_timestamp :: "tm scanner" where
  "scan_pix_timestamp =
     scan_then scan_month_abbrev (\<lambda>mo. scan_then (scan_expect_char CHR '' '') (\<lambda>_.
     scan_then (scan_int 2) (\<lambda>d. scan_then (scan_expect_char CHR '' '') (\<lambda>_.
     scan_then (scan_int 4) (\<lambda>y. scan_then (scan_expect_char CHR '' '') (\<lambda>_.
     scan_hms (\<lambda>h m s. scan_done \<lparr>tm_year = y - 1900, tm_mon = mo, tm_mday = d, tm_hour = h, tm_min = m, tm_sec = s\<rparr>)))))))"

definition scan_linksys_timestamp :: "tm scanner" where
  "scan_linksys_timestamp =
     scan_then scan_month_abbrev (\<lambda>mo. scan_then (scan_expect_char CHR '' '') (\<lambda>_.
     scan_then (scan_int 2) (\<lambda>d. scan_then (scan_expect_char CHR '' '') (\<lambda>_.
     scan_hms (\<lambda>h m s. scan_then (scan_expect_char CHR '' '') (\<lambda>_.
     scan_then (scan_int 4) (\<lambda>y.
     scan_done \<lparr>tm_year = y - 1900, tm_mon = mo, tm_mday = d, tm_hour = h, tm_min = m, tm_sec = s\<rparr>)))))))"

text \<open>The year is left as it was.\<close>

definition scan_bsd_timestamp :: "int \<Rightarrow> tm scanner" where
  "scan_bsd_timestamp year =
     scan_then scan_month_abbrev (\<lambda>mo. scan_then (scan_expect_char CHR '' '') (\<lambda>_.
     scan_then (scan_int 2) (\<lambda>d. scan_then (scan_expect_char CHR '' '') (\<lambda>_.
     scan_hms (\<lambda>h m s. scan_done \<lparr>tm_year = year, tm_mon = mo, tm_mday = d, tm_hour = h, tm_min = m, tm_sec = s\<rparr>)))))"


subsection \<open>The digits\<close>

text \<open>The digits of a number without a bound on the buffer, least significant first.\<close>

fun rdigs :: "nat \<Rightarrow> nat \<Rightarrow> string" where
  "rdigs b v = (if b \<le> 1 \<or> v < b then [digits ! v] else digits ! (v mod b) # rdigs b (v div b))"

declare rdigs.simps [simp del]

lemma gsize_dec_Suc [simp]: "Suc n < 2 ^ 64 \<Longrightarrow> gsize_dec (Suc n) = n"
  by (simp add: gsize_dec_def)

lemma rev_digits_rdigs:
  assumes "2 \<le> b"
  shows "v < b ^ room \<Longrightarrow> room < 2 ^ 64 \<Longrightarrow> rev_digits b False room v = (if v = 0 then [] else rdigs b v)"
proof (induction room arbitrary: v)
  case 0
  then show ?case by (simp add: rev_digits.simps)
next
  case (Suc room)
  show ?case
  proof (cases "v = 0")
    case True
    then show ?thesis by (simp add: rev_digits.simps)
  next
    case False
    have "v div b < b ^ room" using Suc.prems(1) by (simp add: less_mult_imp_div_less mult.commute)
    then have "rev_digits b False room (v div b) = (if v div b = 0 then [] else rdigs b (v div b))"
      using Suc.IH[of "v div b"] Suc.prems(2) by simp
    moreover have "rev_digits b False (Suc room) v = digits ! (v mod b) # rev_digits b False room (v div b)"
      using False Suc.prems(2) assms by (subst rev_digits.simps) simp
    ultimately show ?thesis
      using False assms by (subst rdigs.simps) (auto simp: div_eq_0_iff)
  qed
qed

lemma rev_digits_first:
  assumes "2 \<le> b" "v < b ^ Suc room" "Suc room < 2 ^ 64"
  shows "rev_digits b True (Suc room) v = rdigs b v"
proof -
  have "v div b < b ^ room" using assms by (simp add: less_mult_imp_div_less mult.commute)
  then have "rev_digits b False room (v div b) = (if v div b = 0 then [] else rdigs b (v div b))"
    using rev_digits_rdigs[OF assms(1), of "v div b" room] assms(3) by simp
  then show ?thesis
    using assms by (subst rev_digits.simps, subst rdigs.simps) (auto simp: div_eq_0_iff)
qed

lemma rdigs_nonempty [simp]: "rdigs b v \<noteq> []"
  by (subst rdigs.simps) simp

lemma rdigs_length: "2 \<le> b \<Longrightarrow> v < b ^ Suc n \<Longrightarrow> length (rdigs b v) \<le> Suc n"
proof (induction n arbitrary: v)
  case 0
  then show ?case by (subst rdigs.simps) simp
next
  case (Suc n)
  have "v div b < b ^ Suc n" using Suc.prems by (simp add: less_mult_imp_div_less mult.commute)
  with Suc.IH[of "v div b"] Suc.prems show ?case by (subst rdigs.simps) auto
qed

lemma digit_char:
  assumes "d < 10"
  shows "isdigit (digits ! d)" "code (digits ! d) - 48 = d"
proof -
  from assms have "d = 0 \<or> d = 1 \<or> d = 2 \<or> d = 3 \<or> d = 4 \<or> d = 5 \<or> d = 6 \<or> d = 7 \<or> d = 8 \<or> d = 9"
    by (auto simp: numeral_eq_Suc less_Suc_eq)
  then have "isdigit (digits ! d) \<and> code (digits ! d) - 48 = d"
    by (elim disjE) (simp_all add: digits_def isdigit_def)
  then show "isdigit (digits ! d)" "code (digits ! d) - 48 = d" by simp_all
qed

lemma rdigs_isdigit: "\<forall>c \<in> set (rdigs 10 v). isdigit c"
proof (induction v rule: less_induct)
  case (less v)
  show ?case
  proof (cases "v < 10")
    case True
    then show ?thesis by (subst rdigs.simps) (simp add: digit_char)
  next
    case False
    then show ?thesis using less[of "v div 10"] by (subst rdigs.simps) (simp add: digit_char)
  qed
qed

definition dec_step :: "guint32 \<Rightarrow> char \<Rightarrow> guint32" where
  "dec_step r c = r * 10 + of_nat (code c - 48)"

lemma rdigs_value: "foldl dec_step 0 (rev (rdigs 10 v)) = of_nat v"
proof (induction v rule: less_induct)
  case (less v)
  show ?case
  proof (cases "v < 10")
    case True
    then show ?thesis by (subst rdigs.simps) (simp add: dec_step_def digit_char)
  next
    case False
    have "of_nat (v div 10) * 10 + of_nat (v mod 10) = (of_nat (v div 10 * 10 + v mod 10) :: guint32)"
      by (simp only: of_nat_add of_nat_mult of_nat_numeral)
    moreover have "foldl dec_step 0 (rev (rdigs 10 (v div 10))) = of_nat (v div 10)" using less[of "v div 10"] False by simp
    ultimately show ?thesis
      using False by (subst rdigs.simps) (simp only: rev.simps foldl_append foldl_Cons foldl_Nil, simp add: dec_step_def digit_char)
  qed
qed

lemma scan_digits_all:
  "\<forall>c \<in> set u. isdigit c \<Longrightarrow> scan_digits (length u + n) acc (u @ rest) = scan_digits n (foldl dec_step acc u) rest"
  by (induction u arbitrary: acc) (auto simp: dec_step_def)

lemma scan_digits_pad:
  assumes "pad = CHR ''0'' \<or> pad = CHR '' ''"
  shows "scan_digits (k + n) 0 (replicate k pad @ buf) = scan_digits n 0 buf"
  using assms by (induction k) (auto simp: isdigit_def isspace_def)

lemma uint32_room: "unat (v :: guint32) < 10 ^ Suc 31"
  using unsigned_less[of v, where 'a = nat] by simp

lemma uint32_rev: "format_uint32_base10_rev 32 False v = rdigs 10 (unat v)"
  using rev_digits_first[of 10 "unat v" 31] uint32_room[of v] by (simp add: format_uint32_base10_rev_def)

text \<open>A decimal field of at least \<open>w\<close> characters.\<close>

definition dec_field :: "nat \<Rightarrow> char \<Rightarrow> nat \<Rightarrow> string" where
  "dec_field w pad v = replicate (w - length (rdigs 10 v)) pad @ rev (rdigs 10 v)"

lemma length_dec_field: "length (dec_field w pad v) = max w (length (rdigs 10 v))"
  by (simp add: dec_field_def)

lemma format_uint32_dec:
  "format_uint32_padded result width pad 10 v = (result @ dec_field (nat width) pad (unat v), int (length (dec_field (nat width) pad (unat v))))"
proof -
  have "0 < length (rdigs 10 (unat v))" by simp
  then show ?thesis
    by (auto simp: format_uint32_padded_def format_padded_int32_def uint32_rev put_field_def dec_field_def Let_def nat_diff_distrib' not_less)
qed

lemma scan_dec_field:
  assumes "pad = CHR ''0'' \<or> pad = CHR '' ''" "n = length (dec_field w pad v)"
  shows "scan_uint32 n (dec_field w pad v @ rest) = (rest, Some (of_nat v))"
proof -
  let ?d = "rdigs 10 v"
  have n: "n = (w - length ?d) + (length (rev ?d) + 0)" using assms(2) by (simp add: dec_field_def)
  have "scan_uint32 n (dec_field w pad v @ rest) = scan_digits (length (rev ?d) + 0) 0 (rev ?d @ rest)"
    unfolding scan_uint32_def dec_field_def n append_assoc by (rule scan_digits_pad[OF assms(1)])
  also have "\<dots> = (rest, Some (foldl dec_step 0 (rev ?d)))"
    using scan_digits_all[of "rev ?d" 0 0 rest] rdigs_isdigit[of v] by simp
  finally show ?thesis by (simp add: rdigs_value)
qed

lemma scan_int_dec_field:
  assumes "pad = CHR ''0'' \<or> pad = CHR '' ''" "v < 10 ^ w" "0 < w" "v < 2 ^ 31"
  shows "scan_int w (dec_field w pad v @ rest) = (rest, Some (int v))"
proof -
  have "length (rdigs 10 v) \<le> Suc (w - 1)" using rdigs_length[of 10 v "w - 1"] assms by simp
  then have "w = length (dec_field w pad v)" using assms(3) by (simp add: length_dec_field)
  from scan_dec_field[OF assms(1) this, of rest] show ?thesis
    using assms(4) by (simp add: scan_int_def signed_of_nat signed_take_bit_int_eq_self)
qed

subsection \<open>Properties\<close>

text \<open>C33: Numbers survive formatting and scanning. A 32-bit number formatted in decimal with zero or blank
  padding, for any field width, is scanned back from the field, whatever follows it, and the scanner
  consumes exactly the field.\<close>

theorem format_scan_uint32_roundtrip:
  assumes "pad = CHR ''0'' \<or> pad = CHR '' ''"
  shows "case format_uint32_padded result width pad 10 v of (s, n) \<Rightarrow>
    \<exists>field. s = result @ field \<and> int (length field) = n \<and> width \<le> n \<and> scan_uint32 (nat n) (field @ rest) = (rest, Some v)"
  using scan_dec_field[OF assms refl, of "nat width" "unat v" rest] by (auto simp: format_uint32_dec length_dec_field)

lemma format_scan_uint32_roundtrip_witness:
  "\<exists>field. fst (format_uint32_padded [] 4 CHR ''0'' 10 7) = field \<and> scan_uint32 (length field) (field @ ''x'') = (''x'', Some 7)"
  using format_scan_uint32_roundtrip[where pad = "CHR ''0''" and result = "[]" and width = 4 and v = 7 and rest = "''x''"]
  by (auto simp: case_prod_beta) (metis nat_int)


lemma rdigs_nat_value: "foldl (\<lambda>r c. r * 10 + digit_value c) 0 (rev (rdigs 10 v)) = v"
proof (induction v rule: less_induct)
  case (less v)
  show ?case
  proof (cases "v < 10")
    case True
    then show ?thesis by (subst rdigs.simps) (simp add: digit_value_def digit_char)
  next
    case False
    then show ?thesis using less[of "v div 10"] by (subst rdigs.simps) (simp add: digit_value_def digit_char)
  qed
qed

lemma rdigs_no_leading_zero: "0 < v \<Longrightarrow> last (rdigs 10 v) \<noteq> CHR ''0''"
proof (induction v rule: less_induct)
  case (less v)
  show ?case
  proof (cases "v < 10")
    case True
    then show ?thesis using digit_char(2)[of v] less.prems by (subst rdigs.simps) auto
  next
    case False
    then show ?thesis using less.IH[of "v div 10"] by (subst rdigs.simps) simp
  qed
qed

lemma unat_negated:
  fixes v :: guint64
  assumes "sint v < 0"
  shows "unat (- v) = nat \<bar>sint v\<bar>"
proof -
  have neg: "word_of_int (- sint v) = - v" by simp
  have "uint (- v) = (- sint v) mod 2 ^ 64" using uint_word_of_int[of "- sint v", where 'a = 64] unfolding neg by simp
  also have "\<dots> = - sint v" using assms sint_greater_eq[of v] by (intro mod_pos_pos_trivial) auto
  finally show ?thesis using assms by (simp add: unat_eq_nat_uint)
qed

lemma unat_positive:
  fixes v :: guint64
  assumes "\<not> sint v < 0"
  shows "unat v = nat \<bar>sint v\<bar>"
proof -
  have "uint v = sint v mod 2 ^ 64" using uint_word_of_int[of "sint v", where 'a = 64] by simp
  also have "\<dots> = sint v" using assms sint_less[of v] by (intro mod_pos_pos_trivial) auto
  finally show ?thesis using assms by (simp add: unat_eq_nat_uint)
qed

lemma int64_rev:
  "format_uint64_base10_rev 64 True v = rdigs 10 (nat \<bar>sint v\<bar>) @ (if sint v < 0 then ''-'' else [])"
proof -
  have room: "w < 10 ^ Suc 63" if "w < 2 ^ 64" for w :: nat using that by simp
  have lt: "unat w < 2 ^ 64" for w :: guint64 using unsigned_less[of w, where 'a = nat] by simp
  have digs: "rev_digits 10 True 64 (unat w) = rdigs 10 (unat w)" for w :: guint64
    using rev_digits_first[of 10 "unat w" 63] room[OF lt, of w] by simp
  have "w < 10 ^ Suc 19" if "w < 2 ^ 64" for w :: nat using that by simp
  then have len: "length (rdigs 10 (unat w)) \<le> 20" for w :: guint64 using rdigs_length[of 10 "unat w" 19] lt[of w] by simp
  have "0 < (64 - int (length (rdigs 10 (unat w)))) mod 2 ^ 64" for w :: guint64
    using len[of w] by (subst mod_pos_pos_trivial) auto
  then show ?thesis
    by (simp add: format_uint64_base10_rev_def digs unat_negated unat_positive Let_def del: minus_mod_int_eq)
qed

text \<open>C34: Signed numbers are written correctly. The 64-bit decimal formatter appends the padding, a minus
  sign exactly for negative numbers, and the decimal digits of the absolute value without superfluous zeros,
  also for the smallest number, whose absolute value has no signed representation; it reports the length
  of what it appended, which is the field width whenever there is padding and never less.\<close>

theorem format_int64_padded_correct:
  "\<exists>pads sign d. format_int64_padded result width pad 10 v = (result @ pads @ sign @ d, int (length (pads @ sign @ d))) \<and>
    set pads \<subseteq> {pad} \<and> sign = (if sint v < 0 then ''-'' else []) \<and> (\<forall>c \<in> set d. isdigit c) \<and>
    int (foldl (\<lambda>r c. r * 10 + digit_value c) 0 d) = \<bar>sint v\<bar> \<and> (d = ''0'' \<or> hd d \<noteq> CHR ''0'') \<and>
    width \<le> int (length (pads @ sign @ d)) \<and> (pads = [] \<or> int (length (pads @ sign @ d)) = width)"
proof -
  define a where "a = nat \<bar>sint v\<bar>"
  define sign where "sign = (if sint v < 0 then ''-'' else [])"
  define pads where "pads = replicate (nat (width - int (length (sign @ rev (rdigs 10 a))))) pad"
  have "format_int64_padded result width pad 10 v = put_field result width pad (rdigs 10 a @ sign)"
    by (simp add: format_int64_padded_def format_padded_int64_def int64_rev a_def sign_def)
  also have "\<dots> = (result @ pads @ sign @ rev (rdigs 10 a), int (length (pads @ sign @ rev (rdigs 10 a))))"
    by (auto simp: put_field_def pads_def sign_def Let_def)
  finally have "format_int64_padded result width pad 10 v = (result @ pads @ sign @ rev (rdigs 10 a), int (length (pads @ sign @ rev (rdigs 10 a))))" .
  moreover have "rev (rdigs 10 a) = ''0'' \<or> hd (rev (rdigs 10 a)) \<noteq> CHR ''0''"
  proof (cases "a = 0")
    case True
    then have "rdigs 10 a = ''0''" by (subst rdigs.simps) (simp add: digits_def)
    then show ?thesis by simp
  next
    case False
    then show ?thesis using rdigs_no_leading_zero[of a] by (simp add: hd_rev)
  qed
  moreover have "\<forall>c \<in> set (rev (rdigs 10 a)). isdigit c" using rdigs_isdigit by simp
  moreover have "int (foldl (\<lambda>r c. r * 10 + digit_value c) 0 (rev (rdigs 10 a))) = \<bar>sint v\<bar>" by (simp only: rdigs_nat_value) (simp add: a_def)
  ultimately show ?thesis 
    by (intro exI[of _ pads] exI[of _ sign] exI[of _ "rev (rdigs 10 a)"]) (auto simp: pads_def sign_def)
qed


lemma format_int64_padded_correct_witness:
  "\<exists>pads d. fst (format_int64_padded ''x'' 6 CHR '' '' 10 (- 5)) = ''x'' @ pads @ ''-'' @ d \<and> int (foldl (\<lambda>r c. r * 10 + digit_value c) 0 d) = 5"
proof -
  have neg: "sint (- 5 :: guint64) = - 5" by simp
  obtain pads sign d where f: "format_int64_padded ''x'' 6 CHR '' '' 10 (- 5) = (''x'' @ pads @ sign @ d, int (length (pads @ sign @ d)))"
    "sign = (if sint (- 5 :: guint64) < 0 then ''-'' else [])" "int (foldl (\<lambda>r c. r * 10 + digit_value c) 0 d) = \<bar>sint (- 5 :: guint64)\<bar>"
    using format_int64_padded_correct[of "''x''" 6 "CHR '' ''" "- 5"] by blast
  then show ?thesis unfolding neg by (intro exI[of _ pads] exI[of _ d]) simp
qed

end
