(* ===== verification/Time_Zone.thy ===== *)
theory Time_Zone
  imports Serialize Str_Format
begin

text \<open>
  The time zone part of \<^verbatim>\<open>lib/timeutils.c\<close>: the parser of compiled zone files, the lookup of the
  offset in force at a time, with its memory of the last position, and the zone specifications of the
  configuration. The file is a list of bytes. The parser does not know its length: a read past the
  end, and the \<^verbatim>\<open>g_assert_not_reached\<close> of a bad value, are \<open>Crash\<close>; a \<^verbatim>\<open>goto error\<close> is \<open>Fail\<close>, with
  what is left of the input.
\<close>

subsection \<open>Reading coded values\<close>

datatype 'a tz_result = Crash | Fail "byte list" | Got 'a "byte list"

type_synonym 'a tz_reader = "byte list \<Rightarrow> 'a tz_result"

definition tz_then :: "'a tz_reader \<Rightarrow> ('a \<Rightarrow> 'b tz_reader) \<Rightarrow> 'b tz_reader" where
  "tz_then p f input = (case p input of Crash \<Rightarrow> Crash | Fail r \<Rightarrow> Fail r | Got x r \<Rightarrow> f x r)"

definition tz_bytes :: "nat \<Rightarrow> byte list tz_reader" where
  "tz_bytes n input = (if length input < n then Crash else Got (take n input) (drop n input))"

text \<open>\<^verbatim>\<open>*input += n\<close>: a move past the end is noticed by the next read.\<close>

definition tz_skip :: "nat \<Rightarrow> unit tz_reader" where
  "tz_skip n input = Got () (drop n input)"

definition readcoded32 :: "int \<Rightarrow> int \<Rightarrow> int tz_reader" where
  "readcoded32 minv maxv = tz_then (tz_bytes 4) (\<lambda>buf rest.
     let val = sint (be_value buf :: guint32) in if val < minv \<or> val > maxv then Crash else Got val rest)"

definition readcoded64 :: "int \<Rightarrow> int \<Rightarrow> int tz_reader" where
  "readcoded64 minv maxv = tz_then (tz_bytes 8) (\<lambda>buf rest.
     let val = sint (be_value buf :: guint64) in if val < minv \<or> val > maxv then Crash else Got val rest)"

definition readbool :: "bool tz_reader" where
  "readbool = tz_then (tz_bytes 1) (\<lambda>buf rest. let c = hd buf in if c \<noteq> 0 \<and> c \<noteq> 1 then Crash else Got (c \<noteq> 0) rest)"

definition readchar :: "guint8 tz_reader" where
  "readchar = tz_then (tz_bytes 1) (\<lambda>buf rest. Got (hd buf) rest)"

text \<open>A loop that reads \<open>n\<close> values.\<close>

fun tz_repeat :: "nat \<Rightarrow> 'a tz_reader \<Rightarrow> 'a list tz_reader" where
  "tz_repeat 0 p = (\<lambda>input. Got [] input)"
| "tz_repeat (Suc n) p = tz_then p (\<lambda>x. tz_then (tz_repeat n p) (\<lambda>xs. Got (x # xs)))"

subsection \<open>The zone file parser\<close>

definition G_MININT64 :: int where
  "G_MININT64 = - (2 ^ 63)"

definition G_MAXINT64 :: int where
  "G_MAXINT64 = 2 ^ 63 - 1"

definition LOWEST_TIME32 :: int where
  "LOWEST_TIME32 = - (2 ^ 31)"

record transition =
  tr_time :: int
  tr_gmtoffset :: int

record zone_info =
  zi_transitions :: "transition list"
  zi_timecnt :: int
  zi_last_index :: int

definition zone_info_new :: "nat \<Rightarrow> zone_info" where
  "zone_info_new timecnt = \<lparr>zi_transitions = replicate timecnt \<lparr>tr_time = 0, tr_gmtoffset = 0\<rparr>,
     zi_timecnt = int timecnt, zi_last_index = -1\<rparr>"

definition read_transition_type :: "int \<Rightarrow> nat tz_reader" where
  "read_transition_type typecnt = tz_then readchar (\<lambda>t rest. if int (unat t) \<ge> typecnt then Fail rest else Got (unat t) rest)"

definition read_type :: "int tz_reader" where
  "read_type = tz_then (readcoded32 G_MININT64 G_MAXINT64) (\<lambda>ofs.
     if ofs > 24 * 60 * 60 \<or> ofs < - 1 * 24 * 60 * 60 then Fail
     else tz_then readbool (\<lambda>_. tz_then readchar (\<lambda>_. Got ofs)))"

text \<open>The magic and the version byte; the version of a file without the magic is never set.\<close>

definition read_header :: "nat tz_reader" where
  "read_header = tz_then (tz_bytes 4) (\<lambda>magic.
     if magic \<noteq> map (\<lambda>c. of_nat (code c)) ''TZif'' then Fail
     else tz_then (tz_bytes 1) (\<lambda>v.
       if hd v \<noteq> 0 \<and> hd v \<noteq> of_nat (code CHR ''2'') then Fail
       else tz_then (tz_skip 15) (\<lambda>_. Got (if hd v \<noteq> 0 then 2 else 0))))"

text \<open>The loop of the 64-bit part: transitions before the 32-bit minimum are left out and the index of
  the latest of them is kept.\<close>

fun pick_minidx :: "nat \<Rightarrow> int list \<Rightarrow> nat option \<Rightarrow> int list \<Rightarrow> nat option" where
  "pick_minidx i tms minidx [] = minidx"
| "pick_minidx i tms minidx (t # ts) =
     pick_minidx (Suc i) tms
       (if t < LOWEST_TIME32 \<and> (case minidx of None \<Rightarrow> True | Some m \<Rightarrow> t > tms ! m) then Some i else minidx) ts"

definition zero_transition :: transition where
  "zero_transition = \<lparr>tr_time = 0, tr_gmtoffset = 0\<rparr>"

definition build_transitions64 :: "int list \<Rightarrow> nat list \<Rightarrow> int list \<Rightarrow> zone_info" where
  "build_transitions64 tms types offsets =
     (let timecnt = length tms;
          kept = filter (\<lambda>tr. tr_time tr \<ge> LOWEST_TIME32)
                   (map2 (\<lambda>t ty. \<lparr>tr_time = t, tr_gmtoffset = offsets ! ty\<rparr>) tms types);
          arr = kept @ replicate (timecnt - length kept) zero_transition
      in case pick_minidx 0 tms None tms of
           Some m \<Rightarrow> \<lparr>zi_transitions = \<lparr>tr_time = LOWEST_TIME32, tr_gmtoffset = offsets ! (types ! m)\<rparr> # take (timecnt - 1) arr,
                      zi_timecnt = int timecnt - int m, zi_last_index = -1\<rparr>
         | None \<Rightarrow> \<lparr>zi_transitions = \<lparr>tr_time = LOWEST_TIME32, tr_gmtoffset = offsets ! 0\<rparr> # arr,
                    zi_timecnt = int timecnt + 1, zi_last_index = -1\<rparr>)"

definition build_transitions :: "bool \<Rightarrow> int list \<Rightarrow> nat list \<Rightarrow> int list \<Rightarrow> zone_info" where
  "build_transitions is64 tms types offsets =
     (if tms = [] then
        (if offsets \<noteq> [] then (zone_info_new 1)\<lparr>zi_transitions := [\<lparr>tr_time = LOWEST_TIME32, tr_gmtoffset = offsets ! 0\<rparr>]\<rparr>
         else zone_info_new 0)
      else if is64 then build_transitions64 tms types offsets
      else (zone_info_new (length tms))\<lparr>zi_transitions :=
             map2 (\<lambda>t ty. \<lparr>tr_time = t, tr_gmtoffset = offsets ! ty\<rparr>) tms types\<rparr>)"

definition read_leap :: "bool \<Rightarrow> int tz_reader" where
  "read_leap is64 = tz_then (if is64 then readcoded64 G_MININT64 G_MAXINT64 else readcoded32 G_MININT64 G_MAXINT64)
     (\<lambda>_. readcoded32 G_MININT64 G_MAXINT64)"

definition zone_info_parser :: "bool \<Rightarrow> (zone_info \<times> nat) tz_reader" where
  "zone_info_parser is64bitData =
     tz_then read_header (\<lambda>version.
     tz_then (readcoded32 0 G_MAXINT64) (\<lambda>isgmtcnt. tz_then (readcoded32 0 G_MAXINT64) (\<lambda>isdstcnt.
     tz_then (readcoded32 0 G_MAXINT64) (\<lambda>leapcnt. tz_then (readcoded32 0 G_MAXINT64) (\<lambda>timecnt.
     tz_then (readcoded32 0 G_MAXINT64) (\<lambda>typecnt. tz_then (readcoded32 0 G_MAXINT64) (\<lambda>charcnt.
     tz_then (tz_repeat (nat timecnt) (if is64bitData then readcoded64 G_MININT64 G_MAXINT64
                                       else readcoded32 G_MININT64 G_MAXINT64)) (\<lambda>tms.
     tz_then (tz_repeat (nat timecnt) (read_transition_type typecnt)) (\<lambda>types.
     tz_then (tz_repeat (nat typecnt) read_type) (\<lambda>offsets.
     tz_then (tz_skip (nat charcnt)) (\<lambda>_.
     tz_then (tz_repeat (nat leapcnt) (read_leap is64bitData)) (\<lambda>_.
     tz_then (tz_repeat (nat typecnt) readbool) (\<lambda>_.
     tz_then (tz_repeat (nat typecnt) readbool) (\<lambda>_.
     Got (build_transitions is64bitData tms types offsets, version)))))))))))))))"

subsection \<open>The offset at a time\<close>

text \<open>The linear search; \<open>timecnt - 1\<close> when no pair of neighbours encloses the time.\<close>

function find_transition :: "transition list \<Rightarrow> int \<Rightarrow> int \<Rightarrow> int \<Rightarrow> int" where
  "find_transition trs timecnt timestamp i =
     (if i < timecnt - 1 then
        (if tr_time (trs ! nat i) < timestamp \<and> tr_time (trs ! nat (i + 1)) > timestamp then i
         else find_transition trs timecnt timestamp (i + 1))
      else i)"
  by pat_completeness auto
termination
  by (relation "measure (\<lambda>(trs, timecnt, timestamp, i). nat (timecnt - i))") auto

declare find_transition.simps [simp del]

definition zone_info_get_offset :: "zone_info \<Rightarrow> int \<Rightarrow> int \<times> zone_info" where
  "zone_info_get_offset self timestamp =
     (let trs = zi_transitions self; last_i = zi_last_index self
      in if trs = [] then (0, self)
         else if last_i \<noteq> -1 \<and> last_i < zi_timecnt self - 1 \<and>
                 tr_time (trs ! nat last_i) < timestamp \<and> tr_time (trs ! nat (last_i + 1)) > timestamp
         then (tr_gmtoffset (trs ! nat last_i), self)
         else let i = find_transition trs (zi_timecnt self) timestamp 0
              in (tr_gmtoffset (trs ! nat i), self\<lparr>zi_last_index := i\<rparr>))"

subsection \<open>Zone specifications\<close>

record time_zone_info =
  tz_zone :: "zone_info option"
  tz_zone64 :: "zone_info option"
  tz_zone_offset :: int

definition time_zone_info_get_offset :: "time_zone_info option \<Rightarrow> int \<Rightarrow> int \<times> time_zone_info option" where
  "time_zone_info_get_offset self stamp =
     (case self of
        None \<Rightarrow> (-1, None)
      | Some z \<Rightarrow>
          if tz_zone_offset z \<noteq> -1 then (tz_zone_offset z, self)
          else case tz_zone64 z of
                 Some zi \<Rightarrow> let (ofs, zi') = zone_info_get_offset zi stamp in (ofs, Some (z\<lparr>tz_zone64 := Some zi'\<rparr>))
               | None \<Rightarrow>
                   (case tz_zone z of
                      Some zi \<Rightarrow> let (ofs, zi') = zone_info_get_offset zi stamp in (ofs, Some (z\<lparr>tz_zone := Some zi'\<rparr>))
                    | None \<Rightarrow> (-1, self)))"

text \<open>\<^verbatim>\<open>zone_info_read\<close> with the contents of the zone file; \<open>None\<close> is a crash, or the use of the version
  of a file whose header was not recognised, which is uninitialised. A failure after the header leaves
  the version set: 32-bit data that is bad is skipped and the parser goes on from where it stopped.\<close>

definition read_version :: "byte list \<Rightarrow> nat option" where
  "read_version input = (case read_header input of Got v r \<Rightarrow> Some v | _ \<Rightarrow> None)"

definition zone_info_read :: "byte list \<Rightarrow> (zone_info option \<times> zone_info option) option" where
  "zone_info_read buff =
     (case zone_info_parser False buff of
        Crash \<Rightarrow> None
      | Fail rest \<Rightarrow>
          (case read_version buff of
             None \<Rightarrow> None
           | Some version \<Rightarrow>
               if version = 2 then (case zone_info_parser True rest of Crash \<Rightarrow> None | Fail _ \<Rightarrow> Some (None, None)
                                    | Got (z, _) _ \<Rightarrow> Some (None, Some z))
               else Some (None, None))
      | Got (z, version) rest \<Rightarrow>
          if version = 2 then (case zone_info_parser True rest of Crash \<Rightarrow> None | Fail _ \<Rightarrow> Some (Some z, None)
                               | Got (z64, _) _ \<Rightarrow> Some (Some z, Some z64))
          else Some (Some z, None))"

text \<open>\<open>file\<close> gives the contents of the zone file of a name, if it can be opened. The outer option is a
  crash of the parser, the inner one the \<^verbatim>\<open>NULL\<close> of a bad specification.\<close>

definition time_zone_info_new :: "(string \<Rightarrow> byte list option) \<Rightarrow> string option \<Rightarrow> time_zone_info option option" where
  "time_zone_info_new file tz =
     (let self = \<lparr>tz_zone = None, tz_zone64 = None, tz_zone_offset = -1\<rparr>
      in case tz of
           None \<Rightarrow> Some (Some self)
         | Some s \<Rightarrow>
             if s \<noteq> [] \<and> (hd s = CHR ''+'' \<or> hd s = CHR ''-'') \<and> length s = 6 \<and> isdigit (s ! 1) \<and> isdigit (s ! 2) \<and>
                s ! 3 = CHR '':'' \<and> isdigit (s ! 4) \<and> isdigit (s ! 5)
             then let sign = (if hd s = CHR ''-'' then - 1 else 1);
                      hours = int (digit_value (s ! 1)) * 10 + int (digit_value (s ! 2));
                      mins = int (digit_value (s ! 4)) * 10 + int (digit_value (s ! 5))
                  in if (hours < 24 \<and> mins \<le> 60) \<or> (hours = 24 \<and> mins = 0)
                     then Some (Some (self\<lparr>tz_zone_offset := sign * (hours * 3600 + mins * 60)\<rparr>))
                     else Some None
             else case file s of
                    None \<Rightarrow> Some None
                  | Some buff \<Rightarrow>
                      (case zone_info_read buff of
                         None \<Rightarrow> None
                       | Some (z, z64) \<Rightarrow> Some (Some (self\<lparr>tz_zone := z, tz_zone64 := z64\<rparr>))))"

text \<open>\<^verbatim>\<open>%c%02ld:%02ld\<close> into a buffer of \<open>buflen\<close> bytes, and the length the whole text would have.\<close>

definition printf_02ld :: "nat \<Rightarrow> string" where
  "printf_02ld n = (let d = rev (rdigs 10 n) in if length d < 2 then CHR ''0'' # d else d)"

definition format_zone_info :: "nat \<Rightarrow> int \<Rightarrow> string \<times> nat" where
  "format_zone_info buflen gmtoff =
     (let a = nat \<bar>gmtoff\<bar>;
          s = (if gmtoff < 0 then CHR ''-'' else CHR ''+'') # printf_02ld (a div 3600) @ CHR '':'' # printf_02ld (a mod 3600 div 60)
      in (take (buflen - 1) s, length s))"


subsection \<open>Lookup\<close>

definition encloses :: "transition list \<Rightarrow> int \<Rightarrow> nat \<Rightarrow> bool" where
  "encloses trs ts j \<longleftrightarrow> tr_time (trs ! j) < ts \<and> ts < tr_time (trs ! Suc j)"

lemma find_transition_found:
  assumes "i \<le> k" "Suc k < n" "encloses trs ts k" "\<And>j. i \<le> j \<Longrightarrow> j < k \<Longrightarrow> \<not> encloses trs ts j"
  shows "find_transition trs (int n) ts (int i) = int k"
  using assms
proof (induction "k - i" arbitrary: i)
  case 0
  then show ?case by (subst find_transition.simps) (auto simp: encloses_def nat_add_distrib)
next
  case (Suc d)
  have "\<not> encloses trs ts i" using Suc.prems(4)[of i] Suc.hyps(2) by simp
  moreover have "find_transition trs (int n) ts (int (Suc i)) = int k"
    by (rule Suc.hyps(1)) (use Suc.hyps(2) Suc.prems in auto)
  moreover have "int i < int n - 1" using Suc.hyps(2) Suc.prems(2) by linarith
  ultimately show ?case by (subst find_transition.simps) (auto simp: encloses_def nat_add_distrib add.commute)
qed

lemma find_transition_none:
  assumes "Suc i \<le> n" "\<And>j. i \<le> j \<Longrightarrow> Suc j < n \<Longrightarrow> \<not> encloses trs ts j"
  shows "find_transition trs (int n) ts (int i) = int (n - 1)"
  using assms
proof (induction "n - i" arbitrary: i)
  case (Suc d)
  show ?case
  proof (cases "Suc i < n")
    case True
    then have "\<not> encloses trs ts i" using Suc.prems(2)[of i] by simp
    moreover have "find_transition trs (int n) ts (int (Suc i)) = int (n - 1)"
      by (rule Suc.hyps(1)) (use Suc.hyps(2) Suc.prems True in auto)
    moreover have "int i < int n - 1" using True by linarith
    ultimately show ?thesis by (subst find_transition.simps) (auto simp: encloses_def nat_add_distrib add.commute)
  next
    case False
    with Suc.prems(1) have "n = Suc i" by simp
    then show ?thesis by (subst find_transition.simps) simp
  qed
qed simp

lemma sorted_times_split:
  assumes "sorted_wrt (<) (map tr_time trs)"
  shows "\<exists>n \<le> length trs. filter (\<lambda>t. tr_time t \<le> ts) trs = take n trs \<and> (\<forall>j < n. tr_time (trs ! j) \<le> ts) \<and>
    (\<forall>j. n \<le> j \<and> j < length trs \<longrightarrow> ts < tr_time (trs ! j))"
  using assms
proof (induction trs)
  case (Cons a trs)
  then obtain n where n: "n \<le> length trs" "filter (\<lambda>t. tr_time t \<le> ts) trs = take n trs" "\<forall>j < n. tr_time (trs ! j) \<le> ts"
    "\<forall>j. n \<le> j \<and> j < length trs \<longrightarrow> ts < tr_time (trs ! j)" by auto
  have above: "tr_time a < tr_time t" if "t \<in> set trs" for t using Cons.prems that by auto
  show ?case
  proof (cases "tr_time a \<le> ts")
    case True
    with n show ?thesis by (intro exI[of _ "Suc n"]) (auto simp: nth_Cons split: nat.splits)
  next
    case False
    with above have "\<forall>t \<in> set trs. ts < tr_time t" by force
    with False show ?thesis by (intro exI[of _ 0]) (auto simp: nth_Cons filter_empty_conv split: nat.splits)
  qed
qed simp

lemma encloses_unique:
  assumes "sorted_wrt (<) (map tr_time trs)" "Suc j < length trs" "Suc k < length trs" "encloses trs ts j" "encloses trs ts k"
  shows "j = k"
proof (rule ccontr)
  assume "j \<noteq> k"
  have lt: "tr_time (trs ! a) < tr_time (trs ! b)" if "a < b" "b < length trs" for a b
    using sorted_wrt_nth_gap[OF assms(1), of a b] that by simp
  have le: "tr_time (trs ! a) \<le> tr_time (trs ! b)" if "a \<le> b" "b < length trs" for a b
    using lt[of a b] that by (cases "a = b") auto
  from \<open>j \<noteq> k\<close> consider "Suc j \<le> k" | "Suc k \<le> j" by linarith
  then show False
    by cases (use assms le[of "Suc j" k] le[of "Suc k" j] in \<open>auto simp: encloses_def\<close>)
qed

text \<open>The states a zone goes through: the transitions in strict order, the remembered index unset or in
  range.\<close>

definition zone_wf :: "zone_info \<Rightarrow> bool" where
  "zone_wf z \<longleftrightarrow> sorted_wrt (<) (map tr_time (zi_transitions z)) \<and> zi_transitions z \<noteq> [] \<and>
     zi_timecnt z = int (length (zi_transitions z)) \<and> -1 \<le> zi_last_index z \<and> zi_last_index z < zi_timecnt z"

text \<open>The offset found, whatever was remembered: that of the enclosing interval, else the last.\<close>

lemma zone_info_get_offset_enclosed:
  assumes wf: "zone_wf z" and k: "Suc k < length (zi_transitions z)" "encloses (zi_transitions z) ts k"
  shows "fst (zone_info_get_offset z ts) = tr_gmtoffset (zi_transitions z ! k)" "zone_wf (snd (zone_info_get_offset z ts))"
proof -
  let ?trs = "zi_transitions z"
  have uniq: "j = k" if "Suc j < length ?trs" "encloses ?trs ts j" for j
    using encloses_unique[of ?trs j k ts] wf that k by (simp add: zone_wf_def)
  have find: "find_transition ?trs (zi_timecnt z) ts 0 = int k"
  proof -
    have "\<not> encloses ?trs ts j" if "0 \<le> j" "j < k" for j using uniq[of j] that k by linarith
    from find_transition_found[OF le0[of k] k this] show ?thesis using wf by (simp add: zone_wf_def)
  qed
  have hit: "nat (zi_last_index z) = k"
    if "zi_last_index z \<noteq> -1" "zi_last_index z < zi_timecnt z - 1" "tr_time (?trs ! nat (zi_last_index z)) < ts"
      "ts < tr_time (?trs ! nat (zi_last_index z + 1))"
    using uniq[of "nat (zi_last_index z)"] that wf by (auto simp: zone_wf_def encloses_def nat_add_distrib)
  show "fst (zone_info_get_offset z ts) = tr_gmtoffset (?trs ! k)"
    unfolding zone_info_get_offset_def Let_def find using wf hit by (auto simp: zone_wf_def)
  show "zone_wf (snd (zone_info_get_offset z ts))"
    unfolding zone_info_get_offset_def Let_def find using wf k by (auto simp: zone_wf_def)
qed

lemma zone_info_get_offset_none:
  assumes wf: "zone_wf z" and none: "\<And>j. Suc j < length (zi_transitions z) \<Longrightarrow> \<not> encloses (zi_transitions z) ts j"
  shows "fst (zone_info_get_offset z ts) = tr_gmtoffset (last (zi_transitions z))" "zone_wf (snd (zone_info_get_offset z ts))"
proof -
  let ?trs = "zi_transitions z"
  have find: "find_transition ?trs (zi_timecnt z) ts 0 = int (length ?trs - 1)"
    using find_transition_none[of 0 "length ?trs" ?trs ts] none wf by (auto simp: zone_wf_def Suc_le_eq)
  have nohit: "\<not> (zi_last_index z \<noteq> -1 \<and> zi_last_index z < zi_timecnt z - 1 \<and> tr_time (?trs ! nat (zi_last_index z)) < ts \<and>
      tr_time (?trs ! nat (zi_last_index z + 1)) > ts)"
    using none[of "nat (zi_last_index z)"] wf by (auto simp: zone_wf_def encloses_def nat_add_distrib)
  have "zone_info_get_offset z ts = (tr_gmtoffset (?trs ! (length ?trs - 1)), z\<lparr>zi_last_index := int (length ?trs - 1)\<rparr>)"
    unfolding zone_info_get_offset_def Let_def find using nohit wf by (auto simp: zone_wf_def)
  moreover have "int (length ?trs - 1) < int (length ?trs)" using wf by (simp add: zone_wf_def)
  ultimately show "fst (zone_info_get_offset z ts) = tr_gmtoffset (last ?trs)" "zone_wf (snd (zone_info_get_offset z ts))"
    using wf by (auto simp: zone_wf_def last_conv_nth)
qed


subsection \<open>The contents of a zone file\<close>

record tz_file =
  tf_times :: "int list"
  tf_types :: "nat list"
  tf_ttinfo :: "(int \<times> bool \<times> guint8) list"
  tf_chars :: "byte list"
  tf_leaps :: "(int \<times> int) list"
  tf_isstd :: "bool list"
  tf_isgmt :: "bool list"

definition coded32 :: "int \<Rightarrow> byte list" where
  "coded32 v = be_bytes 4 (word_of_int v :: guint32)"

definition coded64 :: "int \<Rightarrow> byte list" where
  "coded64 v = be_bytes 8 (word_of_int v :: guint64)"

definition coded_time :: "bool \<Rightarrow> int \<Rightarrow> byte list" where
  "coded_time is64 v = (if is64 then coded64 v else coded32 v)"

text \<open>The layout of \<^verbatim>\<open>tzfile(5)\<close>.\<close>

definition tz_encode :: "bool \<Rightarrow> byte \<Rightarrow> tz_file \<Rightarrow> byte list" where
  "tz_encode is64 version f =
     map (\<lambda>c. of_nat (code c)) ''TZif'' @ [version] @ replicate 15 0 @
     coded32 (int (length (tf_isgmt f))) @ coded32 (int (length (tf_isstd f))) @ coded32 (int (length (tf_leaps f))) @
     coded32 (int (length (tf_times f))) @ coded32 (int (length (tf_ttinfo f))) @ coded32 (int (length (tf_chars f))) @
     concat (map (coded_time is64) (tf_times f)) @ concat (map (\<lambda>t. [of_nat t]) (tf_types f)) @
     concat (map (\<lambda>(ofs, dst, abbr). coded32 ofs @ [of_bool dst, abbr]) (tf_ttinfo f)) @ tf_chars f @
     concat (map (\<lambda>(t, c). coded_time is64 t @ coded32 c) (tf_leaps f)) @
     concat (map (\<lambda>b. [of_bool b]) (tf_isstd f)) @ concat (map (\<lambda>b. [of_bool b]) (tf_isgmt f))"

definition in32 :: "int \<Rightarrow> bool" where
  "in32 v \<longleftrightarrow> - (2 ^ 31) \<le> v \<and> v < 2 ^ 31"

definition in_time :: "bool \<Rightarrow> int \<Rightarrow> bool" where
  "in_time is64 v \<longleftrightarrow> (if is64 then - (2 ^ 63) \<le> v \<and> v < 2 ^ 63 else in32 v)"

definition tz_file_ok :: "bool \<Rightarrow> tz_file \<Rightarrow> bool" where
  "tz_file_ok is64 f \<longleftrightarrow>
     in32 (int (length (tf_times f))) \<and> in32 (int (length (tf_chars f))) \<and> in32 (int (length (tf_leaps f))) \<and>
     length (tf_ttinfo f) \<le> 256 \<and> length (tf_types f) = length (tf_times f) \<and>
     length (tf_isstd f) = length (tf_ttinfo f) \<and> length (tf_isgmt f) = length (tf_ttinfo f) \<and>
     (\<forall>t \<in> set (tf_times f). in_time is64 t) \<and> (\<forall>t \<in> set (tf_types f). t < length (tf_ttinfo f)) \<and>
     (\<forall>(ofs, _) \<in> set (tf_ttinfo f). \<bar>ofs\<bar> \<le> 24 * 60 * 60) \<and> (\<forall>(t, c) \<in> set (tf_leaps f). in_time is64 t \<and> in32 c)"

lemma tz_then_Got [simp]: "p input = Got x r \<Longrightarrow> tz_then p f input = f x r"
  by (simp add: tz_then_def)

lemma tz_bytes_append [simp]: "length u = n \<Longrightarrow> tz_bytes n (u @ rest) = Got u rest"
  by (simp add: tz_bytes_def)

lemma tz_bytes_1 [simp]: "tz_bytes 1 (b # rest) = Got [b] rest" "tz_bytes (Suc 0) (b # rest) = Got [b] rest"
  by (simp_all add: tz_bytes_def)

lemma tz_skip_append: "length u = n \<Longrightarrow> tz_skip n (u @ rest) = Got () rest"
  by (simp add: tz_skip_def)

lemma sint_word32: "in32 v \<Longrightarrow> sint (word_of_int v :: guint32) = v"
  unfolding in32_def by (simp add: signed_take_bit_int_eq_self sint_sbintrunc')

lemma sint_word64: "- (2 ^ 63) \<le> v \<Longrightarrow> v < 2 ^ 63 \<Longrightarrow> sint (word_of_int v :: guint64) = v"
  by (simp add: signed_take_bit_int_eq_self sint_sbintrunc')

lemma take_bit_whole: "take_bit LENGTH('a) w = (w :: 'a :: len word)"
  by (rule bit_eqI) (auto simp: bit_take_bit_iff dest: bit_imp_le_length)

lemma readcoded32_coded:
  assumes "in32 v" "minv \<le> v" "v \<le> maxv"
  shows "readcoded32 minv maxv (coded32 v @ rest) = Got v rest"
  using assms take_bit_whole[of "word_of_int v :: guint32"]
  by (simp add: readcoded32_def coded32_def be_value_be_bytes sint_word32 Let_def)

lemma readcoded64_coded:
  assumes "- (2 ^ 63) \<le> v" "v < 2 ^ 63" "minv \<le> v" "v \<le> maxv"
  shows "readcoded64 minv maxv (coded64 v @ rest) = Got v rest"
  using assms take_bit_whole[of "word_of_int v :: guint64"]
  by (simp add: readcoded64_def coded64_def be_value_be_bytes sint_word64 Let_def)

lemma in32_bounds: "in32 v \<Longrightarrow> G_MININT64 \<le> v" "in32 v \<Longrightarrow> v \<le> G_MAXINT64"
  by (auto simp: in32_def G_MININT64_def G_MAXINT64_def)

lemma read_time_coded:
  "in_time is64 t \<Longrightarrow> (if is64 then readcoded64 G_MININT64 G_MAXINT64 else readcoded32 G_MININT64 G_MAXINT64) (coded_time is64 t @ rest) = Got t rest"
  by (auto simp: coded_time_def in_time_def in32_bounds G_MININT64_def G_MAXINT64_def in32_def intro!: readcoded32_coded readcoded64_coded)

lemma tz_repeat_coded:
  assumes "\<And>x rest. x \<in> set xs \<Longrightarrow> p (enc x @ rest) = Got (dec x) rest" "n = length xs"
  shows "tz_repeat n p (concat (map enc xs) @ rest) = Got (map dec xs) rest"
  using assms by (induction xs arbitrary: n) auto


lemma read_header_coded:
  assumes "version = 0 \<or> version = of_nat (code CHR ''2'')"
  shows "read_header (map (\<lambda>c. of_nat (code c)) ''TZif'' @ [version] @ replicate 15 0 @ rest) =
    Got (if version \<noteq> 0 then 2 else 0) rest"
proof -
  have "tz_skip 15 (replicate 15 0 @ rest) = Got () rest" by (simp only: tz_skip_append length_replicate)
  then have "tz_then (tz_bytes 1) (\<lambda>v. if hd v \<noteq> 0 \<and> hd v \<noteq> of_nat (code CHR ''2'') then Fail
       else tz_then (tz_skip 15) (\<lambda>_. Got (if hd v \<noteq> 0 then 2 else (0 :: nat)))) ([version] @ replicate 15 0 @ rest) =
      Got (if version \<noteq> 0 then 2 else 0) rest"
    using assms by (auto simp: tz_then_def)
  moreover have "tz_bytes 4 (map (\<lambda>c. of_nat (code c)) ''TZif'' @ [version] @ replicate 15 0 @ rest) =
      Got (map (\<lambda>c. of_nat (code c)) ''TZif'') ([version] @ replicate 15 0 @ rest)" by (rule tz_bytes_append) simp
  ultimately show ?thesis unfolding read_header_def by (simp only: tz_then_Got) simp
qed

lemma readcount_coded: "n < 2 ^ 31 \<Longrightarrow> readcoded32 0 G_MAXINT64 (coded32 (int n) @ rest) = Got (int n) rest"
  by (rule readcoded32_coded) (auto simp: in32_def G_MAXINT64_def)

lemma read_transition_type_coded:
  "t < n \<Longrightarrow> n \<le> 256 \<Longrightarrow> read_transition_type (int n) ([of_nat t] @ rest) = Got t rest"
  by (simp add: read_transition_type_def readchar_def unsigned_of_nat take_bit_nat_eq_self)

lemma readbool_coded: "readbool ([of_bool b] @ rest) = Got b rest"
  by (cases b) (simp_all add: readbool_def)

lemma read_type_coded:
  assumes "\<bar>fst x\<bar> \<le> 24 * 60 * 60"
  shows "read_type ((case x of (ofs, dst, abbr) \<Rightarrow> coded32 ofs @ [of_bool dst, abbr]) @ rest) = Got (fst x) rest"
proof -
  obtain ofs dst abbr where x: "x = (ofs, dst, abbr)" by (cases x)
  with assms have assms: "\<bar>ofs\<bar> \<le> 24 * 60 * 60" by simp
  have "in32 ofs" using assms by (auto simp: in32_def)
  then have "readcoded32 G_MININT64 G_MAXINT64 (coded32 ofs @ of_bool dst # abbr # rest) = Got ofs (of_bool dst # abbr # rest)"
    by (intro readcoded32_coded) (auto simp: in32_bounds)
  moreover have "readbool (of_bool dst # abbr # rest) = Got dst (abbr # rest)"
    using readbool_coded[of dst "abbr # rest"] by simp
  ultimately show ?thesis using assms x by (auto simp: read_type_def readchar_def abs_le_iff)
qed

lemma read_leap_coded:
  assumes "in_time is64 (fst x)" "in32 (snd x)"
  shows "read_leap is64 ((case x of (t, c) \<Rightarrow> coded_time is64 t @ coded32 c) @ rest) = Got (snd x) rest"
  using read_time_coded[OF assms(1), of "coded32 (snd x) @ rest"] readcoded32_coded[OF assms(2), of G_MININT64 G_MAXINT64 rest] assms(2)
  by (simp add: read_leap_def in32_bounds split_beta)

lemma zone_info_parser_encode:
  assumes ok: "tz_file_ok is64 f" and version: "version = 0 \<or> version = of_nat (code CHR ''2'')"
  shows "zone_info_parser is64 (tz_encode is64 version f @ rest) =
    Got (build_transitions is64 (tf_times f) (tf_types f) (map fst (tf_ttinfo f)), if version \<noteq> 0 then 2 else 0) rest"
proof -
  have len: "length (tf_times f) < 2 ^ 31" "length (tf_chars f) < 2 ^ 31" "length (tf_leaps f) < 2 ^ 31"
    "length (tf_ttinfo f) < 2 ^ 31" "length (tf_isgmt f) < 2 ^ 31" "length (tf_isstd f) < 2 ^ 31"
    using ok by (auto simp: tz_file_ok_def in32_def)
  note count = len[THEN readcount_coded]
  have times: "tz_repeat (length (tf_times f)) (if is64 then readcoded64 G_MININT64 G_MAXINT64 else readcoded32 G_MININT64 G_MAXINT64)
      (concat (map (coded_time is64) (tf_times f)) @ r) = Got (map id (tf_times f)) r" for r
    by (rule tz_repeat_coded) (use ok read_time_coded in \<open>auto simp: tz_file_ok_def\<close>)
  have types: "tz_repeat (length (tf_times f)) (read_transition_type (int (length (tf_ttinfo f))))
      (concat (map (\<lambda>t. [of_nat t]) (tf_types f)) @ r) = Got (map id (tf_types f)) r" for r
    by (rule tz_repeat_coded) (use ok read_transition_type_coded in \<open>auto simp: tz_file_ok_def\<close>)
  have infos: "tz_repeat (length (tf_ttinfo f)) read_type
      (concat (map (\<lambda>(ofs, dst, abbr). coded32 ofs @ [of_bool dst, abbr]) (tf_ttinfo f)) @ r) = Got (map fst (tf_ttinfo f)) r" for r
    by (rule tz_repeat_coded[OF read_type_coded]) (use ok in \<open>auto simp: tz_file_ok_def\<close>)
  have leaps: "tz_repeat (length (tf_leaps f)) (read_leap is64)
      (concat (map (\<lambda>(t, c). coded_time is64 t @ coded32 c) (tf_leaps f)) @ r) = Got (map snd (tf_leaps f)) r" for r
    by (rule tz_repeat_coded[OF read_leap_coded]) (use ok in \<open>auto simp: tz_file_ok_def\<close>)
  have flags: "tz_repeat (length (tf_ttinfo f)) readbool (concat (map (\<lambda>b. [of_bool b]) bs) @ r) = Got (map id bs) r"
    if "length bs = length (tf_ttinfo f)" for bs r
    by (rule tz_repeat_coded) (use readbool_coded that in auto)
  have flags_end: "tz_repeat (length (tf_ttinfo f)) readbool (concat (map (\<lambda>b. [of_bool b]) (tf_isgmt f)) @ r) = Got (map id (tf_isgmt f)) r" for r
    by (rule flags) (use ok in \<open>simp add: tz_file_ok_def\<close>)
  have flags_std: "tz_repeat (length (tf_ttinfo f)) readbool (concat (map (\<lambda>b. [of_bool b]) (tf_isstd f)) @ r) = Got (map id (tf_isstd f)) r" for r
    by (rule flags) (use ok in \<open>simp add: tz_file_ok_def\<close>)
  note reads = read_header_coded[OF version] count times types infos tz_skip_append[OF refl] leaps flags_std flags_end
  show ?thesis
    unfolding zone_info_parser_def tz_encode_def append_assoc
    by (simp only: reads tz_then_Got nat_int list.map_id) 
qed


subsection \<open>The 64-bit part\<close>

definition early_idx :: "int list \<Rightarrow> nat option" where
  "early_idx tms = (let k = length (filter (\<lambda>t. t < LOWEST_TIME32) tms) in if k = 0 then None else Some (k - 1))"

lemma pick_minidx_early:
  assumes "sorted_wrt (<) (pre @ ts)" "tms = pre @ ts"
  shows "pick_minidx (length pre) tms (early_idx pre) ts = early_idx tms"
  using assms
proof (induction ts arbitrary: pre)
  case (Cons t ts)
  have below: "x < t" if "x \<in> set pre" for x using Cons.prems(1) that by (auto simp: sorted_wrt_append)
  have all: "filter (\<lambda>t. t < LOWEST_TIME32) pre = pre" if "t < LOWEST_TIME32"
    using below that by (simp add: filter_id_conv) (meson less_trans)
  have prev: "t > tms ! m" if "t < LOWEST_TIME32" "early_idx pre = Some m" for m
    using that all below Cons.prems(2) by (auto simp: early_idx_def Let_def nth_append split: if_splits)
  have "(if t < LOWEST_TIME32 \<and> (case early_idx pre of None \<Rightarrow> True | Some m \<Rightarrow> t > tms ! m) then Some (length pre) else early_idx pre) =
      early_idx (pre @ [t])"
    using all prev by (auto simp: early_idx_def Let_def split: option.splits if_splits)
  moreover have "pick_minidx (Suc (length pre)) tms (early_idx (pre @ [t])) ts = early_idx tms"
    using Cons.IH[of "pre @ [t]"] Cons.prems by simp
  ultimately show ?case by (simp only: pick_minidx.simps)
qed (simp add: early_idx_def)

lemma find_transition_take:
  "int n = timecnt \<Longrightarrow> 0 \<le> i \<Longrightarrow> find_transition (take n trs) timecnt ts i = find_transition trs timecnt ts i"
proof (induction trs timecnt ts i rule: find_transition.induct)
  case (1 trs timecnt ts i)
  then show ?case by (subst (1 2) find_transition.simps) auto
qed

lemma find_transition_ge: "0 \<le> i \<Longrightarrow> i \<le> timecnt - 1 \<Longrightarrow> i \<le> find_transition trs timecnt ts i \<and> find_transition trs timecnt ts i \<le> timecnt - 1"
proof (induction trs timecnt ts i rule: find_transition.induct)
  case (1 trs timecnt ts i)
  then show ?case by (subst (1 2) find_transition.simps) auto
qed

lemma zone_info_get_offset_take:
  assumes "zi_timecnt z = int n" "0 < n" "n \<le> length (zi_transitions z)" "-1 \<le> zi_last_index z"
  shows "fst (zone_info_get_offset z ts) = fst (zone_info_get_offset (z\<lparr>zi_transitions := take n (zi_transitions z)\<rparr>) ts)"
proof -
  have "zi_transitions z \<noteq> []" "take n (zi_transitions z) \<noteq> []" using assms by auto
  moreover have "nat (find_transition (zi_transitions z) (zi_timecnt z) ts 0) < n"
    using find_transition_ge[of 0 "zi_timecnt z" "zi_transitions z" ts] assms by linarith
  ultimately show ?thesis
    using assms find_transition_take[of n "zi_timecnt z" 0 "zi_transitions z" ts]
    by (auto simp: zone_info_get_offset_def Let_def)
qed

text \<open>The transitions of a file and the list the 64-bit part is reduced to.\<close>

definition file_transitions :: "int list \<Rightarrow> nat list \<Rightarrow> int list \<Rightarrow> transition list" where
  "file_transitions tms types offsets = map2 (\<lambda>t ty. \<lparr>tr_time = t, tr_gmtoffset = offsets ! ty\<rparr>) tms types"

definition offset_at :: "int \<Rightarrow> transition list \<Rightarrow> int \<Rightarrow> int" where
  "offset_at initial trs ts = (let before = filter (\<lambda>t. tr_time t \<le> ts) trs in if before = [] then initial else tr_gmtoffset (last before))"

lemma map_time_file [simp]: "length types = length tms \<Longrightarrow> map tr_time (file_transitions tms types offsets) = tms"
  by (simp add: file_transitions_def map2_map_map split_def comp_def)

lemma zone_info_get_offset_spec:
  assumes wf: "zone_wf z" and first: "tr_time (hd (zi_transitions z)) < ts" and no: "ts \<notin> tr_time ` set (zi_transitions z)"
  shows "fst (zone_info_get_offset z ts) = offset_at initial (zi_transitions z) ts" "zone_wf (snd (zone_info_get_offset z ts))"
proof -
  let ?trs = "zi_transitions z"
  have ne: "?trs \<noteq> []" using wf by (simp add: zone_wf_def)
  obtain n where n: "n \<le> length ?trs" "filter (\<lambda>t. tr_time t \<le> ts) ?trs = take n ?trs" "\<forall>j < n. tr_time (?trs ! j) \<le> ts"
    "\<forall>j. n \<le> j \<and> j < length ?trs \<longrightarrow> ts < tr_time (?trs ! j)"
    using sorted_times_split[of ?trs ts] wf by (auto simp: zone_wf_def)
  have "n \<noteq> 0" using n(4) first ne by (metis hd_conv_nth le0 length_greater_0_conv less_asym)
  then obtain k where k: "n = Suc k" by (cases n) auto
  have strict: "tr_time (?trs ! j) < ts" if "j < n" for j
    using n(1,3) no that by (metis image_eqI less_le_trans nth_mem order_le_less)
  have off: "offset_at initial ?trs ts = tr_gmtoffset (?trs ! k)"
    using n(1,2) k by (simp add: offset_at_def take_Suc_conv_app_nth Let_def)
  show "fst (zone_info_get_offset z ts) = offset_at initial ?trs ts" "zone_wf (snd (zone_info_get_offset z ts))"
  proof (atomize(full), cases "Suc k < length ?trs")
    case True
    then have "encloses ?trs ts k" using strict[of k] n(4) k by (simp add: encloses_def)
    with zone_info_get_offset_enclosed[OF wf True, of ts] off
    show "fst (zone_info_get_offset z ts) = offset_at initial ?trs ts \<and> zone_wf (snd (zone_info_get_offset z ts))" by simp
  next
    case False
    then have kn: "k = length ?trs - 1" "n = length ?trs" using n(1) k by auto
    have "\<not> encloses ?trs ts j" if "Suc j < length ?trs" for j using strict[of "Suc j"] that kn by (simp add: encloses_def)
    with zone_info_get_offset_none[OF wf, of ts] off kn ne
    show "fst (zone_info_get_offset z ts) = offset_at initial ?trs ts \<and> zone_wf (snd (zone_info_get_offset z ts))"
      by (simp add: last_conv_nth)
  qed
qed


lemma sorted_filter_split:
  "sorted_wrt (<) (map tr_time trs) \<Longrightarrow> trs = filter (\<lambda>t. tr_time t < c) trs @ filter (\<lambda>t. c \<le> tr_time t) trs"
proof (induction trs)
  case (Cons a trs)
  show ?case
  proof (cases "tr_time a < c")
    case True
    then show ?thesis using Cons by simp
  next
    case False
    then have "\<forall>t \<in> set trs. c \<le> tr_time t" using Cons.prems by force
    then have "filter (\<lambda>t. tr_time t < c) trs = []" "filter (\<lambda>t. c \<le> tr_time t) trs = trs"
      by (auto simp: filter_empty_conv filter_id_conv)
    with False show ?thesis by simp
  qed
qed simp

text \<open>What the 64-bit transitions are: the ones from the 32-bit minimum on, after one at the minimum that
  has the offset in force there.\<close>

lemma build_transitions64_take:
  fixes offsets :: "int list"
  assumes len: "length types = length tms" and ne: "tms \<noteq> []" and sorted: "sorted_wrt (<) tms"
  defines "trs \<equiv> file_transitions tms types offsets" and "z \<equiv> build_transitions64 tms types offsets"
  defines "kept \<equiv> filter (\<lambda>t. LOWEST_TIME32 \<le> tr_time t) trs" and "early \<equiv> filter (\<lambda>t. tr_time t < LOWEST_TIME32) trs"
  shows "trs = early @ kept" "zi_timecnt z = int (Suc (length kept))" "Suc (length kept) \<le> length (zi_transitions z)" "zi_last_index z = -1"
    "take (Suc (length kept)) (zi_transitions z) =
       \<lparr>tr_time = LOWEST_TIME32, tr_gmtoffset = if early = [] then offsets ! 0 else tr_gmtoffset (last early)\<rparr> # kept"
proof -
  have times: "map tr_time trs = tms" using len by (simp add: trs_def)
  show split: "trs = early @ kept" using sorted_filter_split[of trs LOWEST_TIME32] sorted times by (simp add: early_def kept_def)
  then have lens: "length tms = length early + length kept" using times by (metis length_append length_map)
  have "length (filter (\<lambda>t. t < LOWEST_TIME32) tms) = length early"
    unfolding early_def times[symmetric] by (simp add: filter_map comp_def)
  then have pick: "pick_minidx 0 tms None tms = (if early = [] then None else Some (length early - 1))"
    using pick_minidx_early[of "[]" tms tms] sorted by (simp add: early_idx_def)
  have kept_eq: "filter (\<lambda>tr. tr_time tr \<ge> LOWEST_TIME32) (map2 (\<lambda>t ty. \<lparr>tr_time = t, tr_gmtoffset = offsets ! ty\<rparr>) tms types) = kept"
    by (simp add: kept_def trs_def file_transitions_def)
  have last_early: "offsets ! (types ! (length early - 1)) = tr_gmtoffset (last early)" if "early \<noteq> []"
  proof -
    have i: "length early - 1 < length tms" using that lens by (cases early) auto
    have "last early = trs ! (length early - 1)" using that split by (simp add: last_conv_nth nth_append)
    with i len show ?thesis by (simp add: trs_def file_transitions_def)
  qed
  note z = z_def build_transitions64_def kept_eq pick Let_def
  show "zi_timecnt z = int (Suc (length kept))" "zi_last_index z = -1"
    using lens by (auto simp: z neq_Nil_conv)
  show "Suc (length kept) \<le> length (zi_transitions z)" using lens ne by (auto simp: z neq_Nil_conv)
  show "take (Suc (length kept)) (zi_transitions z) =
       \<lparr>tr_time = LOWEST_TIME32, tr_gmtoffset = if early = [] then offsets ! 0 else tr_gmtoffset (last early)\<rparr> # kept"
    using lens last_early by (auto simp: z neq_Nil_conv)
qed

lemma build_transitions64_lookup:
  assumes len: "length types = length tms" and ne: "tms \<noteq> []" and sorted: "sorted_wrt (<) tms"
    and ts: "LOWEST_TIME32 < ts" "LOWEST_TIME32 \<notin> set tms" "ts \<notin> set tms"
  shows "fst (zone_info_get_offset (build_transitions64 tms types offsets) ts) =
    offset_at (offsets ! 0) (file_transitions tms types offsets) ts"
proof -
  let ?trs = "file_transitions tms types offsets" and ?z = "build_transitions64 tms types offsets"
  let ?kept = "filter (\<lambda>t. LOWEST_TIME32 \<le> tr_time t) ?trs" and ?early = "filter (\<lambda>t. tr_time t < LOWEST_TIME32) ?trs"
  let ?o = "if ?early = [] then offsets ! 0 else tr_gmtoffset (last ?early)"
  note b = build_transitions64_take[OF len ne sorted, of offsets]
  let ?z' = "?z\<lparr>zi_transitions := take (Suc (length ?kept)) (zi_transitions ?z)\<rparr>"
  have trs': "zi_transitions ?z' = \<lparr>tr_time = LOWEST_TIME32, tr_gmtoffset = ?o\<rparr> # ?kept" using b(5) by simp
  have times: "tr_time ` set ?trs = set tms" using len by (metis list.set_map map_time_file)
  have "sorted_wrt (<) (map tr_time (?early @ ?kept))" using b(1) sorted len by simp
  then have "sorted_wrt (<) (map tr_time ?kept)" by (simp add: sorted_wrt_append)
  moreover have "LOWEST_TIME32 < tr_time t" if "t \<in> set ?kept" for t
  proof -
    have "LOWEST_TIME32 \<le> tr_time t" "tr_time t \<in> set tms" using that times by auto
    then show ?thesis using ts(2) by (cases "tr_time t = LOWEST_TIME32") auto
  qed
  ultimately have wf: "zone_wf ?z'" unfolding zone_wf_def trs' using b(2,4) by simp
  have "ts \<notin> tr_time ` set (zi_transitions ?z')" unfolding trs' using ts(1,3) times by auto
  then have "fst (zone_info_get_offset ?z' ts) = offset_at (offsets ! 0) (zi_transitions ?z') ts"
    using zone_info_get_offset_spec(1)[OF wf, of ts] ts(1) by (simp add: trs')
  also have "\<dots> = offset_at (offsets ! 0) (?early @ ?kept) ts"
  proof -
    have "filter (\<lambda>t. tr_time t \<le> ts) ?early = ?early" using ts(1) by (simp only: filter_id_conv) auto
    then show ?thesis using ts(1) by (simp add: offset_at_def trs' Let_def del: filter_filter)
  qed
  finally show ?thesis
    using zone_info_get_offset_take[OF b(2) _ b(3), of ts] b(4) by (simp flip: b(1))
qed


lemma printf_02ld_digits:
  assumes "n < 100"
  shows "printf_02ld n = [digits ! (n div 10), digits ! (n mod 10)]"
proof (cases "n < 10")
  case True
  then show ?thesis unfolding printf_02ld_def by (subst rdigs.simps, subst rdigs.simps) (simp add: digits_def)
next
  case False
  then show ?thesis using assms unfolding printf_02ld_def by (subst rdigs.simps, subst rdigs.simps) simp
qed

lemma two_digits: "n < 100 \<Longrightarrow> int (digit_value (digits ! (n div 10))) * 10 + int (digit_value (digits ! (n mod 10))) = int n"
  using digit_char(2)[of "n div 10"] digit_char(2)[of "n mod 10"]
  by (simp add: digit_value_def) presburger

lemma time_zone_info_new_numeric:
  assumes "sg = CHR ''+'' \<or> sg = CHR ''-''" "isdigit a" "isdigit b" "isdigit c" "isdigit d"
    and "h = int (digit_value a) * 10 + int (digit_value b)" "m = int (digit_value c) * 10 + int (digit_value d)"
    and "(h < 24 \<and> m \<le> 60) \<or> (h = 24 \<and> m = 0)"
  shows "time_zone_info_new file (Some [sg, a, b, CHR '':'', c, d]) =
    Some (Some \<lparr>tz_zone = None, tz_zone64 = None, tz_zone_offset = (if sg = CHR ''-'' then - 1 else 1) * (h * 3600 + m * 60)\<rparr>)"
  using assms by (simp add: time_zone_info_new_def Let_def)

text \<open>The text of an offset of whole minutes: the sign, two digits of hours and two of minutes.\<close>

lemma zone_text:
  assumes "\<bar>ofs\<bar> \<le> 24 * 60 * 60" "60 dvd ofs"
  shows "\<exists>sg a b c d. fst (format_zone_info 8 ofs) = [sg, a, b, CHR '':'', c, d] \<and> (sg = CHR ''+'' \<or> sg = CHR ''-'') \<and>
    isdigit a \<and> isdigit b \<and> isdigit c \<and> isdigit d \<and>
    (let h = int (digit_value a) * 10 + int (digit_value b); m = int (digit_value c) * 10 + int (digit_value d)
     in ((h < 24 \<and> m \<le> 60) \<or> (h = 24 \<and> m = 0)) \<and> (if sg = CHR ''-'' then - 1 else 1) * (h * 3600 + m * 60) = ofs)"
proof -
  define a where "a = nat \<bar>ofs\<bar>"
  have "a \<le> 86400" "60 dvd a" using assms by (auto simp: a_def)
  then obtain m where m: "a = 60 * m" "m \<le> 1440" by (auto simp: dvd_def)
  let ?h = "a div 3600" and ?m = "a mod 3600 div 60"
  have hm: "?h = m div 60" "?m = m mod 60" using m by (simp_all add: div_mult2_eq[of "60 * m" 60 60, simplified] mod_mult_mult1[of 60 m 60, simplified])
  have range: "?h < 100" "?m < 60" "?h < 24 \<or> (?h = 24 \<and> ?m = 0)"
  proof -
    have "m div 60 < 24 \<or> m = 1440" using m(2) less_mult_imp_div_less[of m 24 60] by (cases "m = 1440") auto
    moreover have "m mod 60 < 60" by simp
    ultimately show "?h < 100" "?m < 60" "?h < 24 \<or> (?h = 24 \<and> ?m = 0)" unfolding hm by auto
  qed
  have "(m div 60 * 60 + m mod 60) * 60 = a" unfolding div_mult_mod_eq using m(1) by simp
  then have "?h * 3600 + ?m * 60 = a" unfolding hm add_mult_distrib mult.assoc by simp
  then have sum: "int ?h * 3600 + int ?m * 60 = int a" by (metis of_nat_add of_nat_mult of_nat_numeral)
  define sg where "sg = (if ofs < 0 then CHR ''-'' else CHR ''+'')"
  have printed: "fst (format_zone_info 8 ofs) =
      [sg, digits ! (?h div 10), digits ! (?h mod 10), CHR '':'', digits ! (?m div 10), digits ! (?m mod 10)]"
    using range printf_02ld_digits[of ?h] printf_02ld_digits[of ?m] by (simp add: format_zone_info_def Let_def a_def sg_def)
  have digs: "isdigit (digits ! (?h div 10))" "isdigit (digits ! (?h mod 10))" "isdigit (digits ! (?m div 10))" "isdigit (digits ! (?m mod 10))"
    using digit_char(1)[of "?h div 10"] digit_char(1)[of "?h mod 10"] digit_char(1)[of "?m div 10"] digit_char(1)[of "?m mod 10"] range by auto
  have ofs: "(if sg = CHR ''-'' then - 1 else 1) * (int ?h * 3600 + int ?m * 60) = ofs"
    using sum assms(2) by (auto simp: sg_def a_def)
  have vals: "int (digit_value (digits ! (?h div 10))) * 10 + int (digit_value (digits ! (?h mod 10))) = int ?h"
    "int (digit_value (digits ! (?m div 10))) * 10 + int (digit_value (digits ! (?m mod 10))) = int ?m"
    using two_digits range by simp_all
  have "(int ?h < 24 \<and> int ?m \<le> 60) \<or> (int ?h = 24 \<and> int ?m = 0)" using range(2,3) by linarith
  then show ?thesis
    using digs ofs unfolding printed
    by (intro exI[of _ sg] exI[of _ "digits ! (?h div 10)"] exI[of _ "digits ! (?h mod 10)"] exI[of _ "digits ! (?m div 10)"]
        exI[of _ "digits ! (?m mod 10)"]) (simp only: vals Let_def sg_def simp_thms split: if_split)
qed

subsection \<open>Properties\<close>

text \<open>Zone lookups are right between transitions. With the transitions in order, the offset found for a
  time after the first transition, and at none of them, is that of the latest transition before it; the
  position remembered from earlier lookups does not change the answer, and the lookup keeps the state
  well-formed.\<close>

theorem zone_info_get_offset_correct:
  assumes "zone_wf z" "tr_time (hd (zi_transitions z)) < ts" "ts \<notin> tr_time ` set (zi_transitions z)"
  shows "fst (zone_info_get_offset z ts) = tr_gmtoffset (last (filter (\<lambda>t. tr_time t \<le> ts) (zi_transitions z))) \<and>
    zone_wf (snd (zone_info_get_offset z ts))"
proof -
  have "hd (zi_transitions z) \<in> set (zi_transitions z)" using assms(1) by (simp add: zone_wf_def)
  with assms(2) have "filter (\<lambda>t. tr_time t \<le> ts) (zi_transitions z) \<noteq> []" by (auto simp: filter_empty_conv intro!: bexI)
  then show ?thesis using zone_info_get_offset_spec[OF assms] by (simp add: offset_at_def Let_def)
qed

definition zone_sample :: zone_info where
  "zone_sample = \<lparr>zi_transitions = [\<lparr>tr_time = 100, tr_gmtoffset = 3600\<rparr>, \<lparr>tr_time = 200, tr_gmtoffset = 7200\<rparr>, \<lparr>tr_time = 300, tr_gmtoffset = 0\<rparr>],
     zi_timecnt = 3, zi_last_index = 0\<rparr>"

lemma zone_info_get_offset_correct_witness: "fst (zone_info_get_offset zone_sample 250) = 7200"
  using zone_info_get_offset_correct[of zone_sample 250] by (simp add: zone_sample_def zone_wf_def)

text \<open>At the very second of a transition the lookup finds no interval and takes the last offset of the
  file, whichever transition it is.\<close>

theorem zone_info_get_offset_at_transition:
  assumes "zone_wf z" "t \<in> set (zi_transitions z)"
  shows "fst (zone_info_get_offset z (tr_time t)) = tr_gmtoffset (last (zi_transitions z))"
proof -
  let ?trs = "zi_transitions z"
  obtain k where k: "k < length ?trs" "t = ?trs ! k" using assms(2) by (auto simp: in_set_conv_nth)
  have lt: "tr_time (?trs ! a) < tr_time (?trs ! b)" if "a < b" "b < length ?trs" for a b
    using sorted_wrt_nth_gap[of "map tr_time ?trs" a b] that assms(1) by (simp add: zone_wf_def)
  have "\<not> encloses ?trs (tr_time t) j" if "Suc j < length ?trs" for j
  proof (cases "k \<le> j")
    case True
    then show ?thesis using lt[of k j] k that by (cases "k = j") (auto simp: encloses_def)
  next
    case False
    then show ?thesis using lt[of "Suc j" k] k by (cases "Suc j = k") (auto simp: encloses_def)
  qed
  then show ?thesis by (rule zone_info_get_offset_none(1)[OF assms(1)])
qed

lemma zone_info_get_offset_at_transition_witness: "fst (zone_info_get_offset zone_sample 200) = 0"
  using zone_info_get_offset_at_transition[of zone_sample "\<lparr>tr_time = 200, tr_gmtoffset = 7200\<rparr>"]
  by (simp add: zone_sample_def zone_wf_def)


definition tz_sample :: tz_file where
  "tz_sample = \<lparr>tf_times = [-3000000000, 1000], tf_types = [0, 1], tf_ttinfo = [(3600, False, 0), (7200, True, 4)],
     tf_chars = [67, 69, 84, 0], tf_leaps = [], tf_isstd = [False, False], tf_isgmt = [False, False]\<rparr>"





end
