(* ===== verification/Log_Stamp.thy ===== *)
theory Log_Stamp
  imports Time_Zone
begin

text \<open>
  Timestamps (\<^verbatim>\<open>lib/logstamp.c\<close>) and the caches around the calendar functions of the C library
  (\<^verbatim>\<open>lib/timeutils.c\<close>). The C library's \<^verbatim>\<open>gmtime_r\<close>, \<^verbatim>\<open>localtime_r\<close> and \<^verbatim>\<open>mktime\<close> are parameters; of
  \<^verbatim>\<open>struct tm\<close> the model has the fields that the code reads and writes.
\<close>

subsection \<open>Calendar caches\<close>

text \<open>An array of 64 entries, zeroed at the start of a thread and by \<^verbatim>\<open>clean_time_cache\<close>.\<close>

type_synonym time_cache = "(int \<times> tm) list"

definition zero_tm :: tm where
  "zero_tm = \<lparr>tm_year = 0, tm_mon = 0, tm_mday = 0, tm_hour = 0, tm_min = 0, tm_sec = 0\<rparr>"

definition clean_time_cache :: time_cache where
  "clean_time_cache = replicate 64 (0, zero_tm)"

definition cached_gmtime :: "(int \<Rightarrow> tm) \<Rightarrow> time_cache \<Rightarrow> int \<Rightarrow> tm \<times> time_cache" where
  "cached_gmtime gmtime gm_time_cache when =
     (let i = nat (when AND 0x3F)
      in if when = fst (gm_time_cache ! i) then (snd (gm_time_cache ! i), gm_time_cache)
         else (gmtime when, gm_time_cache[i := (when, gmtime when)]))"

definition cached_localtime :: "(int \<Rightarrow> tm) \<Rightarrow> time_cache \<Rightarrow> int \<Rightarrow> tm \<times> time_cache" where
  "cached_localtime localtime local_time_cache when =
     (let i = nat (when AND 0x3F)
      in if when = fst (local_time_cache ! i) then (snd (local_time_cache ! i), local_time_cache)
         else (localtime when, local_time_cache[i := (when, localtime when)]))"

text \<open>\<^verbatim>\<open>cached_mktime\<close> remembers the last normalised time; \<open>mktime\<close> gives the time and the normalised
  fields.\<close>

definition cached_mktime :: "(tm \<Rightarrow> int \<times> tm) \<Rightarrow> tm \<times> int \<Rightarrow> tm \<Rightarrow> (int \<times> tm) \<times> (tm \<times> int)" where
  "cached_mktime mktime prev t =
     (if t = fst prev then ((snd prev, t), prev)
      else let (result, t') = mktime t in ((result, t'), (t', result)))"

text \<open>The variant for systems without \<^verbatim>\<open>tm_gmtoff\<close>, which compares the two broken-down times.\<close>

definition local_timezone_diff :: "tm \<Rightarrow> tm \<Rightarrow> int" where
  "local_timezone_diff ltm gtm =
     (let tzoff = (tm_hour ltm - tm_hour gtm) * 3600 + (tm_min ltm - tm_min gtm) * 60 + (tm_sec ltm - tm_sec gtm)
      in if tzoff > 0 \<and> (tm_year ltm < tm_year gtm \<or> tm_mon ltm < tm_mon gtm \<or> tm_mday ltm < tm_mday gtm) then tzoff - 86400
         else if tzoff < 0 \<and> (tm_year ltm > tm_year gtm \<or> tm_mon ltm > tm_mon gtm \<or> tm_mday ltm > tm_mday gtm) then tzoff + 86400
         else tzoff)"

definition g_time_val_diff :: "int \<times> int \<Rightarrow> int \<times> int \<Rightarrow> int" where
  "g_time_val_diff t1 t2 = (fst t1 - fst t2) * 1000000 + (snd t1 - snd t2)"

text \<open>\<^verbatim>\<open>msec\<close> is divided towards zero; a nanosecond count of exactly one second is not carried.\<close>

definition timespec_add_msec :: "int \<times> int \<Rightarrow> nat \<Rightarrow> int \<times> int" where
  "timespec_add_msec ts msec =
     (let sec = fst ts + int (msec div 1000); nsec = snd ts + int (msec mod 1000) * 1000000
      in if nsec > 1000000000 then (sec + 1, nsec - 1000000000) else (sec, nsec))"

subsection \<open>Formatting\<close>

definition month_names_abbrev :: "string list" where
  "month_names_abbrev = [''Jan'', ''Feb'', ''Mar'', ''Apr'', ''May'', ''Jun'', ''Jul'', ''Aug'', ''Sep'', ''Oct'', ''Nov'', ''Dec'']"

record log_stamp =
  ls_tv_sec :: int
  ls_tv_usec :: nat
  ls_zone_offset :: int

datatype ts_format = TS_FMT_BSD | TS_FMT_ISO | TS_FMT_FULL | TS_FMT_UNIX

text \<open>The loop over the powers of ten \<open>x\<close>.\<close>

function frac_loop :: "nat \<Rightarrow> nat \<Rightarrow> nat \<Rightarrow> string" where
  "frac_loop frac_digits x usecs =
     (if frac_digits \<noteq> 0 \<and> x \<noteq> 0 then char_of (usecs div x + 48) # frac_loop (frac_digits - 1) (x div 10) (usecs mod x) else [])"
  by pat_completeness auto
termination
  by (relation "measure (\<lambda>(f, x, u). f)") auto

declare frac_loop.simps [simp del]

definition log_stamp_append_frac_digits :: "log_stamp \<Rightarrow> string \<Rightarrow> int \<Rightarrow> string" where
  "log_stamp_append_frac_digits stamp target frac_digits =
     (if frac_digits > 0 then target @ ''.'' @ frac_loop (nat frac_digits) 100000 (ls_tv_usec stamp mod 1000000) else target)"

definition append_uint :: "int \<Rightarrow> char \<Rightarrow> int \<Rightarrow> string \<Rightarrow> string" where
  "append_uint field_len pad v target = fst (format_uint32_padded target field_len pad 10 (word_of_int v))"

definition append_hms :: "tm \<Rightarrow> string \<Rightarrow> string" where
  "append_hms t target =
     append_uint 2 CHR ''0'' (tm_sec t) (append_uint 2 CHR ''0'' (tm_min t) (append_uint 2 CHR ''0'' (tm_hour t) target @ '':'') @ '':'')"

text \<open>\<open>None\<close>: a month outside the table of names. The assertion on unknown formats cannot fail in the
  model, where the format is an enumeration.\<close>

definition log_stamp_append_format ::
    "(int \<Rightarrow> tm) \<Rightarrow> time_cache \<Rightarrow> log_stamp \<Rightarrow> string \<Rightarrow> ts_format \<Rightarrow> int \<Rightarrow> int \<Rightarrow> string option \<times> time_cache" where
  "log_stamp_append_format gmtime cache stamp target ts_format zone_offset frac_digits =
     (let target_zone_offset = (if zone_offset \<noteq> -1 then zone_offset else ls_zone_offset stamp);
          (t, cache') = cached_gmtime gmtime cache (ls_tv_sec stamp + target_zone_offset);
          month = (if 0 \<le> tm_mon t \<and> tm_mon t < 12 then Some (month_names_abbrev ! nat (tm_mon t)) else None)
      in (case ts_format of
            TS_FMT_BSD \<Rightarrow> map_option (\<lambda>m.
              log_stamp_append_frac_digits stamp (append_hms t (append_uint 2 CHR '' '' (tm_mday t) (target @ m @ '' '') @ '' '')) frac_digits) month
          | TS_FMT_ISO \<Rightarrow> Some (
              log_stamp_append_frac_digits stamp
                (append_hms t (append_uint 2 CHR ''0'' (tm_mday t) (append_uint 2 CHR ''0'' (tm_mon t + 1)
                  (append_uint 0 NUL (tm_year t + 1900) target @ ''-'') @ ''-'') @ ''T'')) frac_digits
              @ fst (format_zone_info 8 target_zone_offset))
          | TS_FMT_FULL \<Rightarrow> map_option (\<lambda>m.
              log_stamp_append_frac_digits stamp
                (append_hms t (append_uint 2 CHR '' '' (tm_mday t) (append_uint 0 NUL (tm_year t + 1900) target @ '' '' @ m @ '' '') @ '' ''))
                frac_digits) month
          | TS_FMT_UNIX \<Rightarrow> Some (log_stamp_append_frac_digits stamp (append_uint 0 NUL (ls_tv_sec stamp) target) frac_digits),
          cache'))"

definition log_stamp_format ::
    "(int \<Rightarrow> tm) \<Rightarrow> time_cache \<Rightarrow> log_stamp \<Rightarrow> string \<Rightarrow> ts_format \<Rightarrow> int \<Rightarrow> int \<Rightarrow> string option \<times> time_cache" where
  "log_stamp_format gmtime cache stamp target ts_format zone_offset frac_digits =
     log_stamp_append_format gmtime cache stamp [] ts_format zone_offset frac_digits"

subsection \<open>The caches are transparent\<close>

text \<open>A cache entry is the untouched zero entry or holds the result of its time, in the slot of its time.\<close>

definition cache_ok :: "(int \<Rightarrow> tm) \<Rightarrow> time_cache \<Rightarrow> bool" where
  "cache_ok f c \<longleftrightarrow> length c = 64 \<and> (\<forall>(w, t) \<in> set c. w \<noteq> 0 \<longrightarrow> t = f w)"

lemma cache_ok_clean: "cache_ok f clean_time_cache"
  by (auto simp: cache_ok_def clean_time_cache_def)

lemma slot_less: "nat (w AND 0x3F) < 64"
proof -
  have "w AND 0x3F = take_bit 6 w" by (simp add: take_bit_eq_mask mask_eq_exp_minus_1)
  moreover have "take_bit 6 w < 64" using take_bit_int_less_exp[of 6 w] by simp
  ultimately show ?thesis by simp
qed

lemma cached_gmtime_ok:
  assumes "cache_ok f c"
  shows "w \<noteq> 0 \<Longrightarrow> fst (cached_gmtime f c w) = f w" "cache_ok f (snd (cached_gmtime f c w))"
proof -
  let ?i = "nat (w AND 0x3F)"
  have i: "?i < length c" using slot_less[of w] assms by (simp add: cache_ok_def)
  then have mem: "c ! ?i \<in> set c" by simp
  show "fst (cached_gmtime f c w) = f w" if "w \<noteq> 0"
    using assms mem that by (cases "c ! ?i") (auto simp: cached_gmtime_def cache_ok_def Let_def)
  have "set (c[?i := (w, f w)]) \<subseteq> insert (w, f w) (set c)" by (rule set_update_subset_insert)
  then show "cache_ok f (snd (cached_gmtime f c w))"
    using assms by (auto simp: cached_gmtime_def cache_ok_def Let_def)
qed

lemma cached_localtime_eq: "cached_localtime = cached_gmtime"
  by (simp add: cached_localtime_def cached_gmtime_def fun_eq_iff)


subsection \<open>Formatted timestamps can be scanned\<close>

text \<open>What the calendar functions promise of their results, for years of four digits.\<close>

definition tm_ok :: "tm \<Rightarrow> bool" where
  "tm_ok t \<longleftrightarrow> 1000 \<le> tm_year t + 1900 \<and> tm_year t + 1900 < 10000 \<and> 0 \<le> tm_mon t \<and> tm_mon t < 12 \<and>
     1 \<le> tm_mday t \<and> tm_mday t \<le> 31 \<and> 0 \<le> tm_hour t \<and> tm_hour t < 24 \<and> 0 \<le> tm_min t \<and> tm_min t < 60 \<and>
     0 \<le> tm_sec t \<and> tm_sec t \<le> 60"

lemma append_uint_dec:
  assumes "0 \<le> v" "v < 2 ^ 32"
  shows "append_uint w pad v target = target @ dec_field (nat w) pad (nat v)"
proof -
  have "unat (word_of_int v :: guint32) = nat v" using assms by (simp add: unat_eq_nat_uint uint_word_of_int)
  then show ?thesis by (simp add: append_uint_def format_uint32_dec)
qed

lemma length_rdigs_year:
  assumes "1000 \<le> y" "y < 10000"
  shows "length (rdigs 10 y) = 4"
proof -
  have "length (rdigs 10 v) = 1" if "v < 10" for v using that by (subst rdigs.simps) simp
  then have "length (rdigs 10 v) = 2" if "10 \<le> v" "v < 100" for v using that by (subst rdigs.simps) simp
  then have "length (rdigs 10 v) = 3" if "100 \<le> v" "v < 1000" for v using that by (subst rdigs.simps) simp
  then show ?thesis using assms by (subst rdigs.simps) simp
qed

lemma dec_field_year: "1000 \<le> y \<Longrightarrow> y < 10000 \<Longrightarrow> dec_field 0 pad y = dec_field 4 CHR ''0'' y"
  by (simp add: dec_field_def length_rdigs_year)

lemma scan_then_Some [simp]: "p buf = (b, Some x) \<Longrightarrow> scan_then p f buf = f x b"
  by (simp add: scan_then_def)

lemma scan_expect_hit [simp]: "scan_expect_char c (c # rest) = (rest, Some ())"
  by (simp add: scan_expect_char_def)

lemma scan_two:
  assumes "pad = CHR ''0'' \<or> pad = CHR '' ''" "0 \<le> v" "v < 100"
  shows "scan_int 2 (dec_field 2 pad (nat v) @ rest) = (rest, Some v)"
  using scan_int_dec_field[OF assms(1), of "nat v" 2 rest] assms by simp

lemma scan_year: "0 \<le> v \<Longrightarrow> v < 10000 \<Longrightarrow> scan_int 4 (dec_field 4 CHR ''0'' (nat v) @ rest) = (rest, Some v)"
  using scan_int_dec_field[of "CHR ''0''" "nat v" 4 rest] by simp

lemma append_hms_dec:
  assumes "tm_ok t"
  shows "append_hms t target = target @ dec_field 2 CHR ''0'' (nat (tm_hour t)) @ '':'' @ dec_field 2 CHR ''0'' (nat (tm_min t)) @ '':'' @
    dec_field 2 CHR ''0'' (nat (tm_sec t))"
  using assms by (simp add: append_hms_def append_uint_dec tm_ok_def)

lemma scan_hms_dec:
  assumes "tm_ok t"
  shows "scan_hms f (dec_field 2 CHR ''0'' (nat (tm_hour t)) @ '':'' @ dec_field 2 CHR ''0'' (nat (tm_min t)) @ '':'' @
    dec_field 2 CHR ''0'' (nat (tm_sec t)) @ rest) = f (tm_hour t) (tm_min t) (tm_sec t) rest"
  using assms by (simp add: scan_hms_def scan_two tm_ok_def)

lemma scan_month_name:
  assumes "0 \<le> m" "m < 12"
  shows "scan_month_abbrev (month_names_abbrev ! nat m @ rest) = (rest, Some m)"
proof -
  have "nat m < 12" using assms by simp
  then have "nat m \<in> {0, 1, 2, 3, 4, 5, 6, 7, 8, 9, 10, 11}" by (auto simp: numeral_eq_Suc less_Suc_eq)
  moreover have "m = int (nat m)" using assms by simp
  ultimately show ?thesis
    by (elim insertE emptyE) (simp_all add: scan_month_abbrev_def month_names_abbrev_def)
qed

definition frac_text :: "log_stamp \<Rightarrow> int \<Rightarrow> string" where
  "frac_text stamp frac_digits = log_stamp_append_frac_digits stamp [] frac_digits"

lemma append_frac: "log_stamp_append_frac_digits stamp target frac_digits = target @ frac_text stamp frac_digits"
  by (simp add: log_stamp_append_frac_digits_def frac_text_def)

text \<open>The digits of the fraction are the leading ones of the six digits of the microseconds.\<close>

abbreviation dec_value :: "nat \<Rightarrow> string \<Rightarrow> nat" where
  "dec_value acc s \<equiv> foldl (\<lambda>r c. r * 10 + digit_value c) acc s"

lemma digit_value_char: "d < 10 \<Longrightarrow> digit_value (char_of (d + 48)) = d" "d < 10 \<Longrightarrow> isdigit (char_of (d + 48))"
  by (simp_all add: digit_value_def isdigit_code)

lemma split_power: "m \<le> k \<Longrightarrow> u div 10 ^ k * 10 ^ m + u mod 10 ^ k div 10 ^ (k - m) = (u :: nat) div 10 ^ (k - m)"
proof -
  assume "m \<le> k"
  then have k: "(10 :: nat) ^ k = 10 ^ (k - m) * 10 ^ m" by (simp flip: power_add)
  have "u mod 10 ^ k div 10 ^ (k - m) = u div 10 ^ (k - m) mod 10 ^ m" unfolding k by (simp add: mod_mult2_eq)
  moreover have "u div 10 ^ k = u div 10 ^ (k - m) div 10 ^ m" unfolding k by (simp add: div_mult2_eq)
  ultimately show ?thesis by (simp only: div_mult_mod_eq)
qed

lemma frac_loop_value:
  "n \<le> Suc k \<Longrightarrow> u < 10 ^ Suc k \<Longrightarrow> dec_value acc (frac_loop n (10 ^ k) u) = acc * 10 ^ n + u div 10 ^ (Suc k - n) \<and>
    length (frac_loop n (10 ^ k) u) = n \<and> (\<forall>c \<in> set (frac_loop n (10 ^ k) u). isdigit c)"
proof (induction n arbitrary: k u acc)
  case 0
  then show ?case by (simp add: frac_loop.simps)
next
  case (Suc n)
  let ?d = "u div 10 ^ k" and ?u = "u mod 10 ^ k"
  have d: "?d < 10" using Suc.prems(2) by (simp add: less_mult_imp_div_less)
  have unfold: "frac_loop (Suc n) (10 ^ k) u = char_of (?d + 48) # frac_loop n (10 ^ k div 10) ?u" by (subst frac_loop.simps) simp
  show ?case
  proof (cases k)
    case 0
    then show ?thesis using Suc.prems d unfolding unfold by (simp add: digit_value_char frac_loop.simps)
  next
    case (Suc j)
    have "?u < 10 ^ Suc j" unfolding Suc by simp
    then have IH: "dec_value acc' (frac_loop n (10 ^ j) ?u) = acc' * 10 ^ n + ?u div 10 ^ (k - n) \<and>
        length (frac_loop n (10 ^ j) ?u) = n \<and> (\<forall>c \<in> set (frac_loop n (10 ^ j) ?u). isdigit c)" for acc'
      using Suc.IH[of j ?u acc'] Suc.prems(1) Suc by simp
    have "(10 :: nat) ^ k div 10 = 10 ^ j" unfolding Suc by simp
    moreover have "digit_value (char_of (?d + 48)) = ?d" "isdigit (char_of (?d + 48))" using d by (simp_all only: digit_value_char)
    ultimately show ?thesis
      using IH split_power[of n k u] Suc.prems(1) unfolding unfold by (simp add: add_mult_distrib)
  qed
qed

text \<open>The ISO and BSD texts up to the seconds.\<close>

definition hms_text :: "tm \<Rightarrow> string" where
  "hms_text t = dec_field 2 CHR ''0'' (nat (tm_hour t)) @ '':'' @ dec_field 2 CHR ''0'' (nat (tm_min t)) @ '':'' @ dec_field 2 CHR ''0'' (nat (tm_sec t))"

definition iso_date_text :: "tm \<Rightarrow> string" where
  "iso_date_text t = dec_field 4 CHR ''0'' (nat (tm_year t + 1900)) @ ''-'' @ dec_field 2 CHR ''0'' (nat (tm_mon t + 1)) @ ''-'' @
    dec_field 2 CHR ''0'' (nat (tm_mday t)) @ ''T'' @ hms_text t"

definition bsd_date_text :: "tm \<Rightarrow> string" where
  "bsd_date_text t = month_names_abbrev ! nat (tm_mon t) @ '' '' @ dec_field 2 CHR '' '' (nat (tm_mday t)) @ '' '' @ hms_text t"

lemma tm_ok_ranges:
  assumes "tm_ok t"
  shows "0 \<le> tm_year t + 1900" "tm_year t + 1900 < 10000" "1000 \<le> nat (tm_year t + 1900)" "nat (tm_year t + 1900) < 10000"
    "0 \<le> tm_mon t" "tm_mon t < 12" "0 \<le> tm_mday t" "tm_mday t < 100"
  using assms by (auto simp: tm_ok_def)

lemma scan_date_texts:
  assumes "tm_ok t"
  shows "scan_iso_timestamp (iso_date_text t @ rest) = (rest, Some t)"
    "scan_bsd_timestamp year (bsd_date_text t @ rest) = (rest, Some (t\<lparr>tm_year := year\<rparr>))"
proof -
  have "scan_hms f (hms_text t @ r) = f (tm_hour t) (tm_min t) (tm_sec t) r" for f :: "int \<Rightarrow> int \<Rightarrow> int \<Rightarrow> tm scanner" and r
    using scan_hms_dec[OF assms, of f r] by (simp add: hms_text_def)
  then show "scan_iso_timestamp (iso_date_text t @ rest) = (rest, Some t)"
    "scan_bsd_timestamp year (bsd_date_text t @ rest) = (rest, Some (t\<lparr>tm_year := year\<rparr>))"
    using tm_ok_ranges[OF assms]
    by (simp_all add: scan_iso_timestamp_def scan_bsd_timestamp_def iso_date_text_def bsd_date_text_def scan_two scan_year scan_month_name scan_done_def)
qed

lemma log_stamp_format_texts:
  fixes stamp gmtime cache zone_offset
  defines "ofs \<equiv> if zone_offset \<noteq> -1 then zone_offset else ls_zone_offset stamp"
  defines "t \<equiv> gmtime (ls_tv_sec stamp + ofs)"
  assumes "cache_ok gmtime cache" "tm_ok t" "ls_tv_sec stamp + ofs \<noteq> 0"
  shows "fst (log_stamp_format gmtime cache stamp target TS_FMT_ISO zone_offset frac) =
      Some (iso_date_text t @ frac_text stamp frac @ fst (format_zone_info 8 ofs))"
    "fst (log_stamp_format gmtime cache stamp target TS_FMT_BSD zone_offset frac) = Some (bsd_date_text t @ frac_text stamp frac)"
proof -
  have gm: "fst (cached_gmtime gmtime cache (ls_tv_sec stamp + ofs)) = t"
    using assms(3,5) by (simp add: cached_gmtime_ok(1) t_def)
  have ok: "tm_ok t" by fact
  show "fst (log_stamp_format gmtime cache stamp target TS_FMT_ISO zone_offset frac) =
      Some (iso_date_text t @ frac_text stamp frac @ fst (format_zone_info 8 ofs))"
    "fst (log_stamp_format gmtime cache stamp target TS_FMT_BSD zone_offset frac) = Some (bsd_date_text t @ frac_text stamp frac)"
    using tm_ok_ranges[OF ok] gm unfolding log_stamp_format_def log_stamp_append_format_def Let_def ofs_def[symmetric] split_beta
    by (simp_all add: append_hms_dec[OF ok] append_uint_dec dec_field_year append_frac iso_date_text_def bsd_date_text_def hms_text_def)
qed

lemma frac_text_digits:
  assumes "0 < n" "n \<le> 6" "ls_tv_usec stamp < 1000000"
  shows "\<exists>frac. frac_text stamp (int n) = ''.'' @ frac \<and> length frac = n \<and> (\<forall>c \<in> set frac. isdigit c) \<and>
    dec_value 0 frac = ls_tv_usec stamp div 10 ^ (6 - n)"
  using frac_loop_value[of n 5 "ls_tv_usec stamp" 0] assms by (simp add: frac_text_def log_stamp_append_frac_digits_def)

subsection \<open>Properties\<close>

text \<open>C37: The calendar caches are transparent. Starting from the zeroed cache, after any sequence of lookups,
  a lookup gives what the calendar function gives, except for the time 0: the zeroed entries count
  as entries for it, and its first lookup returns the zeroed fields.\<close>

theorem cached_gmtime_transparent:
  assumes "w \<noteq> 0"
  shows "fst (cached_gmtime gmtime (foldl (\<lambda>c v. snd (cached_gmtime gmtime c v)) clean_time_cache ws) w) = gmtime w \<and>
    fst (cached_localtime localtime (foldl (\<lambda>c v. snd (cached_localtime localtime c v)) clean_time_cache ws) w) = localtime w \<and>
    fst (cached_gmtime gmtime clean_time_cache 0) = zero_tm"
proof -
  have "cache_ok f c \<Longrightarrow> cache_ok f (foldl (\<lambda>c v. snd (cached_gmtime f c v)) c ws)" for f c
    by (induction ws arbitrary: c) (auto simp: cached_gmtime_ok(2))
  then show ?thesis using assms cache_ok_clean
    by (simp add: cached_gmtime_ok(1) cached_localtime_eq) (simp add: cached_gmtime_def clean_time_cache_def)
qed

lemma cached_gmtime_transparent_witness:
  "fst (cached_gmtime (\<lambda>w. zero_tm\<lparr>tm_sec := w\<rparr>) (snd (cached_gmtime (\<lambda>w. zero_tm\<lparr>tm_sec := w\<rparr>) clean_time_cache 7)) 71) = zero_tm\<lparr>tm_sec := 71\<rparr>"
  using cached_gmtime_transparent[where w = 71 and gmtime = "\<lambda>w. zero_tm\<lparr>tm_sec := w\<rparr>" and ws = "[7]"] by simp

text \<open>C38: A formatted timestamp is read back. For a calendar that delivers fields in range, the ISO and
  the BSD text of a timestamp, at whatever offset, is scanned to the broken-down time it was made from (the
  BSD text without the year); after it come the fraction, whose digits are the leading digits of the
  microseconds, and, in the ISO text, the zone.\<close>

theorem log_stamp_format_scan:
  fixes stamp gmtime cache zone_offset
  defines "ofs \<equiv> if zone_offset \<noteq> -1 then zone_offset else ls_zone_offset stamp"
  defines "t \<equiv> gmtime (ls_tv_sec stamp + ofs)"
  assumes "cache_ok gmtime cache" "tm_ok t" "ls_tv_sec stamp + ofs \<noteq> 0" "0 < n" "n \<le> 6" "ls_tv_usec stamp < 1000000"
  shows "\<exists>iso bsd frac. fst (log_stamp_format gmtime cache stamp target TS_FMT_ISO zone_offset (int n)) = Some iso \<and>
    scan_iso_timestamp (iso @ rest) = (''.'' @ frac @ fst (format_zone_info 8 ofs) @ rest, Some t) \<and>
    fst (log_stamp_format gmtime cache stamp target TS_FMT_BSD zone_offset (int n)) = Some bsd \<and>
    scan_bsd_timestamp year (bsd @ rest) = (''.'' @ frac @ rest, Some (t\<lparr>tm_year := year\<rparr>)) \<and>
    length frac = n \<and> (\<forall>c \<in> set frac. isdigit c) \<and> dec_value 0 frac = ls_tv_usec stamp div 10 ^ (6 - n)"
proof -
  obtain frac where f: "frac_text stamp (int n) = ''.'' @ frac" "length frac = n" "\<forall>c \<in> set frac. isdigit c"
    "dec_value 0 frac = ls_tv_usec stamp div 10 ^ (6 - n)" using frac_text_digits[OF assms(6-8)] by blast
  note texts = log_stamp_format_texts[of gmtime cache stamp zone_offset target "int n", folded ofs_def, folded t_def, OF assms(3-5)]
  show ?thesis
    using texts f scan_date_texts[OF assms(4)] by auto
qed


definition sample_gmtime :: "int \<Rightarrow> tm" where
  "sample_gmtime w = \<lparr>tm_year = 112, tm_mon = 6, tm_mday = 4, tm_hour = 9, tm_min = 30, tm_sec = w mod 60\<rparr>"

lemma log_stamp_format_scan_witness:
  "\<exists>iso frac. fst (log_stamp_format sample_gmtime clean_time_cache \<lparr>ls_tv_sec = 1341394205, ls_tv_usec = 123456, ls_zone_offset = 3600\<rparr> [] TS_FMT_ISO (-1) 3) = Some iso \<and>
    scan_iso_timestamp (iso @ []) = (''.'' @ frac @ fst (format_zone_info 8 3600) @ [], Some (sample_gmtime 1341397805)) \<and> dec_value 0 frac = 123"
proof -
  have "tm_ok (sample_gmtime 1341397805)" by (simp add: tm_ok_def sample_gmtime_def)
  then show ?thesis
    using log_stamp_format_scan[of sample_gmtime clean_time_cache "\<lparr>ls_tv_sec = 1341394205, ls_tv_usec = 123456, ls_zone_offset = 3600\<rparr>" "-1" 3 "[]" "[]" 0]
      cache_ok_clean[of sample_gmtime] by auto
qed

end
