(* ===== verification/Find_Crlf.thy ===== *)
theory Find_Crlf
  imports Prelude
begin

text \<open>
  \<^verbatim>\<open>find_cr_or_lf\<close> of \<^verbatim>\<open>lib/misc.c\<close>: the search for the end of a line that tests eight bytes at a time with
  a carry trick, on a 64-bit little-endian machine. The argument is the string of the \<open>n\<close> characters and
  the address of the first of them, which decides how many are tested one by one until the address
  is aligned.
\<close>

subsection \<open>The search\<close>

datatype scan_result = Found nat | Stopped | Clean

fun scan_bytes :: "nat \<Rightarrow> string \<Rightarrow> scan_result" where
  "scan_bytes i [] = Clean"
| "scan_bytes i (c # cs) =
     (if c = CHR 0x0D \<or> c = CHR 0x0A then Found i else if c = NUL then Stopped else scan_bytes (Suc i) cs)"

fun le_word :: "string \<Rightarrow> guint64" where
  "le_word [] = 0"
| "le_word (c # cs) = of_nat (code c) OR push_bit 8 (le_word cs)"

definition magic_bits :: guint64 where
  "magic_bits = 0x7efefefefefefeff"

definition zero_byte_test :: "guint64 \<Rightarrow> bool" where
  "zero_byte_test longword \<longleftrightarrow> ((longword + magic_bits) XOR NOT longword) AND NOT magic_bits \<noteq> 0"

definition longword_test :: "guint64 \<Rightarrow> bool" where
  "longword_test longword \<longleftrightarrow>
     zero_byte_test longword \<or> zero_byte_test (longword XOR le_word (replicate 8 CHR 0x0D)) \<or>
     zero_byte_test (longword XOR le_word (replicate 8 CHR 0x0A))"

definition result_of :: "scan_result \<Rightarrow> nat option" where
  "result_of r = (case r of Found i \<Rightarrow> Some i | _ \<Rightarrow> None)"

function longword_loop :: "nat \<Rightarrow> string \<Rightarrow> nat option" where
  "longword_loop i s =
     (if length s > 8 then
        (if longword_test (le_word (take 8 s)) then
           (case scan_bytes i (take 8 s) of
              Found j \<Rightarrow> Some j
            | Stopped \<Rightarrow> None
            | Clean \<Rightarrow> longword_loop (i + 8) (drop 8 s))
         else longword_loop (i + 8) (drop 8 s))
      else result_of (scan_bytes i s))"
  by pat_completeness auto
termination
  by (relation "measure (\<lambda>(i, s). length s)") auto

declare longword_loop.simps [simp del]

definition find_cr_or_lf :: "nat \<Rightarrow> string \<Rightarrow> nat option" where
  "find_cr_or_lf addr s =
     (let k = min (length s) ((8 - addr mod 8) mod 8)
      in case scan_bytes 0 (take k s) of
           Found i \<Rightarrow> Some i
         | Stopped \<Rightarrow> None
         | Clean \<Rightarrow> longword_loop k (drop k s))"

subsection \<open>The carry trick\<close>

lemma bit_add_no_carry:
  fixes a b :: "'a :: len word"
  assumes "h < LENGTH('a)" "\<not> bit b h" "uint a mod 2 ^ h + uint b mod 2 ^ h < 2 ^ h"
  shows "bit (a + b) h = bit a h"
proof -
  have "(uint a + uint b) div 2 ^ h = uint a div 2 ^ h + uint b div 2 ^ h"
    using assms(3) by (subst div_add1_eq) (simp add: div_pos_pos_trivial)
  moreover have "\<not> bit (uint b) h" using assms(2) by (simp add: bit_uint_iff)
  then have "even (uint b div 2 ^ h)" by (simp add: bit_iff_odd)
  ultimately have "odd ((uint a + uint b) div 2 ^ h) = odd (uint a div 2 ^ h)" by simp
  then have "bit (uint a + uint b) h = bit (uint a) h" by (simp add: bit_iff_odd)
  moreover have "bit (uint (a + b)) h = bit (uint a + uint b) h"
    using assms(1) by (simp add: uint_word_arith_bintrs(1) bit_take_bit_iff)
  ultimately show ?thesis using assms(1) by (simp add: bit_uint_iff)
qed

definition byte_of :: "nat \<Rightarrow> guint64 \<Rightarrow> guint64" where
  "byte_of i w = take_bit 8 (drop_bit (8 * i) w)"

lemma uint_drop: "uint (drop_bit n (w :: 'a :: len word)) = drop_bit n (uint w)"
  by (simp only: unsigned_drop_bit_eq take_bit_int_eq_self uint_ge_0 uint_lt2p)

lemma zero_byte_low:
  assumes "byte_of i w = 0" "i < 8"
  shows "uint w mod 2 ^ (8 * i + 8) = uint w mod 2 ^ (8 * i)"
proof -
  have "uint (byte_of i w) = 0" using assms(1) by simp
  then have "uint w div 2 ^ (8 * i) mod 2 ^ 8 = 0"
    unfolding byte_of_def by (simp only: unsigned_take_bit_eq uint_drop) (simp only: take_bit_eq_mod drop_bit_eq_div)
  then show ?thesis by (simp add: power_add zmod_zmult2_eq)
qed


lemma zero_byte_test_byte:
  assumes "byte_of i w = 0" "i < 8"
  shows "zero_byte_test w"
proof -
  define h where "h = (if i = 7 then 63 else 8 * i + 8)"
  have low: "uint w mod 2 ^ (8 * i + 8) < 2 ^ (8 * i)" using zero_byte_low[OF assms] by simp
  have small: "uint w mod 2 ^ h < 2 ^ (8 * i)"
  proof (cases "i = 7")
    case True
    then have "uint w < 2 ^ 56" using low uint_lt2p[of w] by simp
    with True show ?thesis by (simp add: h_def)
  qed (use low in \<open>simp add: h_def\<close>)
  have i: "i \<in> {0, 1, 2, 3, 4, 5, 6, 7}" using assms(2) by (auto simp: numeral_eq_Suc less_Suc_eq)
  then have m: "uint magic_bits mod 2 ^ h + 2 ^ (8 * i) \<le> 2 ^ h" "\<not> bit magic_bits h" "h < 64"
    by (auto simp: h_def magic_bits_def)
  then have "bit (w + magic_bits) h = bit w h" using small by (intro bit_add_no_carry) auto
  then have "bit (((w + magic_bits) XOR NOT w) AND NOT magic_bits) h"
    using m(2,3) by (simp add: bit_and_iff bit_xor_iff bit_not_iff)
  then show ?thesis unfolding zero_byte_test_def by (metis bit_0_eq bot_apply bot_bool_def)
qed

lemma byte_of_xor: "byte_of i (v XOR w) = byte_of i v XOR byte_of i w"
  by (simp add: byte_of_def)

lemma bit_word_of_nat_iff: "bit (of_nat n :: 'a :: len word) k \<longleftrightarrow> k < LENGTH('a) \<and> bit n k"
  by transfer (simp add: bit_take_bit_iff bit_of_nat_iff)

lemma bit_code: "bit (code c :: nat) k \<Longrightarrow> k < 8"
proof -
  assume b: "bit (code c :: nat) k"
  have "code c = (code c :: nat) mod 256" using of_char_of[of "code c :: nat"] by simp
  then have "code c < (256 :: nat)" by (metis mod_less_divisor zero_less_numeral)
  then have "take_bit 8 (code c) = (code c :: nat)" by (simp add: take_bit_nat_eq_self)
  with b show ?thesis by (metis bit_take_bit_iff)
qed

lemma bit_le_word: "k < 64 \<Longrightarrow> bit (le_word s) k \<longleftrightarrow> k div 8 < length s \<and> bit (code (s ! (k div 8)) :: nat) (k mod 8)"
proof (induction s arbitrary: k)
  case (Cons c cs)
  have "bit (le_word (c # cs)) k \<longleftrightarrow> bit (code c :: nat) k \<or> (8 \<le> k \<and> bit (le_word cs) (k - 8))"
    using Cons.prems by (simp add: bit_or_iff bit_push_bit_iff bit_word_of_nat_iff)
  also have "\<dots> \<longleftrightarrow> k div 8 < length (c # cs) \<and> bit (code ((c # cs) ! (k div 8)) :: nat) (k mod 8)"
  proof (cases "k < 8")
    case False
    then have "k div 8 = Suc ((k - 8) div 8)" "k mod 8 = (k - 8) mod 8" by (auto simp: le_div_geq le_mod_geq)
    with False Cons.IH[of "k - 8"] Cons.prems bit_code[of c k] show ?thesis by auto
  qed simp
  finally show ?case .
qed simp

lemma byte_of_le_word: "i < length s \<Longrightarrow> i < 8 \<Longrightarrow> byte_of i (le_word s) = of_nat (code (s ! i))"
proof (rule bit_word_eqI)
  fix n
  assume *: "i < length s" "i < 8" "n < LENGTH(64)"
  show "bit (byte_of i (le_word s)) n = bit (of_nat (code (s ! i)) :: guint64) n"
  proof (cases "n < 8")
    case True
    then have "8 * i + n < 64" "(8 * i + n) div 8 = i" "(8 * i + n) mod 8 = n" using *(2) by auto
    with True *(1,3) show ?thesis
      by (simp add: byte_of_def bit_take_bit_iff bit_drop_bit_eq bit_le_word bit_word_of_nat_iff)
  next
    case False
    then show ?thesis using bit_code[of "s ! i" n] *(3) by (auto simp: byte_of_def bit_take_bit_iff bit_word_of_nat_iff)
  qed
qed

text \<open>The test misses no byte that ends the search.\<close>

lemma longword_test_complete:
  assumes "length s = 8" "c \<in> set s" "c = CHR 0x0D \<or> c = CHR 0x0A \<or> c = NUL"
  shows "longword_test (le_word s)"
proof -
  obtain i where i: "i < 8" "s ! i = c" using assms(1,2) by (metis in_set_conv_nth)
  have "byte_of i (le_word s) = of_nat (code c)" using i assms(1) by (simp add: byte_of_le_word)
  moreover have "byte_of i (le_word (replicate 8 d)) = of_nat (code d)" for d
    using i(1) by (subst byte_of_le_word) (simp_all only: length_replicate nth_replicate)
  ultimately have "byte_of i (le_word s) = 0 \<or> byte_of i (le_word s XOR le_word (replicate 8 CHR 0x0D)) = 0 \<or>
      byte_of i (le_word s XOR le_word (replicate 8 CHR 0x0A)) = 0"
    using assms(3) by (auto simp only: byte_of_xor) simp_all
  then show ?thesis unfolding longword_test_def using zero_byte_test_byte[OF _ i(1)] by blast
qed

lemma scan_bytes_Clean: "(\<forall>c \<in> set s. \<not> (c = CHR 0x0D \<or> c = CHR 0x0A \<or> c = NUL)) \<Longrightarrow> scan_bytes i s = Clean"
  by (induction s arbitrary: i) auto

lemma scan_bytes_append:
  "scan_bytes i (u @ v) = (case scan_bytes i u of Clean \<Rightarrow> scan_bytes (i + length u) v | r \<Rightarrow> r)"
  by (induction u arbitrary: i) (auto split: scan_result.split)

lemma longword_loop_scan: "longword_loop i s = result_of (scan_bytes i s)"
proof (induction i s rule: longword_loop.induct)
  case (1 i s)
  show ?case
  proof (cases "length s > 8")
    case True
    have split: "scan_bytes i s = (case scan_bytes i (take 8 s) of Clean \<Rightarrow> scan_bytes (i + 8) (drop 8 s) | r \<Rightarrow> r)"
      using scan_bytes_append[of i "take 8 s" "drop 8 s"] True by (simp split: scan_result.split)
    have clean: "scan_bytes i (take 8 s) = Clean" if "\<not> longword_test (le_word (take 8 s))"
      using longword_test_complete[of "take 8 s"] that True by (intro scan_bytes_Clean) auto
    show ?thesis
      using True 1 clean by (subst longword_loop.simps) (auto simp: split result_of_def split: scan_result.splits)
  qed (subst longword_loop.simps, simp)
qed

lemma find_cr_or_lf_scan: "find_cr_or_lf addr s = result_of (scan_bytes 0 s)"
proof -
  define k where "k = min (length s) ((8 - addr mod 8) mod 8)"
  have "scan_bytes 0 s = (case scan_bytes 0 (take k s) of Clean \<Rightarrow> scan_bytes k (drop k s) | r \<Rightarrow> r)"
    using scan_bytes_append[of 0 "take k s" "drop k s"] by (simp add: k_def split: scan_result.split)
  then show ?thesis
    unfolding find_cr_or_lf_def Let_def k_def[symmetric] by (simp add: longword_loop_scan result_of_def split: scan_result.splits)
qed

lemma scan_bytes_less: "scan_bytes i s = Found j \<Longrightarrow> j < i + length s"
  by (induction s arbitrary: i) (fastforce split: if_splits)+

lemma find_cr_or_lf_less: "find_cr_or_lf addr s = Some i \<Longrightarrow> i < length s"
  using scan_bytes_less[of 0 s] by (auto simp: find_cr_or_lf_scan result_of_def split: scan_result.splits)

subsection \<open>Property\<close>

text \<open>C18: The optimised search is the obvious one. For every string and every alignment of its address,
  testing eight bytes at a time finds what looking at the characters one by one finds: the first
  carriage return or line feed, unless a NUL comes before it.\<close>

theorem find_cr_or_lf_equiv: "find_cr_or_lf addr s = result_of (scan_bytes 0 s)"
  by (rule find_cr_or_lf_scan)

end
