(* ===== verification/Syslog_Format.thy ===== *)
theory Syslog_Format
  imports Log_Message Log_Stamp Find_Crlf "HOL-Library.Monad_Syntax"
begin

text \<open>
  The parsers of incoming messages (\<^verbatim>\<open>modules/syslogformat/syslog-format.c\<close>): the legacy format of
  RFC 3164 with its variants and the format of RFC 5424 with structured data.

  A position \<open>(mem, left)\<close> is the readable memory from the cursor on and the count of characters that
  belong to the message. The two differ: some tests look past the end of the message. Reading past
  the end of \<open>mem\<close>, and using a name that lost its terminator, is \<open>None\<close>. What the parsers do to the message
  object goes through the operations of \<open>msg_ops\<close>; the operations on \<^typ>\<open>log_message\<close> are their
  instance.
\<close>

subsection \<open>Positions\<close>

type_synonym pos = "string \<times> int"

definition peek :: "pos \<Rightarrow> nat \<Rightarrow> char option" where
  "peek p i = (if i < length (fst p) then Some (fst p ! i) else None)"

definition adv :: "pos \<Rightarrow> nat \<Rightarrow> pos" where
  "adv p k = (drop k (fst p), snd p - int k)"

text \<open>The \<open>n\<close> characters at the cursor, as they are passed to \<^verbatim>\<open>log_msg_set_value\<close>.\<close>

definition slice :: "pos \<Rightarrow> nat \<Rightarrow> string option" where
  "slice p n = (if n \<le> length (fst p) then Some (take n (fst p)) else None)"

subsection \<open>The message under construction\<close>

record 'm msg_ops =
  op_set_value :: "'m \<Rightarrow> nv_handle \<Rightarrow> string \<Rightarrow> 'm option"
  op_get_handle :: "'m \<Rightarrow> string \<Rightarrow> ('m \<times> nv_handle) option"
  op_get_value :: "'m \<Rightarrow> nv_handle \<Rightarrow> string option"
  op_or_flags :: "'m \<Rightarrow> guint32 \<Rightarrow> 'm"
  op_chk_flag :: "'m \<Rightarrow> guint32 \<Rightarrow> bool"
  op_set_initial_parse :: "'m \<Rightarrow> bool \<Rightarrow> 'm"
  op_reset :: "'m \<Rightarrow> nat \<Rightarrow> 'm option"
  op_clear_sdata :: "'m \<Rightarrow> 'm"
  op_overwrite :: "'m \<Rightarrow> nv_handle \<Rightarrow> string \<Rightarrow> 'm"

record 'm sf_msg =
  sf_m :: 'm
  sf_pri :: guint16
  sf_stamp :: log_stamp
  sf_recvd :: log_stamp

text \<open>What the parsers use of their surroundings: the parse options, the C library and GLib, the
  clock and the two handles that \<^verbatim>\<open>syslog_format_init\<close> registers.\<close>

record sf_env =
  se_flags :: guint32
  se_default_pri :: guint16
  se_sdata_param_value_max :: nat
  se_bad_hostname :: "(string \<Rightarrow> bool) option"
  se_recv_zone_offset :: int
  se_now :: int
  se_localtime :: "int \<Rightarrow> tm"
  se_mktime :: "tm \<Rightarrow> int \<times> tm"
  se_local_timezone_ofs :: "int \<Rightarrow> int"
  se_utf8_validate :: "string \<Rightarrow> bool"
  se_pid :: nat
  se_is_synced :: nv_handle
  se_cisco_seqid :: nv_handle

definition LP_NOPARSE :: guint32 where "LP_NOPARSE = 0x0001"
definition LP_CHECK_HOSTNAME :: guint32 where "LP_CHECK_HOSTNAME = 0x0002"
definition LP_SYSLOG_PROTOCOL :: guint32 where "LP_SYSLOG_PROTOCOL = 0x0004"
definition LP_ASSUME_UTF8 :: guint32 where "LP_ASSUME_UTF8 = 0x0008"
definition LP_VALIDATE_UTF8 :: guint32 where "LP_VALIDATE_UTF8 = 0x0010"
definition LP_NO_MULTI_LINE :: guint32 where "LP_NO_MULTI_LINE = 0x0020"
definition LP_STORE_LEGACY_MSGHDR :: guint32 where "LP_STORE_LEGACY_MSGHDR = 0x0040"
definition LP_EXPECT_HOSTNAME :: guint32 where "LP_EXPECT_HOSTNAME = 0x0080"
definition LP_LOCAL :: guint32 where "LP_LOCAL = 0x0100"

definition LF_UTF8 :: guint32 where "LF_UTF8 = 0x0001"
definition LF_INTERNAL :: guint32 where "LF_INTERNAL = 0x0002"
definition LF_LOCAL :: guint32 where "LF_LOCAL = 0x0004"

definition set_val :: "'m msg_ops \<Rightarrow> 'm sf_msg \<Rightarrow> nv_handle \<Rightarrow> string \<Rightarrow> 'm sf_msg option" where
  "set_val ops self h v = map_option (\<lambda>m. self\<lparr>sf_m := m\<rparr>) (op_set_value ops (sf_m self) h v)"

definition or_flags :: "'m msg_ops \<Rightarrow> 'm sf_msg \<Rightarrow> guint32 \<Rightarrow> 'm sf_msg" where
  "or_flags ops self f = self\<lparr>sf_m := op_or_flags ops (sf_m self) f\<rparr>"

subsection \<open>Priority, version and simple skipping\<close>

text \<open>The loop over the digits: \<open>Some None\<close> is the early return on another character.\<close>

fun pri_loop :: "int \<Rightarrow> string \<Rightarrow> int \<Rightarrow> (int \<times> pos) option option" where
  "pri_loop pri [] left = (if left = 0 then Some (Some (pri, [], left)) else None)"
| "pri_loop pri (c # cs) left =
     (if left = 0 \<or> c = CHR ''>'' then Some (Some (pri, c # cs, left))
      else if isdigit c then pri_loop (pri * 10 + int (digit_value c)) cs (left - 1)
      else Some None)"

text \<open>The facility \<^verbatim>\<open>user\<close> with the severity \<^verbatim>\<open>notice\<close> is 13.\<close>

definition log_msg_parse_pri :: "'m sf_msg \<Rightarrow> pos \<Rightarrow> guint16 \<Rightarrow> (bool \<times> 'm sf_msg \<times> pos) option" where
  "log_msg_parse_pri self p default_pri =
     (if snd p \<noteq> 0 then do {
        c \<leftarrow> peek p 0;
        if c = CHR ''<'' then do {
          r \<leftarrow> pri_loop 0 (fst (adv p 1)) (snd (adv p 1));
          (case r of
             None \<Rightarrow> Some (False, self, p)
           | Some (pri, q) \<Rightarrow> Some (True, self\<lparr>sf_pri := word_of_int pri\<rparr>, if snd q \<noteq> 0 then adv q 1 else q))
        }
        else Some (True, self\<lparr>sf_pri := if default_pri \<noteq> 0xFFFF then default_pri else 13\<rparr>, p)
      }
      else Some (True, self\<lparr>sf_pri := if default_pri \<noteq> 0xFFFF then default_pri else 13\<rparr>, p))"

fun skip_chars :: "string \<Rightarrow> int \<Rightarrow> nat \<Rightarrow> string \<Rightarrow> int \<Rightarrow> (nat \<times> pos) option" where
  "skip_chars chars max_len n [] left = (if max_len \<noteq> 0 \<and> left \<noteq> 0 then None else Some (n, [], left))"
| "skip_chars chars max_len n (c # cs) left =
     (if max_len \<noteq> 0 \<and> left \<noteq> 0 \<and> strchr_hit chars c
      then skip_chars chars (if max_len \<ge> 0 then max_len - 1 else max_len) (Suc n) cs (left - 1)
      else Some (n, c # cs, left))"

definition log_msg_parse_skip_chars :: "pos \<Rightarrow> string \<Rightarrow> int \<Rightarrow> (nat \<times> pos) option" where
  "log_msg_parse_skip_chars p chars max_len = skip_chars chars max_len 0 (fst p) (snd p)"

definition log_msg_parse_skip_space :: "pos \<Rightarrow> (bool \<times> pos) option" where
  "log_msg_parse_skip_space p =
     (if snd p > 0 then do { c \<leftarrow> peek p 0; Some (if c = CHR '' '' then (True, adv p 1) else (False, p)) }
      else Some (False, p))"

fun skip_until :: "string \<Rightarrow> nat \<Rightarrow> string \<Rightarrow> int \<Rightarrow> (nat \<times> pos) option" where
  "skip_until delims n [] left = (if left \<noteq> 0 then None else Some (n, [], left))"
| "skip_until delims n (c # cs) left =
     (if left \<noteq> 0 \<and> \<not> strchr_hit delims c then skip_until delims (Suc n) cs (left - 1) else Some (n, c # cs, left))"

definition log_msg_parse_skip_chars_until :: "pos \<Rightarrow> string \<Rightarrow> (nat \<times> pos) option" where
  "log_msg_parse_skip_chars_until p delims = skip_until delims 0 (fst p) (snd p)"

text \<open>\<^verbatim>\<open>memchr(src, ' ', left)\<close>: the index of the first blank among the characters of the message.\<close>

definition find_space :: "pos \<Rightarrow> nat option option" where
  "find_space p =
     (let w = takeWhile (\<lambda>c. c \<noteq> CHR '' '') (take (nat (snd p)) (fst p))
      in if length w < nat (snd p) \<and> length w < length (fst p) then Some (Some (length w))
         else if nat (snd p) \<le> length (fst p) then Some None else None)"

definition log_msg_parse_column ::
    "'m msg_ops \<Rightarrow> 'm sf_msg \<Rightarrow> nv_handle \<Rightarrow> pos \<Rightarrow> nat \<Rightarrow> ('m sf_msg \<times> pos) option" where
  "log_msg_parse_column ops self handle p max_length = do {
     space \<leftarrow> find_space p;
     (case space of
        None \<Rightarrow> Some (self, adv p (nat (snd p)))
      | Some n \<Rightarrow> do {
          c \<leftarrow> peek p 0;
          self' \<leftarrow> (if n > 1 \<or> c \<noteq> CHR ''-'' then set_val ops self handle (take (min n max_length) (fst p)) else Some self);
          Some (self', adv p n)
        })
   }"

fun digits_until :: "char \<Rightarrow> int \<Rightarrow> nat \<Rightarrow> string \<Rightarrow> int \<Rightarrow> (int \<times> nat \<times> pos) option option" where
  "digits_until stop v n [] left = (if left = 0 then Some (Some (v, n, [], left)) else None)"
| "digits_until stop v n (c # cs) left =
     (if left = 0 \<or> c = stop then Some (Some (v, n, c # cs, left))
      else if isdigit c then digits_until stop (v * 10 + int (digit_value c)) (Suc n) cs (left - 1)
      else Some None)"

text \<open>The sequence number of Cisco devices: the character after the colon is looked at even when the
  message has ended.\<close>

definition log_msg_parse_seq :: "'m msg_ops \<Rightarrow> sf_env \<Rightarrow> 'm sf_msg \<Rightarrow> pos \<Rightarrow> (bool \<times> 'm sf_msg \<times> pos) option" where
  "log_msg_parse_seq ops env self p = do {
     r \<leftarrow> digits_until CHR '':'' 0 0 (fst p) (snd p);
     (case r of
        None \<Rightarrow> Some (False, self, p)
      | Some (_, n, q) \<Rightarrow> do {
          c \<leftarrow> peek q 1;
          if c \<noteq> CHR '' '' then Some (False, self, p)
          else do {
            v \<leftarrow> slice p n;
            self' \<leftarrow> set_val ops self (se_cisco_seqid env) v;
            Some (True, self', adv q 1)
          }
        })
   }"

text \<open>The version is a 32-bit integer.\<close>

definition log_msg_parse_version :: "pos \<Rightarrow> (bool \<times> pos) option" where
  "log_msg_parse_version p = do {
     r \<leftarrow> digits_until CHR '' '' 0 0 (fst p) (snd p);
     (case r of
        None \<Rightarrow> Some (False, p)
      | Some (version, _, q) \<Rightarrow> Some (if word_of_int version \<noteq> (1 :: guint32) then (False, p) else (True, q)))
   }"


subsection \<open>Dates\<close>

text \<open>A scanner of \<^verbatim>\<open>lib/str-format.c\<close> runs on the characters of the message.\<close>

definition run_scan :: "'a scanner \<Rightarrow> pos \<Rightarrow> ('a option \<times> pos) option" where
  "run_scan sc p =
     (if nat (snd p) \<le> length (fst p)
      then (case sc (take (nat (snd p)) (fst p)) of (r, x) \<Rightarrow> Some (x, adv p (nat (snd p) - length r))) else None)"

text \<open>The digits of a fraction that count: at most six, \<open>dv\<close> being the variable \<^verbatim>\<open>div\<close>.\<close>

fun frac_digits_loop :: "nat \<Rightarrow> nat \<Rightarrow> string \<Rightarrow> int \<Rightarrow> (nat \<times> nat \<times> pos) option" where
  "frac_digits_loop frac dv [] left = (if left > 0 \<and> dv < 1000000 then None else Some (frac, dv, [], left))"
| "frac_digits_loop frac dv (c # cs) left =
     (if left > 0 \<and> dv < 1000000 \<and> isdigit c then frac_digits_loop (10 * frac + digit_value c) (dv * 10) cs (left - 1)
      else Some (frac, dv, c # cs, left))"

text \<open>The digits after them: in the ISO format this loop does not look at \<^verbatim>\<open>left\<close>.\<close>

fun skip_digits_unbounded :: "string \<Rightarrow> int \<Rightarrow> pos option" where
  "skip_digits_unbounded [] left = None"
| "skip_digits_unbounded (c # cs) left = (if isdigit c then skip_digits_unbounded cs (left - 1) else Some (c # cs, left))"

fun skip_digits_bounded :: "string \<Rightarrow> int \<Rightarrow> pos option" where
  "skip_digits_bounded [] left = (if left > 0 then None else Some ([], left))"
| "skip_digits_bounded (c # cs) left = (if left > 0 \<and> isdigit c then skip_digits_bounded cs (left - 1) else Some (c # cs, left))"

definition iso_fraction :: "pos \<Rightarrow> (nat \<times> pos) option" where
  "iso_fraction p =
     (if snd p > 0 then do {
        c \<leftarrow> peek p 0;
        if c = CHR ''.'' then do {
          (frac, dv, q) \<leftarrow> frac_digits_loop 0 1 (fst (adv p 1)) (snd (adv p 1));
          q' \<leftarrow> skip_digits_unbounded (fst q) (snd q);
          Some (frac * (1000000 div dv), q')
        }
        else Some (0, p)
      }
      else Some (0, p))"

text \<open>The conjunction over the characters of an offset, evaluated from left to right.\<close>

fun peek_all :: "pos \<Rightarrow> (nat \<times> (char \<Rightarrow> bool)) list \<Rightarrow> bool option" where
  "peek_all p [] = Some True"
| "peek_all p ((i, t) # rest) = do { c \<leftarrow> peek p i; if t c then peek_all p rest else Some False }"

definition iso_zone :: "pos \<Rightarrow> (int option \<times> pos) option" where
  "iso_zone p =
     do {
       z \<leftarrow> (if snd p > 0 then map_option (\<lambda>c. c = CHR ''Z'') (peek p 0) else Some False);
       if z then Some (Some 0, adv p 1)
       else do {
         num \<leftarrow> (if snd p \<ge> 5 then peek_all p [(0, \<lambda>c. c = CHR ''+'' \<or> c = CHR ''-''), (1, isdigit), (2, isdigit), (3, \<lambda>c. c = CHR '':''),
                   (4, isdigit), (5, isdigit), (6, \<lambda>c. \<not> isdigit c)] else Some False);
         if num then
           (let mem = fst p;
                sign = (if mem ! 0 = CHR ''-'' then - 1 else 1);
                hours = int (digit_value (mem ! 1)) * 10 + int (digit_value (mem ! 2));
                mins = int (digit_value (mem ! 4)) * 10 + int (digit_value (mem ! 5))
            in Some (Some (sign * (hours * 3600 + mins * 60)), adv p 6))
         else Some (None, p)
       }
     }"

text \<open>What the branches of \<^verbatim>\<open>log_msg_parse_date\<close> deliver: the broken-down time before normalisation, the
  microseconds, the zone offset if there was one, and the position; \<open>None\<close> inside is the jump to \<^verbatim>\<open>error\<close>.\<close>

type_synonym date_result = "((tm \<times> nat \<times> int option \<times> pos) option) option"

definition parse_date_iso :: "pos \<Rightarrow> date_result" where
  "parse_date_iso p = do {
     (t, q) \<leftarrow> run_scan scan_iso_timestamp p;
     (case t of
        None \<Rightarrow> Some None
      | Some t \<Rightarrow> do {
          (usec, q1) \<leftarrow> iso_fraction q;
          (zone, q2) \<leftarrow> iso_zone q1;
          Some (Some (t, usec, zone, q2))
        })
   }"

definition parse_date_pix :: "pos \<Rightarrow> date_result" where
  "parse_date_pix p = do {
     (t, q) \<leftarrow> run_scan scan_pix_timestamp p;
     (case t of
        None \<Rightarrow> Some None
      | Some t \<Rightarrow> do { c \<leftarrow> peek q 0; Some (Some (t, 0, None, if c = CHR '':'' then adv q 1 else q)) })
   }"

definition parse_date_linksys :: "pos \<Rightarrow> date_result" where
  "parse_date_linksys p = do {
     (t, q) \<leftarrow> run_scan scan_linksys_timestamp p;
     Some (map_option (\<lambda>t. (t, 0, None, q)) t)
   }"

definition bsd_fraction :: "pos \<Rightarrow> (nat \<times> pos) option" where
  "bsd_fraction p =
     (if snd p > 0 then do {
        c \<leftarrow> peek p 0;
        if c = CHR ''.'' then do {
          (frac, dv, q) \<leftarrow> frac_digits_loop 0 1 (fst (adv p 1)) (snd (adv p 1));
          q' \<leftarrow> skip_digits_bounded (fst q) (snd q);
          Some (frac * (1000000 div dv), q')
        }
        else Some (0, p)
      }
      else Some (0, p))"

text \<open>The year is not in the text: a month more than one ahead of now is of last year, one more than one
  behind of next year.\<close>

definition bsd_year :: "tm \<Rightarrow> tm \<Rightarrow> tm" where
  "bsd_year nowtm t =
     (let t1 = (if tm_mon t > tm_mon nowtm + 1 then t\<lparr>tm_year := tm_year t - 1\<rparr> else t)
      in if tm_mon t1 < tm_mon nowtm - 1 then t1\<lparr>tm_year := tm_year t1 + 1\<rparr> else t1)"

definition parse_date_bsd :: "tm \<Rightarrow> pos \<Rightarrow> date_result" where
  "parse_date_bsd nowtm p = do {
     (t, q) \<leftarrow> run_scan (scan_bsd_timestamp (tm_year nowtm)) p;
     (case t of
        None \<Rightarrow> Some None
      | Some t \<Rightarrow> do { (usec, q1) \<leftarrow> bsd_fraction q; Some (Some (bsd_year nowtm t, usec, None, q1)) })
   }"

definition looks_iso :: "pos \<Rightarrow> bool option" where
  "looks_iso p = (if snd p \<ge> 19 then peek_all p [(4, \<lambda>c. c = CHR ''-''), (7, \<lambda>c. c = CHR ''-''), (10, \<lambda>c. c = CHR ''T''),
     (13, \<lambda>c. c = CHR '':''), (16, \<lambda>c. c = CHR '':'')] else Some False)"

definition looks_pix :: "pos \<Rightarrow> bool option" where
  "looks_pix p = (if snd p \<ge> 21 then peek_all p [(3, \<lambda>c. c = CHR '' ''), (6, \<lambda>c. c = CHR '' ''), (11, \<lambda>c. c = CHR '' ''),
     (14, \<lambda>c. c = CHR '':''), (17, \<lambda>c. c = CHR '':''), (20, \<lambda>c. c = CHR '':'' \<or> c = CHR '' ''), (7, isdigit), (8, isdigit), (9, isdigit), (10, isdigit)]
     else Some False)"

definition looks_linksys :: "pos \<Rightarrow> bool option" where
  "looks_linksys p = (if snd p \<ge> 21 then peek_all p [(3, \<lambda>c. c = CHR '' ''), (6, \<lambda>c. c = CHR '' ''), (9, \<lambda>c. c = CHR '':''), (12, \<lambda>c. c = CHR '':''),
     (15, \<lambda>c. c = CHR '' ''), (16, isdigit), (17, isdigit), (18, isdigit), (19, isdigit), (20, isspace)] else Some False)"

definition looks_bsd :: "pos \<Rightarrow> bool option" where
  "looks_bsd p = (if snd p \<ge> 15 then peek_all p [(3, \<lambda>c. c = CHR '' ''), (6, \<lambda>c. c = CHR '' ''), (9, \<lambda>c. c = CHR '':''), (12, \<lambda>c. c = CHR '':'')]
     else Some False)"

text \<open>The end of \<^verbatim>\<open>log_msg_parse_date\<close>: from local time to UTC, with the zone of the message, the assumed one or
  the local one.\<close>

definition finish_date :: "sf_env \<Rightarrow> int \<Rightarrow> 'm sf_msg \<Rightarrow> tm \<Rightarrow> nat \<Rightarrow> int option \<Rightarrow> 'm sf_msg" where
  "finish_date env assume_timezone self t usec zone =
     (let (sec, t') = se_mktime env t;
          z0 = (case zone of Some z \<Rightarrow> z | None \<Rightarrow> ls_zone_offset (sf_stamp self));
          z1 = (if z0 = -1 then assume_timezone else z0);
          z2 = (if z1 = -1 then se_local_timezone_ofs env sec else z1)
      in self\<lparr>sf_stamp := \<lparr>ls_tv_sec = sec + se_local_timezone_ofs env sec - (tm_hour t' - tm_hour t) * 3600 - z2,
                          ls_tv_usec = usec, ls_zone_offset = z2\<rparr>\<rparr>)"

text \<open>The mark before a Cisco timestamp: a star for a clock that is not synchronised, a dot for one that is.\<close>

definition parse_sync_mark :: "'m msg_ops \<Rightarrow> sf_env \<Rightarrow> 'm sf_msg \<Rightarrow> pos \<Rightarrow> ('m sf_msg \<times> pos) option" where
  "parse_sync_mark ops env self p = do {
     c \<leftarrow> peek p 0;
     if c = CHR ''*'' then map_option (\<lambda>m. (m, adv p 1)) (set_val ops self (se_is_synced env) ''0'')
     else if c = CHR ''.'' then map_option (\<lambda>m. (m, adv p 1)) (set_val ops self (se_is_synced env) ''1'')
     else Some (self, p)
   }"

text \<open>The formats without the year first, in the order in which they are tried.\<close>

definition parse_date_legacy :: "sf_env \<Rightarrow> pos \<Rightarrow> date_result" where
  "parse_date_legacy env p = do {
     pix \<leftarrow> looks_pix p;
     if pix then parse_date_pix p
     else do {
       linksys \<leftarrow> looks_linksys p;
       if linksys then parse_date_linksys p
       else do {
         bsd \<leftarrow> looks_bsd p;
         if bsd then parse_date_bsd (se_localtime env (se_now env)) p else Some None
       }
     }
   }"

definition log_msg_parse_date ::
    "'m msg_ops \<Rightarrow> sf_env \<Rightarrow> 'm sf_msg \<Rightarrow> pos \<Rightarrow> guint32 \<Rightarrow> int \<Rightarrow> (bool \<times> 'm sf_msg \<times> pos) option" where
  "log_msg_parse_date ops env self p0 parse_flags assume_timezone = do {
     (self, p) \<leftarrow> (if parse_flags AND LP_SYSLOG_PROTOCOL = 0 then parse_sync_mark ops env self p0 else Some (self, p0));
     iso \<leftarrow> looks_iso p;
     if \<not> iso \<and> parse_flags AND LP_SYSLOG_PROTOCOL \<noteq> 0 then Some (False, self, p0)
     else do {
       r \<leftarrow> (if iso then parse_date_iso p else parse_date_legacy env p);
       (case r of
          None \<Rightarrow> Some (False, self\<lparr>sf_stamp := sf_recvd self\<rparr>, p0)
        | Some (t, usec, zone, q) \<Rightarrow> Some (True, finish_date env assume_timezone self t usec zone, q))
     }
   }"

subsection \<open>Program and host\<close>

fun run_to :: "char list \<Rightarrow> nat \<Rightarrow> string \<Rightarrow> int \<Rightarrow> (nat \<times> pos) option" where
  "run_to stops n [] left = (if left \<noteq> 0 then None else Some (n, [], left))"
| "run_to stops n (c # cs) left =
     (if left \<noteq> 0 \<and> c \<notin> set stops then run_to stops (Suc n) cs (left - 1) else Some (n, c # cs, left))"

text \<open>\<^verbatim>\<open>if (left > 0 && *src == c) { src++; left--; }\<close>\<close>

definition skip_one :: "char \<Rightarrow> pos \<Rightarrow> pos option" where
  "skip_one c p = (if snd p > 0 then do { d \<leftarrow> peek p 0; Some (if d = c then adv p 1 else p) } else Some p)"

definition parse_pid :: "'m msg_ops \<Rightarrow> 'm sf_msg \<Rightarrow> pos \<Rightarrow> ('m sf_msg \<times> pos) option" where
  "parse_pid ops self p = do {
     (n, q) \<leftarrow> run_to '' ]:'' 0 (fst p) (snd p);
     self' \<leftarrow> (if snd q \<noteq> 0 then set_val ops self LM_V_PID (take (n - 1) (fst (adv p 1))) else Some self);
     q' \<leftarrow> skip_one CHR '']'' q;
     Some (self', q')
   }"

definition log_msg_parse_legacy_program_name ::
    "'m msg_ops \<Rightarrow> sf_env \<Rightarrow> 'm sf_msg \<Rightarrow> pos \<Rightarrow> ('m sf_msg \<times> pos) option" where
  "log_msg_parse_legacy_program_name ops env self p = do {
     (n, q) \<leftarrow> run_to '' [:'' 0 (fst p) (snd p);
     self1 \<leftarrow> set_val ops self LM_V_PROGRAM (take n (fst p));
     bracket \<leftarrow> (if snd q > 0 then map_option (\<lambda>c. c = CHR ''['') (peek q 0) else Some False);
     (self2, q2) \<leftarrow> (if bracket then parse_pid ops self1 q else Some (self1, q));
     q3 \<leftarrow> skip_one CHR '':'' q2;
     q4 \<leftarrow> skip_one CHR '' '' q3;
     if se_flags env AND LP_STORE_LEGACY_MSGHDR \<noteq> 0 then do {
       v \<leftarrow> slice p (nat (snd p - snd q4));
       self3 \<leftarrow> set_val ops self2 LM_V_LEGACY_MSGHDR v;
       Some (or_flags ops self3 LF_LEGACY_MSGHDR, q4)
     }
     else Some (self2, q4)
   }"

definition hostname_char :: "nat \<Rightarrow> bool" where
  "hostname_char i \<longleftrightarrow> (65 \<le> i \<and> i \<le> 90) \<or> (97 \<le> i \<and> i \<le> 122) \<or> (48 \<le> i \<and> i \<le> 57) \<or> i \<in> {45, 95, 46, 58, 64, 47}"

text \<open>The table of invalid characters is indexed by \<^verbatim>\<open>i >> 8\<close>, which is 0 for every character: all bits go
  to, and are looked up in, the first byte.\<close>

definition invalid_chars_set :: "nat list \<Rightarrow> guint8 list \<Rightarrow> guint8 list" where
  "invalid_chars_set cs tab = foldl (\<lambda>t i. if hostname_char i then t else t[i div 256 := t ! (i div 256) OR push_bit (i mod 8) 1]) tab cs"

definition invalid_chars :: "guint8 list" where
  "invalid_chars = (let tab = invalid_chars_set [0..<256] (replicate 32 0) in tab[0 := tab ! 0 OR 1])"

definition is_invalid_char :: "char \<Rightarrow> bool" where
  "is_invalid_char c \<longleftrightarrow> bit (invalid_chars ! (code c div 256)) (code c mod 8)"

fun hostname_loop :: "bool \<Rightarrow> nat \<Rightarrow> string \<Rightarrow> int \<Rightarrow> (nat \<times> pos) option" where
  "hostname_loop chk dst [] left = (if left \<noteq> 0 then None else Some (dst, [], left))"
| "hostname_loop chk dst (c # cs) left =
     (if left \<noteq> 0 \<and> c \<notin> set '' :['' \<and> dst < 255 \<and> \<not> (chk \<and> is_invalid_char c)
      then hostname_loop chk (Suc dst) cs (left - 1) else Some (dst, c # cs, left))"

text \<open>The hostname, if one was found, and the position behind it. The regular expression sees the copy in
  \<^verbatim>\<open>hostname_buf\<close>, a string that ends at its first NUL.\<close>

definition log_msg_parse_hostname ::
    "sf_env \<Rightarrow> (string \<Rightarrow> bool) option \<Rightarrow> pos \<Rightarrow> (string option \<times> pos) option" where
  "log_msg_parse_hostname env bad_hostname p = do {
     (n, q) \<leftarrow> hostname_loop (se_flags env AND LP_CHECK_HOSTNAME \<noteq> 0) 0 (fst p) (snd p);
     blank \<leftarrow> (if snd q \<noteq> 0 then map_option (\<lambda>c. c = CHR '' '') (peek q 0) else Some False);
     let name = take n (fst p) in
     Some (if blank \<and> (case bad_hostname of None \<Rightarrow> True | Some bad \<Rightarrow> \<not> bad (takeWhile (\<lambda>c. c \<noteq> NUL) name))
           then (Some name, q) else (None, p))
   }"


subsection \<open>Structured data\<close>

definition sd_name_char :: "char \<Rightarrow> bool" where
  "sd_name_char c \<longleftrightarrow> code c < 128 \<and> c \<notin> set ''= ]\"''"

text \<open>A name of at most 32 characters, up to one of \<open>stops\<close>: \<open>Some None\<close> is the jump to \<^verbatim>\<open>error\<close>.\<close>

fun sd_name_loop :: "string \<Rightarrow> string \<Rightarrow> string \<Rightarrow> int \<Rightarrow> (string \<times> pos) option option" where
  "sd_name_loop stops name [] left = (if left \<noteq> 0 then None else Some (Some (name, [], left)))"
| "sd_name_loop stops name (c # cs) left =
     (if left \<noteq> 0 \<and> c \<notin> set stops then
        (if length name < 32 \<and> sd_name_char c then sd_name_loop stops (name @ [c]) cs (left - 1) else Some None)
      else Some (Some (name, c # cs, left)))"

text \<open>The value between the quotes, cut at \<open>vmax\<close> characters. A backslash before another character than
  a quote, a bracket or a backslash is kept.\<close>

fun sd_value_loop :: "nat \<Rightarrow> bool \<Rightarrow> string \<Rightarrow> string \<Rightarrow> int \<Rightarrow> (string \<times> pos) option option" where
  "sd_value_loop vmax quoted val [] left = (if left \<noteq> 0 then None else Some (Some (val, [], left)))"
| "sd_value_loop vmax quoted val (c # cs) left =
     (if left \<noteq> 0 \<and> (c \<noteq> CHR 0x22 \<or> quoted) then
        (if \<not> quoted \<and> c = CHR 0x5C then sd_value_loop vmax True val cs (left - 1)
         else if \<not> quoted \<and> c = CHR '']'' then Some None
         else let val1 = (if quoted \<and> c \<notin> {CHR 0x22, CHR '']'', CHR 0x5C} \<and> length val < vmax then val @ [CHR 0x5C] else val);
                  val2 = (if length val1 < vmax then val1 @ [c] else val1)
              in sd_value_loop vmax False val2 cs (left - 1))
      else Some (Some (val, c # cs, left)))"

text \<open>\<^verbatim>\<open>left && *src == c\<close>\<close>

definition at_char :: "char \<Rightarrow> pos \<Rightarrow> bool option" where
  "at_char c p = (if snd p \<noteq> 0 then map_option (\<lambda>d. d = c) (peek p 0) else Some False)"

text \<open>The name in \<^verbatim>\<open>sd_value_name\<close>, a buffer of 66 bytes: when the identifier and the parameter fill it,
  \<^verbatim>\<open>strncpy\<close> leaves out the terminator, and the name runs on into other memory.\<close>

definition sd_full_name :: "string \<Rightarrow> string \<Rightarrow> string option" where
  "sd_full_name sd_id param =
     (if length param < 66 - (length logmsg_sd_prefix + 1 + length sd_id)
      then Some (logmsg_sd_prefix @ sd_id @ ''.'' @ param) else None)"

definition sd_store :: "'m msg_ops \<Rightarrow> 'm sf_msg \<Rightarrow> string \<Rightarrow> string \<Rightarrow> 'm sf_msg option" where
  "sd_store ops self name v = do {
     (m, handle) \<leftarrow> op_get_handle ops (sf_m self) name;
     set_val ops (self\<lparr>sf_m := m\<rparr>) handle v
   }"

text \<open>One parameter; \<open>Inl\<close> is the jump to \<^verbatim>\<open>error\<close>, whose position nobody uses.\<close>

definition sd_param :: "'m msg_ops \<Rightarrow> sf_env \<Rightarrow> 'm sf_msg \<Rightarrow> string \<Rightarrow> pos \<Rightarrow> ('m sf_msg + 'm sf_msg \<times> pos) option" where
  "sd_param ops env self sd_id p = do {
     blank \<leftarrow> at_char CHR '' '' p;
     if \<not> blank then Some (Inl self)
     else do {
       c \<leftarrow> peek (adv p 1) 0;
       if \<not> sd_name_char c then Some (Inl self)
       else do {
         r \<leftarrow> sd_name_loop ''='' [] (fst (adv p 1)) (snd (adv p 1));
         (case r of
            None \<Rightarrow> Some (Inl self)
          | Some (param, q) \<Rightarrow> do {
              name_opt \<leftarrow> Some (sd_full_name sd_id param);
              eq \<leftarrow> at_char CHR ''='' q;
              if \<not> eq then Some (Inl self)
              else do {
                quote \<leftarrow> at_char CHR 0x22 (adv q 1);
                if \<not> quote then Some (Inl self)
                else do {
                  v \<leftarrow> sd_value_loop (se_sdata_param_value_max env) False [] (fst (adv q 2)) (snd (adv q 2));
                  (case v of
                     None \<Rightarrow> Some (Inl self)
                   | Some (val, q2) \<Rightarrow> do {
                       endquote \<leftarrow> at_char CHR 0x22 q2;
                       if \<not> endquote then Some (Inl self)
                       else do {
                         name \<leftarrow> name_opt;
                         self' \<leftarrow> sd_store ops self name val;
                         Some (Inr (self', adv q2 1))
                       }
                     })
                }
              }
            })
       }
     }
   }"

text \<open>The loops over parameters and elements; the fuel is the length of the memory, since every round
  consumes a character.\<close>

fun sd_params :: "nat \<Rightarrow> 'm msg_ops \<Rightarrow> sf_env \<Rightarrow> 'm sf_msg \<Rightarrow> string \<Rightarrow> pos \<Rightarrow> ('m sf_msg + 'm sf_msg \<times> pos) option" where
  "sd_params 0 ops env self sd_id p = None"
| "sd_params (Suc fuel) ops env self sd_id p = do {
     more \<leftarrow> (if snd p \<noteq> 0 then map_option (\<lambda>c. c \<noteq> CHR '']'') (peek p 0) else Some False);
     if \<not> more then Some (Inr (self, p))
     else do {
       r \<leftarrow> sd_param ops env self sd_id p;
       (case r of Inl self' \<Rightarrow> Some (Inl self') | Inr (self', q) \<Rightarrow> sd_params fuel ops env self' sd_id q)
     }
   }"

definition sd_element :: "'m msg_ops \<Rightarrow> sf_env \<Rightarrow> 'm sf_msg \<Rightarrow> pos \<Rightarrow> ('m sf_msg + 'm sf_msg \<times> pos) option" where
  "sd_element ops env self p = do {
     c \<leftarrow> peek p 0;
     if \<not> sd_name_char c then Some (Inl self)
     else do {
       r \<leftarrow> sd_name_loop '' ]'' [] (fst p) (snd p);
       (case r of
          None \<Rightarrow> Some (Inl self)
        | Some (sd_id, q) \<Rightarrow>
            if sd_id = [] then Some (Inl self)
            else do {
              d \<leftarrow> peek q 0;
              self' \<leftarrow> (if d = CHR '']'' then sd_store ops self (logmsg_sd_prefix @ sd_id) [] else Some self);
              r2 \<leftarrow> sd_params (Suc (length (fst q))) ops env self' sd_id q;
              (case r2 of
                 Inl self'' \<Rightarrow> Some (Inl self'')
               | Inr (self'', q2) \<Rightarrow> do {
                   close \<leftarrow> at_char CHR '']'' q2;
                   Some (if close then Inr (self'', adv q2 1) else Inl self'')
                 })
            })
     }
   }"

text \<open>After an element, \<open>open_sd\<close> is 0 unless a further bracket follows; the loop ends with it or with the
  message.\<close>

fun sd_elements :: "nat \<Rightarrow> 'm msg_ops \<Rightarrow> sf_env \<Rightarrow> 'm sf_msg \<Rightarrow> pos \<Rightarrow> (bool \<times> 'm sf_msg \<times> pos) option" where
  "sd_elements 0 ops env self p = None"
| "sd_elements (Suc fuel) ops env self p = do {
     r \<leftarrow> sd_element ops env self p;
     (case r of
        Inl self' \<Rightarrow> Some (False, self', p)
      | Inr (self', q) \<Rightarrow> do {
          again \<leftarrow> at_char CHR ''['' q;
          if again \<and> snd (adv q 1) \<noteq> 0 then sd_elements fuel ops env self' (adv q 1)
          else Some (True, self', if again then adv q 1 else q)
        })
   }"

definition log_msg_parse_sd :: "'m msg_ops \<Rightarrow> sf_env \<Rightarrow> 'm sf_msg \<Rightarrow> pos \<Rightarrow> (bool \<times> 'm sf_msg \<times> pos) option" where
  "log_msg_parse_sd ops env self p = do {
     nil \<leftarrow> at_char CHR ''-'' p;
     if nil then Some (True, self, adv p 1)
     else do {
       bracket \<leftarrow> at_char CHR ''['' p;
       if bracket then sd_elements (Suc (length (fst p))) ops env self (adv p 1) else Some (True, self, p)
     }
   }"

subsection \<open>Whole messages\<close>

definition aix_fwd_string :: string where
  "aix_fwd_string = ''Message forwarded from ''"

definition repeat_msg_string :: string where
  "repeat_msg_string = ''last message repeated''"

definition starts_with :: "string \<Rightarrow> pos \<Rightarrow> bool" where
  "starts_with s p \<longleftrightarrow> take (length s) (fst p) = s"

text \<open>The last steps of both formats: store the rest of the message as \<^verbatim>\<open>MESSAGE\<close>.\<close>

definition store_message :: "'m msg_ops \<Rightarrow> 'm sf_msg \<Rightarrow> pos \<Rightarrow> 'm sf_msg option" where
  "store_message ops self p =
     (if snd p < 0 then None else do { v \<leftarrow> slice p (nat (snd p)); set_val ops self LM_V_MESSAGE v })"

definition validate_utf8 :: "sf_env \<Rightarrow> pos \<Rightarrow> bool" where
  "validate_utf8 env p \<longleftrightarrow> se_flags env AND LP_VALIDATE_UTF8 \<noteq> 0 \<and> se_utf8_validate env (take (nat (snd p)) (fst p))"

text \<open>The sender of a message that was forwarded by an AIX daemon.\<close>

definition parse_aix_forward :: "pos \<Rightarrow> (string option \<times> pos) option" where
  "parse_aix_forward p =
     (if snd p \<ge> int (length aix_fwd_string) \<and> starts_with aix_fwd_string p then do {
        let q = adv p (length aix_fwd_string);
        (n, q1) \<leftarrow> log_msg_parse_skip_chars_until q '':'';
        (_, q2) \<leftarrow> log_msg_parse_skip_chars q1 '' :'' (-1);
        Some (Some (take n (fst q)), q2)
      }
      else Some (None, p))"

definition parse_legacy_hostname :: "sf_env \<Rightarrow> string option \<Rightarrow> pos \<Rightarrow> (string option \<times> pos) option" where
  "parse_legacy_hostname env host p =
     (if host = None \<and> se_flags env AND LP_EXPECT_HOSTNAME \<noteq> 0 then do {
        (h, q) \<leftarrow> log_msg_parse_hostname env (se_bad_hostname env) p;
        (_, q1) \<leftarrow> log_msg_parse_skip_chars q '' '' (-1);
        Some (h, q1)
      }
      else Some (host, p))"

text \<open>The part after the date: the sender of a forwarded message, a repetition, or host and program.\<close>

definition parse_legacy_header :: "'m msg_ops \<Rightarrow> sf_env \<Rightarrow> 'm sf_msg \<Rightarrow> pos \<Rightarrow> ('m sf_msg \<times> pos) option" where
  "parse_legacy_header ops env self p = do {
     (_, p1) \<leftarrow> log_msg_parse_skip_chars p '' '' (-1);
     (aix, p2) \<leftarrow> parse_aix_forward p1;
     let repeated = (snd p2 \<ge> int (length repeat_msg_string) + 1 \<and> starts_with repeat_msg_string p2);
     (host, p3) \<leftarrow> (if repeated then Some (aix, p2) else parse_legacy_hostname env aix p2);
     (self1, p4) \<leftarrow> (if repeated then Some (self, p3) else log_msg_parse_legacy_program_name ops env self p3);
     self2 \<leftarrow> (case host of Some h \<Rightarrow> set_val ops self1 LM_V_HOST h | None \<Rightarrow> Some self1);
     Some (self2, p4)
   }"

text \<open>The facility bits of the priority are \<^verbatim>\<open>LOG_FACMASK\<close>, and \<^verbatim>\<open>LOG_KERN\<close> is 0.\<close>

definition log_msg_parse_legacy :: "'m msg_ops \<Rightarrow> sf_env \<Rightarrow> pos \<Rightarrow> 'm sf_msg \<Rightarrow> (bool \<times> 'm sf_msg) option" where
  "log_msg_parse_legacy ops env p self = do {
     (ok, self1, p1) \<leftarrow> log_msg_parse_pri self p (se_default_pri env);
     if \<not> ok then Some (False, self1)
     else do {
       (_, self2, p2) \<leftarrow> log_msg_parse_seq ops env self1 p1;
       (_, p3) \<leftarrow> log_msg_parse_skip_chars p2 '' '' (-1);
       (date, self3, p4) \<leftarrow> log_msg_parse_date ops env self2 p3 (se_flags env AND NOT LP_SYSLOG_PROTOCOL) (se_recv_zone_offset env);
       (self4, p5) \<leftarrow>
         (if date then parse_legacy_header ops env self3 p4
          else do {
            (self', q) \<leftarrow>
              (if \<not> op_chk_flag ops (sf_m self3) LF_INTERNAL \<and> sf_pri self3 AND 0x03f8 = 0
               then map_option (\<lambda>m. (m, p4)) (set_val ops self3 LM_V_PROGRAM ''kernel'')
               else log_msg_parse_legacy_program_name ops env self3 p4);
            Some (self'\<lparr>sf_stamp := sf_recvd self'\<rparr>, q)
          });
       self5 \<leftarrow> store_message ops self4 p5;
       Some (True, if validate_utf8 env p5 then or_flags ops self5 LF_UTF8 else self5)
     }
   }"

definition column_and_space :: "'m msg_ops \<Rightarrow> 'm sf_msg \<Rightarrow> nv_handle \<Rightarrow> nat \<Rightarrow> pos \<Rightarrow> (bool \<times> 'm sf_msg \<times> pos) option" where
  "column_and_space ops self handle max_length p = do {
     (self', q) \<leftarrow> log_msg_parse_column ops self handle p max_length;
     (ok, q') \<leftarrow> log_msg_parse_skip_space q;
     Some (ok, self', q')
   }"

text \<open>The part after the structured data: nothing, or a blank and the text, perhaps after a byte order
  mark.\<close>

definition parse_proto_msg :: "'m msg_ops \<Rightarrow> sf_env \<Rightarrow> 'm sf_msg \<Rightarrow> pos \<Rightarrow> (bool \<times> 'm sf_msg) option" where
  "parse_proto_msg ops env self p =
     (if snd p = 0 then Some (True, self)
      else do {
        (ok, q) \<leftarrow> log_msg_parse_skip_space p;
        if \<not> ok then Some (False, self)
        else
          (let bom = (snd q \<ge> 3 \<and> starts_with [CHR 0xEF, CHR 0xBB, CHR 0xBF] q);
               self' = (if bom \<or> validate_utf8 env q then or_flags ops self LF_UTF8 else self)
           in map_option (Pair True) (store_message ops self' (if bom then adv q 3 else q)))
      })"

definition parse_proto_fields :: "'m msg_ops \<Rightarrow> sf_env \<Rightarrow> 'm sf_msg \<Rightarrow> pos \<Rightarrow> (bool \<times> 'm sf_msg) option" where
  "parse_proto_fields ops env self p = do {
     (ok1, self1, p1) \<leftarrow> column_and_space ops self LM_V_PROGRAM 48 p;
     if \<not> ok1 then Some (False, self1)
     else do {
       (ok2, self2, p2) \<leftarrow> column_and_space ops self1 LM_V_PID 128 p1;
       if \<not> ok2 then Some (False, self2)
       else do {
         (ok3, self3, p3) \<leftarrow> column_and_space ops self2 LM_V_MSGID 32 p2;
         if \<not> ok3 then Some (False, self3)
         else do {
           (ok4, self4, p4) \<leftarrow> log_msg_parse_sd ops env self3 p3;
           if \<not> ok4 then Some (False, self4) else parse_proto_msg ops env self4 p4
         }
       }
     }
   }"

definition log_msg_parse_syslog_proto :: "'m msg_ops \<Rightarrow> sf_env \<Rightarrow> pos \<Rightarrow> 'm sf_msg \<Rightarrow> (bool \<times> 'm sf_msg) option" where
  "log_msg_parse_syslog_proto ops env p self = do {
     (ok, self1, p1) \<leftarrow> log_msg_parse_pri self p (se_default_pri env);
     (ver, p2) \<leftarrow> (if ok then log_msg_parse_version p1 else Some (False, p1));
     if \<not> ver then log_msg_parse_legacy ops env p self1
     else do {
       (sp, p3) \<leftarrow> log_msg_parse_skip_space p2;
       if \<not> sp then Some (False, self1)
       else do {
         (date, self2, p4) \<leftarrow> log_msg_parse_date ops env self1 p3 (se_flags env) (se_recv_zone_offset env);
         if \<not> date then Some (False, self2)
         else do {
           (sp2, p5) \<leftarrow> log_msg_parse_skip_space p4;
           if \<not> sp2 then Some (False, self2)
           else do {
             (host, p6) \<leftarrow> log_msg_parse_hostname env None p5;
             (sp3, p7) \<leftarrow> log_msg_parse_skip_space p6;
             if \<not> sp3 then Some (False, self2)
             else do {
               self3 \<leftarrow> (case host of None \<Rightarrow> Some self2 | Some h \<Rightarrow> if h = ''-'' then Some self2 else set_val ops self2 LM_V_HOST h);
               parse_proto_fields ops env self3 p7
             }
           }
         }
       }
     }
   }"


text \<open>Carriage returns and line feeds of the stored text become blanks; \<open>addr\<close> is where the text is.\<close>

function blank_lines :: "nat \<Rightarrow> string \<Rightarrow> string" where
  "blank_lines addr s =
     (case find_cr_or_lf addr s of
        None \<Rightarrow> s
      | Some i \<Rightarrow> take i s @ '' '' @ blank_lines (addr + i + 1) (drop (Suc i) s))"
  by pat_completeness auto
termination
  by (relation "measure (\<lambda>(addr, s). length s)") (auto dest: find_cr_or_lf_less)

declare blank_lines.simps [simp del]

definition trim_length :: "string \<Rightarrow> string" where
  "trim_length data = rev (dropWhile (\<lambda>c. c = CHR 0x0A \<or> c = NUL) (rev data))"

definition decimal :: "nat \<Rightarrow> string" where
  "decimal n = rev (rdigs 10 n)"

definition error_text :: "string \<Rightarrow> string" where
  "error_text data = take 2047 (''Error processing log message: '' @ takeWhile (\<lambda>c. c \<noteq> NUL) data)"

text \<open>The message that replaces one that could not be parsed; its priority is \<^verbatim>\<open>LOG_SYSLOG | LOG_ERR\<close>.\<close>

definition store_error :: "'m msg_ops \<Rightarrow> sf_env \<Rightarrow> string \<Rightarrow> 'm sf_msg \<Rightarrow> 'm sf_msg option" where
  "store_error ops env data self = do {
     m \<leftarrow> op_reset ops (sf_m self) (max (length data * 2) 256);
     let self0 = self\<lparr>sf_m := m, sf_stamp := sf_recvd self\<rparr>;
     self1 \<leftarrow> set_val ops self0 LM_V_HOST [];
     self2 \<leftarrow> set_val ops self1 LM_V_MESSAGE (error_text data);
     self3 \<leftarrow> set_val ops self2 LM_V_PROGRAM ''syslog-ng'';
     self4 \<leftarrow> set_val ops self3 LM_V_PID (decimal (se_pid env));
     Some (self4\<lparr>sf_m := op_clear_sdata ops (sf_m self4), sf_pri := 43\<rparr>)
   }"

text \<open>\<open>data\<close> is the message, \<open>behind\<close> the readable memory after it.\<close>

definition syslog_format_handler :: "'m msg_ops \<Rightarrow> sf_env \<Rightarrow> nat \<Rightarrow> string \<Rightarrow> string \<Rightarrow> 'm sf_msg \<Rightarrow> 'm sf_msg option" where
  "syslog_format_handler ops env addr data behind self =
     (let text = trim_length data; p = (data @ behind, int (length text))
      in if se_flags env AND LP_NOPARSE \<noteq> 0
         then map_option (\<lambda>m. m\<lparr>sf_pri := se_default_pri env\<rparr>) (set_val ops self LM_V_MESSAGE text)
         else do {
           let self1 = (if se_flags env AND LP_ASSUME_UTF8 \<noteq> 0 then or_flags ops self LF_UTF8 else self);
           let self2 = (if se_flags env AND LP_LOCAL \<noteq> 0 then or_flags ops self1 LF_LOCAL else self1);
           let self3 = self2\<lparr>sf_m := op_set_initial_parse ops (sf_m self2) True\<rparr>;
           (success, self4) \<leftarrow>
             (if se_flags env AND LP_SYSLOG_PROTOCOL \<noteq> 0 then log_msg_parse_syslog_proto ops env p self3
              else log_msg_parse_legacy ops env p self3);
           let self5 = self4\<lparr>sf_m := op_set_initial_parse ops (sf_m self4) False\<rparr>;
           if \<not> success then store_error ops env text self5
           else if se_flags env AND LP_NO_MULTI_LINE \<noteq> 0 then do {
             v \<leftarrow> op_get_value ops (sf_m self5) LM_V_MESSAGE;
             Some (self5\<lparr>sf_m := op_overwrite ops (sf_m self5) LM_V_MESSAGE (blank_lines addr v)\<rparr>)
           }
           else Some self5
         })"

subsection \<open>The operations on messages\<close>

definition overwrite_value :: "log_message \<Rightarrow> nv_handle \<Rightarrow> string \<Rightarrow> log_message" where
  "overwrite_value m handle v =
     (let (ofs, _) = nv_table_get_entry (lm_payload m) handle
      in if ofs = 0 then m
         else case nt_heap (lm_payload m) ofs of
                None \<Rightarrow> m
              | Some e \<Rightarrow> m\<lparr>lm_payload := nv_put ofs (e\<lparr>ne_body := VDirect v\<rparr>) (lm_payload m)\<rparr>)"

definition log_msg_ops :: "(nv_registry \<times> log_message) msg_ops" where
  "log_msg_ops = \<lparr>
     op_set_value = (\<lambda>(reg, m) h v. map_option (Pair reg) (log_msg_set_value reg m h v)),
     op_get_handle = (\<lambda>(reg, m) name. map_option (\<lambda>(reg', h). ((reg', m), h)) (log_msg_get_value_handle reg name)),
     op_get_value = (\<lambda>(reg, m) h. nv_table_get_value (lm_payload m) h),
     op_or_flags = (\<lambda>(reg, m) f. (reg, log_msg_set_flag m f)),
     op_chk_flag = (\<lambda>(reg, m) f. log_msg_chk_flag m f),
     op_set_initial_parse = (\<lambda>(reg, m) b. (reg, m\<lparr>lm_initial_parse := b\<rparr>)),
     op_reset = (\<lambda>(reg, m) n. map_option (\<lambda>t. (reg, log_msg_set_flag (m\<lparr>lm_payload := t\<rparr>) LF_STATE_OWN_PAYLOAD)) (nv_table_new LM_V_MAX 16 n)),
     op_clear_sdata = (\<lambda>(reg, m). (reg, m\<lparr>lm_sdata := [], lm_alloc_sdata := 0\<rparr>)),
     op_overwrite = (\<lambda>(reg, m) h v. (reg, overwrite_value m h v))\<rparr>"

end
