(* ===== verification/Msg_Store.thy ===== *)
theory Msg_Store
  imports Syslog_Format
begin

text \<open>
  What the message parsers rely on when they fill in a message: the contract of the operations of
  \<^typ>\<open>'m msg_ops\<close> as a locale, and its interpretation on the message object of \<^verbatim>\<open>lib/logmsg.c\<close> together with
  the registry of names.
\<close>

subsection \<open>The contract\<close>

definition sd_name :: "string \<Rightarrow> bool" where
  "sd_name n \<longleftrightarrow> take (length logmsg_sd_prefix) n = logmsg_sd_prefix"

text \<open>\<open>known\<close> counts the registered handles, \<open>handle_of\<close> and \<open>name_of\<close> are the registry, \<open>val\<close> is the value that a
  handle reads as, and \<open>full\<close> says that the store has reached its maximal size and may refuse values.\<close>

locale msg_store =
  fixes ops :: "'m msg_ops" and invar :: "'m \<Rightarrow> bool" and known :: "'m \<Rightarrow> nat"
    and val :: "'m \<Rightarrow> nv_handle \<Rightarrow> string" and full :: "'m \<Rightarrow> bool"
    and handle_of :: "'m \<Rightarrow> string \<Rightarrow> nv_handle" and name_of :: "'m \<Rightarrow> nv_handle \<Rightarrow> string"
  assumes set_value: "invar m \<Longrightarrow> 0 < h \<Longrightarrow> h \<le> known m \<Longrightarrow> length v \<le> NV_TABLE_MAX_BYTES \<Longrightarrow>
      \<exists>m'. op_set_value ops m h v = Some m' \<and> invar m' \<and> known m' = known m \<and> handle_of m' = handle_of m \<and>
        (full m \<longrightarrow> full m') \<and> (full m' \<or> val m' = (val m)(h := v))"
    and set_value_0: "invar m \<Longrightarrow> op_set_value ops m 0 v = Some m"
    and get_handle: "invar m \<Longrightarrow> sd_name name \<Longrightarrow> \<exists>m' h. op_get_handle ops m name = Some (m', h) \<and> invar m' \<and> h \<le> known m' \<and>
        known m \<le> known m' \<and> handle_of m' name = h \<and> (\<forall>n. n \<noteq> name \<or> handle_of m n \<noteq> 0 \<longrightarrow> handle_of m' n = handle_of m n) \<and>
        val m' = val m \<and> full m' = full m"
    and sd_name_of: "invar m \<Longrightarrow> sd_name n \<Longrightarrow> handle_of m n \<noteq> 0 \<Longrightarrow> name_of m (handle_of m n) = n"
    and builtin: "invar m \<Longrightarrow> 0 < h \<Longrightarrow> h < LM_V_MAX \<Longrightarrow> h \<le> known m \<and> \<not> sd_name (name_of m h)"
    and get_value: "invar m \<Longrightarrow> op_get_value ops m h = Some (val m h)"
    and op_or_flags: "invar m \<Longrightarrow> m' = op_or_flags ops m f \<Longrightarrow> invar m' \<and> known m' = known m \<and> val m' = val m \<and>
        full m' = full m \<and> handle_of m' = handle_of m"

subsection \<open>The message object keeps it\<close>

text \<open>The registry: handles flagged as structured data have a name with a dot, structured data names have
  no aliases, and the built-in names come first.\<close>

definition reg_sd_wf :: "nv_registry \<Rightarrow> bool" where
  "reg_sd_wf reg \<longleftrightarrow> reg_wf reg \<and>
     (\<forall>i < length (reg_names reg). hd_flags (reg_names reg ! i) AND LM_VF_SDATA \<noteq> 0 \<longrightarrow> last_dot (hd_name (reg_names reg ! i)) \<noteq> None) \<and>
     (\<forall>n i. sd_name n \<and> reg_name_map reg n = Some (Suc i) \<longrightarrow> hd_name (reg_names reg ! i) = n) \<and>
     take 8 (map hd_name (reg_names reg)) = builtin_value_names"

definition store_invar :: "nv_registry \<times> log_message \<Rightarrow> bool" where
  "store_invar s \<longleftrightarrow> reg_sd_wf (fst s) \<and>
     nv_wf (reg_nm (fst s)) (lm_payload (snd s)) \<and> sdata_wf (fst s) (snd s) \<and>
     lm_protect_cnt (snd s) = 0 \<and> bit (lm_flags (snd s)) 4"

definition store_known :: "nv_registry \<times> log_message \<Rightarrow> nat" where
  "store_known s = length (reg_names (fst s))"

definition store_val :: "nv_registry \<times> log_message \<Rightarrow> nv_handle \<Rightarrow> string" where
  "store_val s = nv_val (lm_payload (snd s))"

definition store_full :: "nv_registry \<times> log_message \<Rightarrow> bool" where
  "store_full s \<longleftrightarrow> nt_size (lm_payload (snd s)) = NV_TABLE_MAX_BYTES"

definition store_handle :: "nv_registry \<times> log_message \<Rightarrow> string \<Rightarrow> nv_handle" where
  "store_handle s = nv_registry_get_handle (fst s)"

definition store_name :: "nv_registry \<times> log_message \<Rightarrow> nv_handle \<Rightarrow> string" where
  "store_name s h = hd_name (reg_names (fst s) ! (h - 1))"

lemma get_value_name_known:
  "0 < h \<Longrightarrow> h \<le> length (reg_names reg) \<Longrightarrow> log_msg_get_value_name reg h = Some (hd_name (reg_names reg ! (h - 1)))"
  by (auto simp: log_msg_get_value_name_def nv_registry_get_handle_name_def Let_def)

lemma nv_size_le: "nv_wf nm t \<Longrightarrow> nt_size t \<le> NV_TABLE_MAX_BYTES"
  using size_dvd by blast

lemma bit4_own: "bit (w :: guint32) 4 \<longleftrightarrow> w AND LF_STATE_OWN_PAYLOAD \<noteq> 0"
  using and_exp_eq_0_iff_not_bit[of w 4] by (simp add: LF_STATE_OWN_PAYLOAD_def)

lemma store_set_value:
  assumes inv: "store_invar s" and h: "0 < h" "h \<le> store_known s" and v: "length v \<le> NV_TABLE_MAX_BYTES"
  shows "\<exists>s'. op_set_value log_msg_ops s h v = Some s' \<and> store_invar s' \<and> store_known s' = store_known s \<and>
    store_handle s' = store_handle s \<and> (store_full s \<longrightarrow> store_full s') \<and>
    (store_full s' \<or> store_val s' = (store_val s)(h := v))"
proof -
  obtain reg m where s: "s = (reg, m)" by (cases s)
  let ?d = "reg_names reg ! (h - 1)"
  note I = inv[unfolded store_invar_def reg_sd_wf_def s fst_conv snd_conv]
  have h': "h \<le> length (reg_names reg)" "h < 2 ^ 16" using h I by (auto simp: store_known_def s reg_wf_def)
  have name: "log_msg_get_value_name reg h = Some (hd_name ?d)" using get_value_name_known h(1) h'(1) by blast
  have "h - 1 < length (reg_names reg)" using h(1) h'(1) by simp
  then have fl: "nv_registry_get_handle_flags reg h = Some (hd_flags ?d)"
    "hd_flags ?d AND LM_VF_SDATA \<noteq> 0 \<longrightarrow> last_dot (hd_name ?d) \<noteq> None"
    using h(1) h'(1) I by (auto simp: nv_registry_get_handle_flags_def)
  have wf: "nv_wf (reg_nm reg) (lm_payload m)" "sdata_wf reg m" "\<not> log_msg_is_write_protected m"
    using I by (simp_all add: log_msg_is_write_protected_def)
  have own: "nt_size (lm_payload m) + NV_TABLE_BOUND (length (hd_name ?d) + length v + 2) \<le> NV_TABLE_MAX_BYTES \<or>
      log_msg_chk_flag m LF_STATE_OWN_PAYLOAD" using I by (simp add: log_msg_chk_flag_def bit4_own)
  obtain m' where m': "log_msg_set_value reg m h v = Some m'" "nv_wf (reg_nm reg) (lm_payload m')" "sdata_wf reg m'"
    "\<forall>g. g \<noteq> h \<longrightarrow> nv_table_get_value (lm_payload m') g = nv_table_get_value (lm_payload m) g"
    "nv_table_get_value (lm_payload m') h = Some (take NV_TABLE_MAX_BYTES v) \<or> nt_size (lm_payload m') = NV_TABLE_MAX_BYTES"
    "nt_size (lm_payload m) \<le> nt_size (lm_payload m')"
    using set_value_spec[OF wf(1,2) h(1) h'(2) name fl wf(3) own] by blast
  have vals: "nt_size (lm_payload m') = NV_TABLE_MAX_BYTES \<or> nv_val (lm_payload m') = (nv_val (lm_payload m))(h := v)"
    using m'(4,5) v by (auto simp: get_value_val[OF wf(1)] get_value_val[OF m'(2)])
  have inv': "store_invar (reg, m')"
    using I m'(2,3) set_value_frame[OF m'(1)] by (simp add: store_invar_def reg_sd_wf_def)
  have full: "nt_size (lm_payload m) = NV_TABLE_MAX_BYTES \<Longrightarrow> nt_size (lm_payload m') = NV_TABLE_MAX_BYTES"
    using m'(6) nv_size_le[OF m'(2)] by simp
  show ?thesis
    using m'(1) vals inv' full
    by (intro exI[of _ "(reg, m')"]) (simp add: s log_msg_ops_def store_known_def store_handle_def store_full_def store_val_def)
qed

text \<open>Registering a name keeps the table well formed: entries carry the names of their handles, and the
  names of the registered handles stay.\<close>

lemma nv_wf_more_names:
  assumes "nv_wf nm t" "\<And>h. nm h = [] \<or> nm' h = nm h"
  shows "nv_wf nm' t"
  using assms unfolding nv_wf_def nv_str_wf_def by (metis)

text \<open>Looking up a name leaves the registry as it is or appends the name.\<close>

definition reg_extends :: "string \<Rightarrow> nv_registry \<Rightarrow> nv_registry \<Rightarrow> bool" where
  "reg_extends name r r' \<longleftrightarrow> (\<exists>ns. map hd_name (reg_names r') = map hd_name (reg_names r) @ ns) \<and>
     (\<forall>n. n \<noteq> name \<or> nv_registry_get_handle r n \<noteq> 0 \<longrightarrow> nv_registry_get_handle r' n = nv_registry_get_handle r n)"

lemma last_dot_prefix: "last_dot (s @ t) \<noteq> None \<longleftrightarrow> last_dot s \<noteq> None \<or> last_dot t \<noteq> None"
  by (induction s) (auto split: option.splits)

lemma sd_name_prefix: "sd_name n \<longleftrightarrow> (\<exists>r. n = logmsg_sd_prefix @ r)"
  unfolding sd_name_def by (metis append_take_drop_id append_eq_conv_conj)

lemma sd_name_dot:
  assumes "sd_name n"
  shows "last_dot n \<noteq> None"
proof -
  obtain r where "n = logmsg_sd_prefix @ r" using assms by (auto simp: sd_name_prefix)
  moreover have "last_dot logmsg_sd_prefix \<noteq> None" by (simp add: logmsg_sd_prefix_def)
  ultimately show ?thesis using last_dot_prefix by metis
qed

lemma reg_grow_neq [simp]: "\<lparr>reg_names = reg_names reg @ [d], reg_name_map = f\<rparr> \<noteq> reg"
  by (cases reg) simp

lemma reg_map_less: "reg_wf r \<Longrightarrow> reg_name_map r n = Some (Suc i) \<Longrightarrow> i < length (reg_names r)"
  unfolding reg_wf_def by (meson Suc_le_eq)

lemma sd_name_not_builtin: "sd_name n \<Longrightarrow> n \<notin> set builtin_value_names"
  by (auto simp: sd_name_def logmsg_sd_prefix_def builtin_value_names_def)

lemma alloc_sd_wf:
  assumes wf: "reg_sd_wf reg" and sd: "sd_name name" and a: "nv_registry_alloc_handle reg name = (r1, h)"
  shows "reg_sd_wf r1 \<and> reg_extends name reg r1 \<and> h \<le> length (reg_names r1) \<and> nv_registry_get_handle r1 name = h \<and>
    (h \<noteq> 0 \<longrightarrow> hd_name (reg_names r1 ! (h - 1)) = name)"
proof (cases "r1 = reg")
  case True
  then show ?thesis
    using a wf sd by (auto simp: reg_extends_def reg_defs reg_sd_wf_def reg_wf_def Let_def gr0_conv_Suc split: option.splits if_splits)
next
  case False
  let ?d = "\<lparr>hd_name = name, hd_flags = 0, hd_name_len = of_nat (length name)\<rparr>"
  have r1: "reg_names r1 = reg_names reg @ [?d]" "reg_name_map r1 = (reg_name_map reg)(name \<mapsto> Suc (length (reg_names reg)))"
    "h = Suc (length (reg_names reg))" "nv_registry_get_handle reg name = 0"
    using a False by (auto simp: reg_defs Let_def split: option.splits if_splits)
  have wf1: "reg_wf r1" using reg_wf_alloc[of reg name] wf a by (simp add: reg_sd_wf_def)
  have le: "8 \<le> length (reg_names reg)"
    using wf arg_cong[of _ _ length] unfolding reg_sd_wf_def by (fastforce simp: builtin_value_names_def)
  have old: "i < length (reg_names reg)" if "reg_name_map reg n = Some (Suc i)" for n i
    using reg_map_less that wf by (simp add: reg_sd_wf_def)
  have "reg_sd_wf r1"
    using wf wf1 le old sd by (auto simp: reg_sd_wf_def r1 nth_append less_Suc_eq)
  moreover have "reg_extends name reg r1"
    using r1(4) by (auto simp: reg_extends_def r1 nv_registry_get_handle_def)
  ultimately show ?thesis by (simp add: r1 nv_registry_get_handle_def)
qed

lemma set_flags_sd_wf:
  assumes wf: "reg_sd_wf r" and h: "h \<le> length (reg_names r)" "h \<noteq> 0 \<longrightarrow> last_dot (hd_name (reg_names r ! (h - 1))) \<noteq> None"
  shows "\<exists>r'. nv_registry_set_handle_flags r h f = Some r' \<and> reg_sd_wf r' \<and> map hd_name (reg_names r') = map hd_name (reg_names r) \<and>
    reg_name_map r' = reg_name_map r"
proof (cases "h = 0")
  case False
  let ?r = "r\<lparr>reg_names := (reg_names r)[h - 1 := (reg_names r ! (h - 1))\<lparr>hd_flags := f\<rparr>]\<rparr>"
  have eq: "nv_registry_set_handle_flags r h f = Some ?r" using False h(1) by (simp add: nv_registry_set_handle_flags_def)
  have names: "map hd_name (reg_names ?r) = map hd_name (reg_names r)"
    using False h(1) by (intro nth_equalityI) (auto simp: nth_list_update)
  then have nth: "hd_name (reg_names ?r ! i) = hd_name (reg_names r ! i)" if "i < length (reg_names r)" for i
    using that by (metis length_map nth_map)
  have old: "i < length (reg_names r)" if "reg_name_map r n = Some (Suc i)" for n i
    using reg_map_less that wf by (simp add: reg_sd_wf_def)
  have "reg_wf ?r" using reg_wf_set_flags[OF _ eq] wf by (simp add: reg_sd_wf_def)
  then have "reg_sd_wf ?r"
    using wf False h names nth old unfolding reg_sd_wf_def by (auto simp: nth_list_update)
  with eq names show ?thesis by auto
qed (use wf in \<open>simp add: nv_registry_set_handle_flags_def\<close>)

lemma reg_nm_extends:
  assumes "reg_extends name r r'"
  shows "reg_nm r h = [] \<or> reg_nm r' h = reg_nm r h"
proof -
  obtain ns where ns: "map hd_name (reg_names r') = map hd_name (reg_names r) @ ns" using assms by (auto simp: reg_extends_def)
  have "length (reg_names r) \<le> length (reg_names r')" using arg_cong[OF ns, of length] by simp
  moreover have "hd_name (reg_names r' ! i) = hd_name (reg_names r ! i)" if "i < length (reg_names r)" for i
    using arg_cong[OF ns, of "\<lambda>l. l ! i"] that calculation by (simp add: nth_append)
  ultimately show ?thesis
    by (cases "h = 0") (auto simp: reg_nm_def log_msg_get_value_name_def nv_registry_get_handle_name_def Let_def)
qed

lemma sdata_wf_extends:
  assumes "reg_extends name r r'" "sdata_wf r m"
  shows "sdata_wf r' m"
proof -
  have "length (reg_names r) \<le> length (reg_names r')"
    using assms(1) unfolding reg_extends_def by (metis length_append length_map le_add1)
  with assms(2) show ?thesis
    by (fastforce simp: sdata_wf_def log_msg_get_value_name_def nv_registry_get_handle_name_def Let_def split: if_splits)
qed

lemma get_value_handle_sd:
  assumes wf: "reg_sd_wf reg" and sd: "sd_name name"
  shows "\<exists>reg' h. log_msg_get_value_handle reg name = Some (reg', h) \<and> reg_sd_wf reg' \<and> reg_extends name reg reg' \<and>
    h \<le> length (reg_names reg') \<and> nv_registry_get_handle reg' name = h"
proof -
  obtain r1 h where a: "nv_registry_alloc_handle reg name = (r1, h)" by fastforce
  note A = alloc_sd_wf[OF wf sd a]
  then obtain r2 where r2: "nv_registry_set_handle_flags r1 h LM_VF_SDATA = Some r2" "reg_sd_wf r2"
    "map hd_name (reg_names r2) = map hd_name (reg_names r1)" "reg_name_map r2 = reg_name_map r1"
    using set_flags_sd_wf[of r1 h] sd_name_dot[OF sd] by auto
  have "6 < length name" using sd by (auto simp: sd_name_prefix logmsg_sd_prefix_def)
  moreover have "length (reg_names r2) = length (reg_names r1)" using arg_cong[OF r2(3), of length] by simp
  ultimately show ?thesis
    using a A r2 sd
    by (auto simp: log_msg_get_value_handle_def strncmp_eq_def sd_name_def logmsg_sd_prefix_def reg_extends_def nv_registry_get_handle_def)
qed

interpretation lms: msg_store log_msg_ops store_invar store_known store_val store_full store_handle store_name
proof unfold_locales
  show "op_set_value log_msg_ops m 0 v = Some m" if "store_invar m" for m v
    using that by (cases m) (simp add: log_msg_ops_def log_msg_set_value_def log_msg_is_write_protected_def store_invar_def)
  show "\<exists>m' h. op_get_handle log_msg_ops m name = Some (m', h) \<and> store_invar m' \<and> h \<le> store_known m' \<and>
        store_known m \<le> store_known m' \<and> store_handle m' name = h \<and>
        (\<forall>n. n \<noteq> name \<or> store_handle m n \<noteq> 0 \<longrightarrow> store_handle m' n = store_handle m n) \<and>
        store_val m' = store_val m \<and> store_full m' = store_full m" if inv: "store_invar m" and sd: "sd_name name" for m name
  proof -
    obtain reg msg where m: "m = (reg, msg)" by (cases m)
    have wf: "reg_sd_wf reg" using inv by (simp add: store_invar_def m)
    obtain reg' h where r: "log_msg_get_value_handle reg name = Some (reg', h)" "reg_sd_wf reg'" "reg_extends name reg reg'"
      "h \<le> length (reg_names reg')" "nv_registry_get_handle reg' name = h" using get_value_handle_sd[OF wf sd] by blast
    have "store_invar (reg', msg)"
      using inv r(2) sdata_wf_extends[OF r(3)] nv_wf_more_names[OF _ reg_nm_extends[OF r(3)]] by (auto simp: store_invar_def m)
    moreover have "length (reg_names reg) \<le> length (reg_names reg')"
      using r(3) unfolding reg_extends_def by (metis length_append length_map le_add1)
    ultimately show ?thesis
      using r by (auto simp: m log_msg_ops_def store_known_def store_handle_def store_val_def store_full_def reg_extends_def)
  qed
  show "store_name m (store_handle m n) = n" if "store_invar m" "sd_name n" "store_handle m n \<noteq> 0" for m n
    using that by (auto simp: store_invar_def reg_sd_wf_def store_name_def store_handle_def nv_registry_get_handle_def gr0_conv_Suc split: option.splits if_splits)
  show "h \<le> store_known m \<and> \<not> sd_name (store_name m h)" if "store_invar m" "0 < h" "h < LM_V_MAX" for m h
  proof -
    have b: "take 8 (map hd_name (reg_names (fst m))) = builtin_value_names" using that by (simp add: store_invar_def reg_sd_wf_def)
    have "8 \<le> length (reg_names (fst m))" using arg_cong[OF b, of length] by (auto simp: builtin_value_names_def)
    moreover have "store_name m h = builtin_value_names ! (h - 1)"
      using arg_cong[OF b, of "\<lambda>l. l ! (h - 1)"] that(2,3) calculation by (auto simp: store_name_def LM_V_MAX_def)
    moreover have "h - 1 < length builtin_value_names" using that by (simp add: LM_V_MAX_def builtin_value_names_def)
    ultimately show ?thesis using that(3) sd_name_not_builtin nth_mem by (fastforce simp: store_known_def LM_V_MAX_def)
  qed
  show "op_get_value log_msg_ops m h = Some (store_val m h)" if "store_invar m" for m h
    using that get_value_val by (cases m) (auto simp: log_msg_ops_def store_val_def store_invar_def)
  show "store_invar m' \<and> store_known m' = store_known m \<and> store_val m' = store_val m \<and>
        store_full m' = store_full m \<and> store_handle m' = store_handle m"
    if "store_invar m" "m' = op_or_flags log_msg_ops m f" for m m' f
    using that by (cases m) (auto simp: log_msg_ops_def store_invar_def store_known_def store_val_def store_full_def
        store_handle_def sdata_wf_def log_msg_set_flag_def bit_simps)
qed (use store_set_value in blast)

subsection \<open>A fresh message\<close>

text \<open>The registry with the built-in names and a message with an empty payload, for examples.\<close>

definition fresh_msg :: log_message where
  "fresh_msg = \<lparr>lm_payload = the (nv_table_new LM_V_MAX 16 256), lm_flags = LF_STATE_OWN_MASK, lm_tagset = TagsInline 0, lm_sdata = [],
     lm_alloc_sdata = 0, lm_num_matches = 0, lm_initial_parse = True, lm_protect_cnt = 0\<rparr>"

definition fresh_store :: "nv_registry \<times> log_message" where
  "fresh_store = (nv_registry_new builtin_value_names, fresh_msg)"

lemma fresh_names: "map hd_name (reg_names (nv_registry_new builtin_value_names)) = builtin_value_names"
  by (simp add: nv_registry_new_def builtin_value_names_def reg_defs)

text \<open>A registry without aliases and flags.\<close>

definition reg_plain :: "nv_registry \<Rightarrow> bool" where
  "reg_plain r \<longleftrightarrow> (\<forall>i < length (reg_names r). hd_flags (reg_names r ! i) = 0) \<and>
     (\<forall>n i. reg_name_map r n = Some (Suc i) \<longrightarrow> i < length (reg_names r) \<and> hd_name (reg_names r ! i) = n)"

lemma reg_plain_alloc: "reg_plain r \<Longrightarrow> reg_plain (fst (nv_registry_alloc_handle r name))"
  by (auto simp: reg_plain_def reg_defs Let_def nth_append less_Suc_eq split: option.splits)

lemma reg_plain_new: "reg_plain (nv_registry_new ns)"
proof -
  have "reg_plain r \<Longrightarrow> reg_plain (nv_registry_alloc_all r ns)" for r
    by (induction r ns rule: nv_registry_alloc_all.induct) (simp_all add: reg_plain_alloc)
  then show ?thesis by (simp add: nv_registry_new_def reg_plain_def)
qed

lemma fresh_store_invar: "store_invar fresh_store"
proof -
  obtain t where t: "nv_table_new LM_V_MAX 16 256 = Some t" "nv_wf (reg_nm (fst fresh_store)) t"
    using new_spec[of LM_V_MAX 16 256] by (auto simp: LM_V_MAX_def)
  have "take 8 builtin_value_names = builtin_value_names" by (simp add: builtin_value_names_def)
  then have "reg_sd_wf (nv_registry_new builtin_value_names)"
    unfolding reg_sd_wf_def fresh_names using reg_wf_registry_new[of builtin_value_names] reg_plain_new[of builtin_value_names]
    by (simp add: reg_plain_def)
  then show ?thesis
    using t by (simp add: store_invar_def fresh_store_def fresh_msg_def sdata_wf_def LF_STATE_OWN_MASK_def bit_numeral_rec)
qed

end
