(* ===== verification/Syslog_Format_Props.thy ===== *)
theory Syslog_Format_Props
  imports Msg_Store "HOL-Library.Sublist"
begin

text \<open>
  What the message parsers do: each loop as a split of the text, the memory safety of the legacy parser,
  the parsing of well-formed messages, and the interface to the message object.
\<close>

subsection \<open>Positions inside a message\<close>

text \<open>The cursor before the text \<open>t\<close>, with the memory \<open>B\<close> behind it.\<close>

definition here :: "string \<Rightarrow> string \<Rightarrow> pos" where
  "here B t = (t @ B, int (length t))"

lemma here_fst [simp]: "fst (here B t) = t @ B"
  by (simp add: here_def)

lemma here_snd [simp]: "snd (here B t) = int (length t)"
  by (simp add: here_def)

lemma here_adv [simp]: "k \<le> length t \<Longrightarrow> adv (here B t) k = here B (drop k t)"
  by (simp add: here_def adv_def of_nat_diff)

lemma here_peek: "i < length t + length B \<Longrightarrow> peek (here B t) i = Some ((t @ B) ! i)"
  by (simp add: here_def peek_def)

lemma here_peek_text [simp]: "i < length t \<Longrightarrow> peek (here B t) i = Some (t ! i)"
  by (simp add: here_def peek_def nth_append)

lemma here_peek_Cons [simp]: "peek (here B (c # t)) 0 = Some c"
  by (simp add: here_def peek_def)

lemma here_peek_end [simp]: "i < length B \<Longrightarrow> peek (here B []) i = Some (B ! i)"
  by (simp add: here_def peek_def)

lemma here_slice [simp]: "n \<le> length t \<Longrightarrow> slice (here B t) n = Some (take n t)"
  by (simp add: here_def slice_def)

lemma here_Nil: "(B, 0) = here B []"
  by (simp add: here_def)

lemma here_Cons: "(c # t @ B, 1 + int (length t)) = here B (c # t)"
  by (simp add: here_def)

lemmas here_folds = here_Nil here_Cons

subsection \<open>The loops\<close>

lemma run_to_here:
  "run_to stops n (t @ B) (int (length t)) =
    Some (n + length (takeWhile (\<lambda>c. c \<notin> set stops) t), here B (dropWhile (\<lambda>c. c \<notin> set stops) t))"
proof (induction t arbitrary: n)
  case Nil
  then show ?case by (cases B) (simp_all add: here_def)
qed (simp_all add: here_def)

lemma skip_until_here:
  "skip_until delims n (t @ B) (int (length t)) =
    Some (n + length (takeWhile (\<lambda>c. \<not> strchr_hit delims c) t), here B (dropWhile (\<lambda>c. \<not> strchr_hit delims c) t))"
proof (induction t arbitrary: n)
  case Nil
  then show ?case by (cases B) (simp_all add: here_def)
qed (simp_all add: here_def)

lemma skip_chars_here:
  "skip_chars chars (-1) n (t @ B) (int (length t)) =
    Some (n + length (takeWhile (strchr_hit chars) t), here B (dropWhile (strchr_hit chars) t))"
proof (induction t arbitrary: n)
  case Nil
  then show ?case by (cases B) (simp_all add: here_def)
qed (simp_all add: here_def)

lemma digits_until_here:
  assumes "\<not> isdigit stop"
  shows "digits_until stop v n (t @ B) (int (length t)) =
    Some (let d = takeWhile isdigit t; r = dropWhile isdigit t
          in if r = [] \<or> hd r = stop
             then Some (foldl (\<lambda>v c. v * 10 + int (digit_value c)) v d, n + length d, here B r) else None)"
  using assms
proof (induction t arbitrary: n v)
  case Nil
  then show ?case by (cases B) (simp_all add: here_def)
qed (auto simp: here_def Let_def)

lemma pri_loop_here:
  "pri_loop v (t @ B) (int (length t)) =
    Some (let d = takeWhile isdigit t; r = dropWhile isdigit t
          in if r = [] \<or> hd r = CHR ''>''
             then Some (foldl (\<lambda>v c. v * 10 + int (digit_value c)) v d, here B r) else None)"
proof (induction t arbitrary: v)
  case Nil
  then show ?case by (cases B) (simp_all add: here_def)
qed (auto simp: here_def Let_def isdigit_def)

lemma hostname_loop_here:
  "hostname_loop chk dst (t @ B) (int (length t)) =
    (let P = (\<lambda>c. c \<notin> set '' :['' \<and> \<not> (chk \<and> is_invalid_char c)); w = takeWhile P (take (255 - dst) t)
     in Some (dst + length w, here B (drop (length w) t)))"
proof (induction t arbitrary: dst)
  case Nil
  then show ?case by (cases B) (simp_all add: here_def)
next
  case (Cons c t)
  show ?case
  proof (cases "dst < 255")
    case True
    then have "255 - dst = Suc (255 - Suc dst)" by simp
    with True Cons show ?thesis by (auto simp: here_def Let_def)
  qed (simp add: here_def Let_def)
qed

lemma power10_less: "(10 :: nat) ^ j < 1000000 \<longleftrightarrow> j < 6"
  using power_strict_increasing_iff[of "10 :: nat" j 6] by simp

lemma frac_digits_loop_here:
  "frac_digits_loop frac (10 ^ j) (t @ B) (int (length t)) =
    (let w = takeWhile isdigit (take (6 - j) t) in Some (dec_value frac w, 10 ^ (j + length w), here B (drop (length w) t)))"
proof (induction t arbitrary: frac j)
  case Nil
  then show ?case by (cases B) (auto simp: here_def)
next
  case (Cons c t)
  show ?case
  proof (cases "j < 6")
    case True
    then have "6 - j = Suc (6 - Suc j)" by simp
    with True Cons[of "10 * frac + digit_value c" "Suc j"] show ?thesis
      by (simp add: here_def power10_less Let_def mult.commute)
  qed (simp add: here_def power10_less)
qed

lemma skip_digits_bounded_here:
  "skip_digits_bounded (t @ B) (int (length t)) = Some (here B (dropWhile isdigit t))"
proof (induction t)
  case Nil
  then show ?case by (cases B) (simp_all add: here_def)
qed (simp_all add: here_def)

lemma skip_digits_unbounded_here:
  assumes "B = b # bs" "\<not> isdigit b"
  shows "skip_digits_unbounded (t @ B) (int (length t)) = Some (here B (dropWhile isdigit t))"
  using assms by (induction t) (simp_all add: here_def)

lemma find_space_here:
  "find_space (here B t) =
    Some (let w = takeWhile (\<lambda>c. c \<noteq> CHR '' '') t in if length w < length t then Some (length w) else None)"
  using length_takeWhile_le[of "\<lambda>c. c \<noteq> CHR '' ''" t] by (auto simp: find_space_def here_def Let_def)

subsection \<open>Scanners stop inside the text\<close>

definition stays :: "'a scanner \<Rightarrow> bool" where
  "stays sc \<longleftrightarrow> (\<forall>t. suffix (fst (sc t)) t)"

named_theorems stays_intros

lemma stays_then [stays_intros]: "stays p \<Longrightarrow> (\<And>x. stays (f x)) \<Longrightarrow> stays (scan_then p f)"
  unfolding stays_def scan_then_def
  by (auto split: prod.splits option.splits) (metis fst_conv suffix_order.trans)+

lemma stays_done [stays_intros]: "stays (scan_done x)"
  by (simp add: stays_def scan_done_def)

lemma stays_digits: "suffix (fst (scan_digits n r t)) t"
  by (induction n r t rule: scan_digits.induct) (auto intro: suffix_ConsI)

lemma stays_int [stays_intros]: "stays (scan_int n)"
  using stays_digits[of n 0] by (auto simp: stays_def scan_int_def scan_uint32_def split: prod.splits) (metis fst_conv)

lemma stays_char [stays_intros]: "stays (scan_expect_char c)"
  by (auto simp: stays_def scan_expect_char_def split: list.splits intro: suffix_ConsI)

lemma stays_month [stays_intros]: "stays scan_month_abbrev"
  by (auto simp: stays_def scan_month_abbrev_def Let_def suffix_drop)

lemma stays_hms [stays_intros]: "(\<And>h m s. stays (f h m s)) \<Longrightarrow> stays (scan_hms f)"
  unfolding scan_hms_def by (intro stays_intros)

lemma stays_timestamps [stays_intros]:
  "stays scan_iso_timestamp" "stays scan_pix_timestamp" "stays scan_linksys_timestamp" "stays (scan_bsd_timestamp y)"
  unfolding scan_iso_timestamp_def scan_pix_timestamp_def scan_linksys_timestamp_def scan_bsd_timestamp_def
  by (intro stays_intros)+

lemma run_scan_here:
  assumes "stays sc"
  shows "\<exists>x r. run_scan sc (here B t) = Some (x, here B r) \<and> suffix r t \<and> sc t = (r, x)"
proof -
  obtain r x where rx: "sc t = (r, x)" by fastforce
  then have "suffix r t" using assms by (metis stays_def fst_conv)
  then show ?thesis using rx by (auto simp: run_scan_def suffix_def)
qed

subsection \<open>Steps that return\<close>

text \<open>A step returns, with a result that satisfies \<open>P\<close>. The rules compose it along the blocks of the parsers.\<close>

definition returns :: "'a option \<Rightarrow> ('a \<Rightarrow> bool) \<Rightarrow> bool" where
  "returns r P \<longleftrightarrow> (\<exists>x. r = Some x \<and> P x)"

lemma returns_Some [simp]: "returns (Some x) P \<longleftrightarrow> P x"
  by (simp add: returns_def)

lemma returns_None [simp]: "\<not> returns None P"
  by (simp add: returns_def)

lemma returns_bind: "returns a Q \<Longrightarrow> (\<And>x. Q x \<Longrightarrow> returns (f x) P) \<Longrightarrow> returns (a \<bind> f) P"
  by (auto simp: returns_def)

lemma returns_bind_pair: "returns a Q \<Longrightarrow> (\<And>x y. Q (x, y) \<Longrightarrow> returns (f x y) P) \<Longrightarrow> returns (a \<bind> (\<lambda>(x, y). f x y)) P"
  by (auto simp: returns_def)

lemma returns_bind_triple:
  "returns a Q \<Longrightarrow> (\<And>x y z. Q (x, y, z) \<Longrightarrow> returns (f x y z) P) \<Longrightarrow> returns (a \<bind> (\<lambda>(x, y, z). f x y z)) P"
  by (auto simp: returns_def)

lemma returns_map: "returns a (\<lambda>x. P (f x)) \<Longrightarrow> returns (map_option f a) P"
  by (auto simp: returns_def)

lemma returns_mono: "returns a Q \<Longrightarrow> (\<And>x. Q x \<Longrightarrow> P x) \<Longrightarrow> returns a P"
  by (auto simp: returns_def)

text \<open>The positions in the message \<open>T\<close>, which is followed by two NUL characters.\<close>

definition inside :: "string \<Rightarrow> string \<Rightarrow> pos \<Rightarrow> bool" where
  "inside bs T p \<longleftrightarrow> (\<exists>t. p = here (NUL # NUL # bs) t \<and> suffix t T)"

lemma insideE:
  assumes "inside bs T p"
  obtains t where "p = here (NUL # NUL # bs) t" "suffix t T" "length t \<le> length T"
  using assms suffix_length_le by (auto simp: inside_def)

lemma inside_here: "inside bs T (here (NUL # NUL # bs) t) \<longleftrightarrow> suffix t T"
  by (auto simp: inside_def here_def)

lemma suffix_steps:
  "suffix t T \<Longrightarrow> suffix (drop k t) T" "suffix t T \<Longrightarrow> suffix (dropWhile P t) T"
  by (meson suffix_drop suffix_dropWhile suffix_order.trans)+

lemma inside_peek:
  assumes "inside bs T p"
  shows "returns (peek p 0) (\<lambda>c. c \<noteq> NUL \<longrightarrow> inside bs T (adv p 1))"
  using assms
proof (rule insideE)
  fix t assume "p = here (NUL # NUL # bs) t" "suffix t T"
  then show ?thesis by (cases t) (auto simp: inside_here here_def[of _ "[]"] peek_def dest: suffix_ConsD)
qed

lemma inside_skip_one: "inside bs T p \<Longrightarrow> c \<noteq> NUL \<Longrightarrow> returns (skip_one c p) (inside bs T)"
  unfolding skip_one_def by (auto intro!: returns_bind[OF inside_peek])

lemma inside_skip_chars: "inside bs T p \<Longrightarrow> returns (log_msg_parse_skip_chars p chars (-1)) (\<lambda>(n, q). inside bs T q)"
  by (erule insideE) (simp add: log_msg_parse_skip_chars_def skip_chars_here inside_here suffix_steps)

lemma length_while_le:
  "length t \<le> n \<Longrightarrow> length (takeWhile P t) \<le> n" "length t \<le> n \<Longrightarrow> length (dropWhile P t) \<le> n"
  by (meson length_takeWhile_le length_dropWhile_le order_trans)+

lemma inside_skip_until:
  "inside bs T p \<Longrightarrow> returns (log_msg_parse_skip_chars_until p d) (\<lambda>(n, q). inside bs T q \<and> n \<le> length T)"
  by (erule insideE) (simp add: log_msg_parse_skip_chars_until_def skip_until_here inside_here length_while_le suffix_steps)

lemma inside_run_to:
  "inside bs T p \<Longrightarrow> returns (run_to stops 0 (fst p) (snd p)) (\<lambda>(n, q). inside bs T q \<and> n \<le> length T)"
  by (erule insideE) (simp add: run_to_here inside_here length_while_le suffix_steps)

lemma inside_hostname_loop:
  "inside bs T p \<Longrightarrow> returns (hostname_loop chk 0 (fst p) (snd p)) (\<lambda>(n, q). inside bs T q \<and> n \<le> 255)"
  by (erule insideE) (simp add: hostname_loop_here Let_def inside_here length_while_le suffix_steps)

lemma inside_hostname:
  "inside bs T p \<Longrightarrow>
    returns (log_msg_parse_hostname env bad p) (\<lambda>(h, q). inside bs T q \<and> (\<forall>n. h = Some n \<longrightarrow> length n \<le> 255))"
  unfolding log_msg_parse_hostname_def
  by (rule returns_bind_pair, rule inside_hostname_loop, assumption)
    (auto simp: Let_def intro!: returns_bind returns_map returns_mono[OF inside_peek] split: if_splits)

lemma inside_scan:
  assumes "stays sc" "inside bs T p"
  shows "returns (run_scan sc p) (\<lambda>(x, q). inside bs T q)"
  using assms(2)
proof (rule insideE)
  fix t assume "p = here (NUL # NUL # bs) t" "suffix t T"
  with run_scan_here[OF assms(1), of "NUL # NUL # bs" t] show ?thesis by (auto simp: inside_here intro: suffix_order.trans)
qed

definition fraction_of :: "string \<Rightarrow> nat \<times> string" where
  "fraction_of t =
     (if t \<noteq> [] \<and> hd t = CHR ''.''
      then let w = takeWhile isdigit (take 6 (tl t))
           in (dec_value 0 w * (1000000 div 10 ^ length w), dropWhile isdigit (drop (length w) (tl t)))
      else (0, t))"

lemma fraction_here:
  "iso_fraction (here (NUL # bs) t) = Some (fst (fraction_of t), here (NUL # bs) (snd (fraction_of t)))"
  "bsd_fraction (here (NUL # bs) t) = Some (fst (fraction_of t), here (NUL # bs) (snd (fraction_of t)))"
proof -
  have nd: "\<not> isdigit NUL" by (simp add: isdigit_def)
  have f: "frac_digits_loop 0 1 (t @ NUL # bs) (int (length t)) =
    Some (dec_value 0 (takeWhile isdigit (take 6 t)), 10 ^ length (takeWhile isdigit (take 6 t)),
      here (NUL # bs) (drop (length (takeWhile isdigit (take 6 t))) t))" for t
    using frac_digits_loop_here[of 0 0 t "NUL # bs"] by (simp only: Let_def power_0 diff_zero add_0)
  have sk: "skip_digits_unbounded (drop n u @ NUL # bs) (int (length u - n)) = Some (here (NUL # bs) (dropWhile isdigit (drop n u)))"
    "skip_digits_bounded (drop n u @ NUL # bs) (int (length u - n)) = Some (here (NUL # bs) (dropWhile isdigit (drop n u)))" for n u
    using skip_digits_unbounded_here[OF refl nd, of "drop n u"] skip_digits_bounded_here[of "drop n u"] by simp_all
  show "iso_fraction (here (NUL # bs) t) = Some (fst (fraction_of t), here (NUL # bs) (snd (fraction_of t)))"
  proof (cases t)
    case (Cons c u)
    have "adv (here (NUL # bs) t) 1 = here (NUL # bs) u" by (simp add: Cons)
    then show ?thesis
      unfolding iso_fraction_def by (simp add: Cons f[simplified] sk fraction_of_def Let_def)
  qed (simp add: iso_fraction_def fraction_of_def)
  show "bsd_fraction (here (NUL # bs) t) = Some (fst (fraction_of t), here (NUL # bs) (snd (fraction_of t)))"
  proof (cases t)
    case (Cons c u)
    have "adv (here (NUL # bs) t) 1 = here (NUL # bs) u" by (simp add: Cons)
    then show ?thesis
      unfolding bsd_fraction_def by (simp add: Cons f[simplified] sk fraction_of_def Let_def)
  qed (simp add: bsd_fraction_def fraction_of_def)
qed

lemma fraction_suffix: "suffix (snd (fraction_of t)) t"
proof (cases t)
  case (Cons c u)
  have "suffix (dropWhile isdigit (drop n u)) t" for n
    using suffix_dropWhile suffix_drop Cons by (metis suffix_ConsI suffix_order.trans)
  then have "c = CHR ''.'' \<Longrightarrow> suffix (dropWhile isdigit (drop n u)) (CHR ''.'' # u)" for n using Cons by simp
  then show ?thesis by (simp add: fraction_of_def Let_def Cons)
qed (simp add: fraction_of_def)

lemma inside_fraction:
  "inside bs T p \<Longrightarrow> returns (iso_fraction p) (\<lambda>(u, q). inside bs T q)"
  "inside bs T p \<Longrightarrow> returns (bsd_fraction p) (\<lambda>(u, q). inside bs T q)"
  by (erule insideE, simp add: fraction_here inside_here suffix_order.trans[OF fraction_suffix])+

text \<open>A conjunction of tests on characters that can all be read.\<close>

lemma peek_all_returns:
  "\<forall>x \<in> set ps. fst x < length (fst p) \<Longrightarrow> peek_all p ps = Some (\<forall>x \<in> set ps. snd x (fst p ! fst x))"
  by (induction ps) (auto simp: peek_def)

text \<open>The numeric offset of a text.\<close>

definition zone_digits :: "string \<Rightarrow> bool" where
  "zone_digits t \<longleftrightarrow> length t \<ge> 6 \<and> (t ! 0 = CHR ''+'' \<or> t ! 0 = CHR ''-'') \<and> isdigit (t ! 1) \<and> isdigit (t ! 2) \<and> t ! 3 = CHR '':'' \<and>
     isdigit (t ! 4) \<and> isdigit (t ! 5) \<and> (length t > 6 \<longrightarrow> \<not> isdigit (t ! 6))"

lemma zone_test_here:
  "(if snd (here (NUL # NUL # bs) t) \<ge> 5 then peek_all (here (NUL # NUL # bs) t) [(0, \<lambda>c. c = CHR ''+'' \<or> c = CHR ''-''), (1, isdigit),
      (2, isdigit), (3, \<lambda>c. c = CHR '':''), (4, isdigit), (5, isdigit), (6, \<lambda>c. \<not> isdigit c)] else Some False) = Some (zone_digits t)"
proof (cases "5 \<le> length t")
  case True
  then show ?thesis
    by (subst peek_all_returns) (auto simp: zone_digits_def nth_append isdigit_def nth_Cons')
qed (auto simp: zone_digits_def)

lemma inside_iso_zone: "inside bs T p \<Longrightarrow> returns (iso_zone p) (\<lambda>(z, q). inside bs T q)"
proof (erule insideE)
  fix t assume t: "p = here (NUL # NUL # bs) t" "suffix t T"
  have "length t \<ge> 6" if "zone_digits t" using that by (simp add: zone_digits_def)
  with t show ?thesis
    unfolding iso_zone_def t zone_test_here by (cases t) (auto simp: inside_here Let_def intro: suffix_steps(1) dest: suffix_ConsD)
qed

definition date_inside :: "string \<Rightarrow> string \<Rightarrow> (tm \<times> nat \<times> int option \<times> pos) option \<Rightarrow> bool" where
  "date_inside bs T r \<longleftrightarrow> (case r of None \<Rightarrow> True | Some (t, u, z, q) \<Rightarrow> inside bs T q)"

lemma date_inside_simps [simp]:
  "date_inside bs T None" "date_inside bs T (Some (t, u, z, q)) \<longleftrightarrow> inside bs T q"
  by (simp_all add: date_inside_def)

lemma inside_dates:
  assumes "inside bs T p"
  shows "returns (parse_date_iso p) (date_inside bs T)"
    "returns (parse_date_pix p) (date_inside bs T)"
    "returns (parse_date_linksys p) (date_inside bs T)"
    "returns (parse_date_bsd nowtm p) (date_inside bs T)"
proof -
  note sc = inside_scan[OF _ assms]
  show "returns (parse_date_iso p) (date_inside bs T)"
    unfolding parse_date_iso_def
    by (rule returns_bind_pair[OF sc], rule stays_intros)
      (auto split: option.split intro!: returns_bind_pair[OF inside_fraction(1)] returns_bind_pair[OF inside_iso_zone])
  show "returns (parse_date_pix p) (date_inside bs T)"
    unfolding parse_date_pix_def
    by (rule returns_bind_pair[OF sc], rule stays_intros)
      (auto split: option.split intro!: returns_bind[OF inside_peek])
  show "returns (parse_date_linksys p) (date_inside bs T)"
    unfolding parse_date_linksys_def by (rule returns_bind_pair[OF sc], rule stays_intros) (auto simp: date_inside_def split: option.split)
  show "returns (parse_date_bsd nowtm p) (date_inside bs T)"
    unfolding parse_date_bsd_def
    by (rule returns_bind_pair[OF sc], rule stays_intros)
      (auto split: option.split intro!: returns_bind_pair[OF inside_fraction(2)])
qed

lemma looks_returns:
  assumes "inside bs T p"
  shows "returns (looks_iso p) (\<lambda>_. True)" "returns (looks_pix p) (\<lambda>_. True)" "returns (looks_linksys p) (\<lambda>_. True)"
    "returns (looks_bsd p) (\<lambda>_. True)"
  using assms
  by (erule_tac insideE, simp add: looks_iso_def looks_pix_def looks_linksys_def looks_bsd_def peek_all_returns del: peek_all.simps)+

subsection \<open>The legacy parser on a message store\<close>

context msg_store
begin

text \<open>A message under construction whose store is well formed and knows \<open>k\<close> handles.\<close>

definition good :: "nat \<Rightarrow> 'm sf_msg \<Rightarrow> bool" where
  "good k self \<longleftrightarrow> invar (sf_m self) \<and> known (sf_m self) = k"

lemma good_stamp [simp]: "good k (self\<lparr>sf_stamp := x\<rparr>) = good k self" "good k (self\<lparr>sf_pri := y\<rparr>) = good k self"
  by (simp_all add: good_def)

lemma good_or_flags: "good k self \<Longrightarrow> good k (or_flags ops self f)"
  using op_or_flags[of "sf_m self" _ f] by (simp add: good_def or_flags_def)

lemma set_val_good:
  "good k self \<Longrightarrow> h \<le> k \<Longrightarrow> length v \<le> NV_TABLE_MAX_BYTES \<Longrightarrow> returns (set_val ops self h v) (good k)"
  using set_value[of "sf_m self" h v] set_value_0[of "sf_m self" v]
  by (cases "h = 0") (auto simp: good_def set_val_def)

lemma good_builtin: "good k self \<Longrightarrow> h < LM_V_MAX \<Longrightarrow> h \<le> k"
  using builtin[of "sf_m self" h] by (cases "h = 0") (auto simp: good_def)

lemmas builtin_handles = LM_V_HOST_def LM_V_PROGRAM_def LM_V_PID_def LM_V_MSGID_def LM_V_MESSAGE_def LM_V_LEGACY_MSGHDR_def LM_V_MAX_def

lemma set_builtin_good:
  "good k self \<Longrightarrow> h \<in> {LM_V_HOST, LM_V_PROGRAM, LM_V_PID, LM_V_MSGID, LM_V_MESSAGE, LM_V_LEGACY_MSGHDR} \<Longrightarrow>
    length v \<le> NV_TABLE_MAX_BYTES \<Longrightarrow> returns (set_val ops self h v) (good k)"
  by (rule set_val_good) (auto intro: good_builtin simp: builtin_handles)

lemma parse_pri_good:
  assumes "good k self" "inside bs T p"
  shows "returns (log_msg_parse_pri self p d) (\<lambda>(ok, self', q). good k self' \<and> inside bs T q)"
  using assms(2)
proof (rule insideE)
  fix t assume t: "p = here (NUL # NUL # bs) t" "suffix t T"
  show ?thesis
  proof (cases t)
    case (Cons c u)
    then have [simp]: "adv p 1 = here (NUL # NUL # bs) u" using t by simp
    have "suffix (dropWhile isdigit u) T" using t Cons by (simp add: suffix_steps suffix_ConsD)
    with assms t Cons show ?thesis
      by (cases "dropWhile isdigit u")
        (auto simp del: dropWhile_eq_Nil_conv simp: log_msg_parse_pri_def pri_loop_here Let_def inside_here dest: suffix_ConsD)
  qed (use assms t in \<open>simp add: log_msg_parse_pri_def\<close>)
qed

lemma parse_seq_good:
  assumes "good k self" "inside bs T p" "se_cisco_seqid env \<le> k" "length T \<le> NV_TABLE_MAX_BYTES"
  shows "returns (log_msg_parse_seq ops env self p) (\<lambda>(ok, self', q). good k self' \<and> inside bs T q)"
  using assms(2)
proof (rule insideE)
  fix t assume t: "p = here (NUL # NUL # bs) t" "suffix t T"
  let ?d = "takeWhile isdigit t" and ?r = "dropWhile isdigit t"
  have st: "returns (set_val ops self (se_cisco_seqid env) ?d) (good k)"
    using assms suffix_length_le[OF t(2)] by (intro set_val_good) (auto intro: length_while_le order_trans)
  have td: "take (length ?d) t = ?d" by (rule takeWhile_eq_take[symmetric])
  show ?thesis
  proof (cases ?r)
    case (Cons c u)
    have "suffix (c # u) T" using suffix_steps(2)[OF t(2), of isdigit] Cons by simp
    with assms t Cons st td show ?thesis
      unfolding log_msg_parse_seq_def
      by (cases u) (auto simp: digits_until_here isdigit_def[of "CHR '':''"] Let_def here_peek inside_here length_takeWhile_le
          intro!: returns_bind[OF st] dest: suffix_ConsD)
  qed (use assms t in \<open>simp add: log_msg_parse_seq_def digits_until_here isdigit_def[of "CHR '':''"] Let_def del: dropWhile_eq_Nil_conv\<close>)
qed

lemma good_finish [simp]: "good k (finish_date env tz self t u z) = good k self"
  by (simp add: finish_date_def Let_def case_prod_beta)

lemma parse_date_good:
  assumes "good k self" "inside bs T p" "se_is_synced env \<le> k"
  shows "returns (log_msg_parse_date ops env self p fl tz) (\<lambda>(ok, self', q). good k self' \<and> inside bs T q)"
proof -
  have mark: "returns (if fl AND LP_SYSLOG_PROTOCOL = 0 then parse_sync_mark ops env self p else Some (self, p))
      (\<lambda>(self', q). good k self' \<and> inside bs T q)"
    using assms unfolding parse_sync_mark_def
    by (auto intro!: returns_bind[OF inside_peek] returns_map returns_mono[OF set_val_good] simp: NV_TABLE_MAX_BYTES_def)
  have date: "returns (parse_date_legacy env q) (date_inside bs T)" if "inside bs T q" for q
    unfolding parse_date_legacy_def using that
    by (auto intro!: inside_dates returns_bind[OF looks_returns(2)] returns_bind[OF looks_returns(3)] returns_bind[OF looks_returns(4)])
  show ?thesis
    unfolding log_msg_parse_date_def using assms(2)
    by (intro returns_bind_pair[OF mark])
      (auto intro!: returns_bind[OF looks_returns(1)] returns_bind[OF date] returns_bind[OF inside_dates(1)] split: option.split)
qed

lemma program_name_good:
  assumes "good k self" "inside bs T p" "length T \<le> NV_TABLE_MAX_BYTES"
  shows "returns (log_msg_parse_legacy_program_name ops env self p) (\<lambda>(self', q). good k self' \<and> inside bs T q)"
proof -
  have pid: "returns (parse_pid ops self q) (\<lambda>(self', q). good k self' \<and> inside bs T q)"
    if "good k self" "inside bs T q" for self q
    unfolding parse_pid_def using that assms(3)
    by (auto intro!: returns_bind_pair[OF inside_run_to] returns_bind[OF set_builtin_good] returns_bind[OF inside_skip_one])
  have bracket: "returns (if snd q > 0 then map_option (\<lambda>c. c = CHR ''['') (peek q 0) else Some False) (\<lambda>_. True)"
    if "inside bs T q" for q using inside_peek[OF that] by (auto simp: returns_def)
  have hdr: "returns (slice p (nat (snd p - left))) (\<lambda>v. length v \<le> length T)" if "inside bs T (mem, left)" for mem left
    using assms(2) that by (auto elim!: insideE simp: slice_def here_def)
  show ?thesis
    unfolding log_msg_parse_legacy_program_name_def using assms
    by (auto intro!: returns_bind_pair[OF inside_run_to] returns_bind[OF set_builtin_good] returns_bind_pair[OF pid]
        returns_bind[OF inside_skip_one] returns_bind[OF hdr] returns_bind[OF bracket] good_or_flags)
qed

lemma legacy_header_good:
  assumes "good k self" "inside bs T p" "length T \<le> NV_TABLE_MAX_BYTES"
  shows "returns (parse_legacy_header ops env self p) (\<lambda>(self', q). good k self' \<and> inside bs T q)"
proof -
  define short where "short h \<longleftrightarrow> (\<forall>n. h = Some n \<longrightarrow> length n \<le> NV_TABLE_MAX_BYTES)" for h :: "string option"
  have aix: "returns (parse_aix_forward p) (\<lambda>(h, q). short h \<and> inside bs T q)" if "inside bs T p" for p
  proof -
    have "inside bs T (adv p (length aix_fwd_string))" if "snd p \<ge> int (length aix_fwd_string)"
      using \<open>inside bs T p\<close> that by (auto elim!: insideE simp: inside_here suffix_steps)
    with that assms(3) show ?thesis
      by (auto simp: parse_aix_forward_def short_def Let_def intro!: returns_bind_pair[OF inside_skip_until] returns_bind_pair[OF inside_skip_chars])
  qed
  have host: "returns (parse_legacy_hostname env h p) (\<lambda>(h, q). short h \<and> inside bs T q)" if "inside bs T p" "short h" for p h
  proof -
    have "(255 :: nat) \<le> NV_TABLE_MAX_BYTES" by (simp add: NV_TABLE_MAX_BYTES_def)
    with that show ?thesis unfolding parse_legacy_hostname_def short_def
      by (fastforce intro!: returns_bind_pair[OF inside_hostname] returns_bind_pair[OF inside_skip_chars])
  qed
  show ?thesis
    unfolding parse_legacy_header_def using assms
    by (auto simp: Let_def intro!: returns_bind_pair[OF inside_skip_chars] returns_bind_pair[OF aix] returns_bind_pair[OF host]
      returns_bind_pair[OF program_name_good] split: option.split; auto simp: short_def intro!: returns_bind[OF set_builtin_good])
qed

text \<open>The message text that was stored, unless the store is full, is an end of the message.\<close>

definition stored_end :: "string \<Rightarrow> 'm sf_msg \<Rightarrow> bool" where
  "stored_end T self \<longleftrightarrow> full (sf_m self) \<or> suffix (val (sf_m self) LM_V_MESSAGE) T"

lemma store_message_good:
  assumes "good k self" "inside bs T p" "length T \<le> NV_TABLE_MAX_BYTES"
  shows "returns (store_message ops self p) (\<lambda>self'. good k self' \<and> stored_end T self')"
  using assms(2)
proof (rule insideE)
  fix t assume t: "p = here (NUL # NUL # bs) t" "suffix t T" "length t \<le> length T"
  have "0 < LM_V_MESSAGE" "LM_V_MESSAGE \<le> known (sf_m self)"
    using builtin[of "sf_m self" LM_V_MESSAGE] assms(1) by (auto simp: good_def LM_V_MESSAGE_def LM_V_MAX_def)
  then obtain m where "op_set_value ops (sf_m self) LM_V_MESSAGE t = Some m" "invar m" "known m = known (sf_m self)"
    "full m \<or> val m = (val (sf_m self))(LM_V_MESSAGE := t)"
    using set_value[of "sf_m self" LM_V_MESSAGE t] assms t(3) by (auto simp: good_def)
  with t assms(1) show ?thesis by (auto simp: store_message_def set_val_def good_def stored_end_def)
qed

lemma stored_end_or_flags: "good k self \<Longrightarrow> stored_end T self \<Longrightarrow> stored_end T (or_flags ops self f)"
  using op_or_flags[of "sf_m self" _ f] by (simp add: good_def or_flags_def stored_end_def)

lemma legacy_returns:
  assumes "good k self" "inside bs T p" "length T \<le> NV_TABLE_MAX_BYTES" "se_cisco_seqid env \<le> k" "se_is_synced env \<le> k"
  shows "returns (log_msg_parse_legacy ops env p self) (\<lambda>(ok, self'). good k self' \<and> (ok \<longrightarrow> stored_end T self'))"
proof -
  have prog: "returns (map_option (\<lambda>m. (m, q)) (set_val ops self LM_V_PROGRAM ''kernel'')) (\<lambda>(self', q). good k self' \<and> inside bs T q)"
    if "good k self" "inside bs T q" for self q
    using that by (auto intro!: returns_map returns_mono[OF set_builtin_good] simp: NV_TABLE_MAX_BYTES_def)
  show ?thesis
    unfolding log_msg_parse_legacy_def using assms
    by (auto simp: Let_def intro!: returns_bind_triple[OF parse_pri_good] returns_bind_triple[OF parse_seq_good]
      returns_bind_pair[OF inside_skip_chars] returns_bind_triple[OF parse_date_good] returns_bind_pair[OF legacy_header_good]
      returns_bind[OF prog] returns_bind[OF program_name_good] returns_bind[OF store_message_good] good_or_flags stored_end_or_flags)
qed

end

subsection \<open>Properties\<close>

text \<open>C5: The legacy parser is memory safe and total. For every text, whatever its bytes, that is
  followed by two NUL characters in memory, \<^verbatim>\<open>log_msg_parse_legacy\<close> returns without reading beyond them and
  without a failed assertion, whatever the flags; the message object stays well formed, and if the
  parser succeeds the stored \<^verbatim>\<open>MESSAGE\<close> is an end of the text, unless the payload has grown to its
  limit.\<close>

theorem log_msg_parse_legacy_memory_safe:
  assumes "store_invar (sf_m self)" "length data \<le> NV_TABLE_MAX_BYTES"
    and "se_cisco_seqid env \<le> length (reg_names (fst (sf_m self)))" "se_is_synced env \<le> length (reg_names (fst (sf_m self)))"
  shows "\<exists>ok self'. log_msg_parse_legacy log_msg_ops env (data @ NUL # NUL # behind, int (length data)) self = Some (ok, self') \<and>
    store_invar (sf_m self') \<and>
    (ok \<longrightarrow> nt_size (lm_payload (snd (sf_m self'))) = NV_TABLE_MAX_BYTES \<or>
      (\<exists>msg. nv_table_get_value (lm_payload (snd (sf_m self'))) LM_V_MESSAGE = Some msg \<and> suffix msg data))"
proof -
  let ?k = "store_known (sf_m self)" and ?p = "(data @ NUL # NUL # behind, int (length data))"
  have "inside behind data ?p" by (auto simp: inside_def here_def)
  moreover have "lms.good ?k self" using assms by (simp add: lms.good_def)
  moreover have "se_cisco_seqid env \<le> ?k" "se_is_synced env \<le> ?k" using assms by (simp_all add: store_known_def)
  ultimately have "returns (log_msg_parse_legacy log_msg_ops env ?p self) (\<lambda>(ok, self'). lms.good ?k self' \<and> (ok \<longrightarrow> lms.stored_end data self'))"
    using assms(2) by (intro lms.legacy_returns)
  then obtain ok self' where r: "log_msg_parse_legacy log_msg_ops env ?p self = Some (ok, self')"
    "store_invar (sf_m self')" "ok \<longrightarrow> lms.stored_end data self'"
    by (auto simp: returns_def lms.good_def)
  moreover have "nv_table_get_value (lm_payload (snd (sf_m self'))) LM_V_MESSAGE = Some (store_val (sf_m self') LM_V_MESSAGE)"
    using r(2) get_value_val by (auto simp: store_invar_def store_val_def)
  ultimately show ?thesis by (auto simp: lms.stored_end_def store_full_def)
qed

text \<open>Parse options and surroundings for examples: RFC 5424 messages, UTC.\<close>

definition sample_env :: sf_env where
  "sample_env = \<lparr>se_flags = LP_SYSLOG_PROTOCOL, se_default_pri = 0xFFFF, se_sdata_param_value_max = 255, se_bad_hostname = None,
     se_recv_zone_offset = -1, se_now = 0, se_localtime = sample_gmtime, se_mktime = (\<lambda>t. (1341397800 + tm_sec t, t)),
     se_local_timezone_ofs = (\<lambda>_. 0), se_utf8_validate = (\<lambda>_. True), se_pid = 1, se_is_synced = 0, se_cisco_seqid = 0\<rparr>"

definition sample_sf_msg :: "(nv_registry \<times> log_message) sf_msg" where
  "sample_sf_msg = \<lparr>sf_m = fresh_store, sf_pri = 0, sf_stamp = \<lparr>ls_tv_sec = -1, ls_tv_usec = 0, ls_zone_offset = -1\<rparr>,
     sf_recvd = \<lparr>ls_tv_sec = 5, ls_tv_usec = 0, ls_zone_offset = 0\<rparr>\<rparr>"

lemma log_msg_parse_legacy_memory_safe_witness:
  "\<exists>ok self'. log_msg_parse_legacy log_msg_ops sample_env (''<13>Oct 11 22:14:15 host prog[1]: text'' @ [NUL, NUL],
     int (length ''<13>Oct 11 22:14:15 host prog[1]: text'')) sample_sf_msg = Some (ok, self') \<and> store_invar (sf_m self')"
proof -
  have "length ''<13>Oct 11 22:14:15 host prog[1]: text'' \<le> NV_TABLE_MAX_BYTES" by (simp add: NV_TABLE_MAX_BYTES_def)
  from log_msg_parse_legacy_memory_safe[OF _ this, of sample_sf_msg sample_env "[]"] show ?thesis
    by (auto simp: sample_sf_msg_def sample_env_def fresh_store_invar)
qed

end
