(* ===== verification/Sdata_Format.thy ===== *)
theory Sdata_Format
  imports Log_Message Str_Format "HOL-Library.Monad_Syntax"
begin

text \<open>
  Printing the structured data of a message (\<^verbatim>\<open>log_msg_append_format_sdata\<close> and its helpers in
  \<^verbatim>\<open>lib/logmsg.c\<close>): the elements are grouped by their identifier, values are escaped, and a sequence number
  is added to the block \<^verbatim>\<open>meta\<close>. \<open>None\<close> is a failed assertion or an access outside an array.
\<close>

definition escape_char :: "char \<Rightarrow> string" where
  "escape_char c = (if c = CHR 0x22 \<or> c = CHR 0x5C \<or> c = CHR '']'' then [CHR 0x5C, c] else [c])"

definition log_msg_sdata_append_escaped :: "string \<Rightarrow> string \<Rightarrow> string" where
  "log_msg_sdata_append_escaped result sstr = result @ concat (map escape_char sstr)"

text \<open>The name behind \<^verbatim>\<open>.SDATA.\<close> is split into the element and the parameter: at the length kept in the upper
  byte of the flags, or at the last dot.\<close>

definition sdata_dot :: "string \<Rightarrow> guint16 \<Rightarrow> nat option option" where
  "sdata_dot name flags =
     (let elem = drop 7 name; sd_id_len = unat (drop_bit 8 flags)
      in if sd_id_len \<noteq> 0
         then (if 7 + sd_id_len \<noteq> length name
               then (if 7 + sd_id_len < length name \<and> elem ! sd_id_len = CHR ''.'' then Some (Some sd_id_len) else None)
               else Some None)
         else Some (last_dot elem))"

definition sdata_elem_param :: "string \<Rightarrow> guint16 \<Rightarrow> (string \<times> string) option" where
  "sdata_elem_param name flags =
     (if flags AND LM_VF_SDATA = 0 \<or> length name \<le> 6 then None
      else case sdata_dot name flags of
             None \<Rightarrow> None
           | Some (Some dot) \<Rightarrow> Some (take dot (drop 7 name), drop (Suc dot) (drop 7 name))
           | Some None \<Rightarrow> Some (if drop 7 name = [] then (''none'', []) else (drop 7 name, [])))"

text \<open>\<^verbatim>\<open>g_snprintf(sequence_id, sizeof(sequence_id), "%d", seq_num)\<close>: the unsigned number is printed as a signed one.\<close>

definition sequence_id_text :: "guint32 \<Rightarrow> string" where
  "sequence_id_text seq_num = (if sint seq_num < 0 then ''-'' else []) @ rev (rdigs 10 (nat \<bar>sint seq_num\<bar>))"

definition sequence_param :: "guint32 \<Rightarrow> string" where
  "sequence_param seq_num = '' sequenceId=\"'' @ sequence_id_text seq_num @ ''\"''"

record sdata_state =
  sd_cur :: "string option"
  sd_has_seq :: bool
  sd_result :: string

text \<open>One round of the loop over the elements.\<close>

definition format_sdata_elem ::
    "(log_message \<Rightarrow> nat \<Rightarrow> string) \<Rightarrow> nv_registry \<Rightarrow> log_message \<Rightarrow> guint32 \<Rightarrow> nv_handle \<Rightarrow> sdata_state \<Rightarrow> sdata_state option" where
  "format_sdata_elem log_macro_expand reg self seq_num handle st = do {
     name \<leftarrow> log_msg_get_value_name reg handle;
     flags \<leftarrow> nv_registry_get_handle_flags reg handle;
     (elem, param) \<leftarrow> sdata_elem_param name flags;
     let new = (sd_cur st \<noteq> Some elem);
     let r1 = (if new then sd_result st @ (if sd_cur st \<noteq> None then '']'' else []) @ ''['' @ elem else sd_result st);
     let add_seq = (\<not> sd_has_seq st \<and> seq_num \<noteq> 0 \<and> take 5 (drop 7 name) = ''meta.'');
     let r2 = (if add_seq then r1 @ sequence_param seq_num else r1);
     r3 \<leftarrow> (if param \<noteq> [] then do {
              value \<leftarrow> log_msg_get_value log_macro_expand reg self handle;
              Some (log_msg_sdata_append_escaped (r2 @ '' '' @ param @ ''=\"'') value @ ''\"'')
            }
            else Some r2);
     Some \<lparr>sd_cur = Some elem, sd_has_seq = sd_has_seq st \<or> add_seq, sd_result = r3\<rparr>
   }"

fun format_sdata_loop ::
    "(log_message \<Rightarrow> nat \<Rightarrow> string) \<Rightarrow> nv_registry \<Rightarrow> log_message \<Rightarrow> guint32 \<Rightarrow> nv_handle list \<Rightarrow> sdata_state \<Rightarrow> sdata_state option" where
  "format_sdata_loop log_macro_expand reg self seq_num [] st = Some st"
| "format_sdata_loop log_macro_expand reg self seq_num (h # hs) st =
     (case format_sdata_elem log_macro_expand reg self seq_num h st of
        None \<Rightarrow> None
      | Some st' \<Rightarrow> format_sdata_loop log_macro_expand reg self seq_num hs st')"

text \<open>The static variable \<^verbatim>\<open>meta_seqid\<close> is registered on the first call.\<close>

definition log_msg_append_format_sdata ::
    "(log_message \<Rightarrow> nat \<Rightarrow> string) \<Rightarrow> nv_registry \<Rightarrow> nv_handle \<Rightarrow> log_message \<Rightarrow> string \<Rightarrow> guint32 \<Rightarrow>
      (nv_registry \<times> nv_handle \<times> string) option" where
  "log_msg_append_format_sdata log_macro_expand reg meta_seqid self result seq_num = do {
     (reg', meta) \<leftarrow> (if meta_seqid = 0 then log_msg_get_value_handle reg ''.SDATA.meta.sequenceId'' else Some (reg, meta_seqid));
     seqid \<leftarrow> log_msg_get_value log_macro_expand reg' self meta;
     st \<leftarrow> format_sdata_loop log_macro_expand reg' self seq_num (lm_sdata self)
            \<lparr>sd_cur = None, sd_has_seq = (takeWhile (\<lambda>c. c \<noteq> NUL) seqid \<noteq> []), sd_result = result\<rparr>;
     let r1 = (if sd_cur st \<noteq> None then sd_result st @ '']'' else sd_result st);
     Some (reg', meta, if \<not> sd_has_seq st \<and> seq_num \<noteq> 0 then r1 @ ''[meta'' @ sequence_param seq_num @ '']'' else r1)
   }"

definition log_msg_format_sdata ::
    "(log_message \<Rightarrow> nat \<Rightarrow> string) \<Rightarrow> nv_registry \<Rightarrow> nv_handle \<Rightarrow> log_message \<Rightarrow> string \<Rightarrow> guint32 \<Rightarrow>
      (nv_registry \<times> nv_handle \<times> string) option" where
  "log_msg_format_sdata log_macro_expand reg meta_seqid self result seq_num =
     log_msg_append_format_sdata log_macro_expand reg meta_seqid self [] seq_num"

subsection \<open>Structured data as text\<close>

text \<open>The text of structured data: elements with their identifiers and parameters (RFC 5424).\<close>

definition param_text :: "string \<times> string \<Rightarrow> string" where
  "param_text p = '' '' @ fst p @ ''=\"'' @ concat (map escape_char (snd p)) @ ''\"''"

definition params_text :: "(string \<times> string) list \<Rightarrow> string" where
  "params_text ps = concat (map param_text ps)"

definition element_text :: "string \<times> (string \<times> string) list \<Rightarrow> string" where
  "element_text e = ''['' @ fst e @ params_text (snd e) @ '']''"

definition sd_text :: "(string \<times> (string \<times> string) list) list \<Rightarrow> string" where
  "sd_text els = (if els = [] then ''-'' else concat (map element_text els))"

end
