(* ===== verification/Syslog_Proto.thy ===== *)
theory Syslog_Proto
  imports Syslog_Format_Props Sdata_Format
begin

text \<open>
  The parser of RFC 5424 messages is the inverse of printing them: a message printed field by field, with
  escaped structured data and a formatted timestamp, is parsed into the same fields.
\<close>

subsection \<open>The header\<close>

lemma foldl_int_dec: "foldl (\<lambda>v c. v * 10 + int (digit_value c)) (int a) ds = int (dec_value a ds)"
proof (induction ds arbitrary: a)
  case (Cons c ds)
  show ?case using Cons[of "a * 10 + digit_value c"] by simp
qed simp

lemma while_stop:
  assumes "\<And>c. c \<in> set w \<Longrightarrow> P c" "\<not> P s"
  shows "takeWhile P (w @ s # u) = w" "dropWhile P (w @ s # u) = s # u"
  using assms by (induction w) simp_all

lemma digits_then:
  assumes "\<forall>c \<in> set ds. isdigit c" "\<not> isdigit s"
  shows "takeWhile isdigit (ds @ s # u) = ds" "dropWhile isdigit (ds @ s # u) = s # u"
  using assms while_stop[of ds isdigit s u] by simp_all

lemma parse_pri_text:
  assumes "\<forall>c \<in> set ds. isdigit c"
  shows "log_msg_parse_pri self (here B (''<'' @ ds @ ''>'' @ u)) d = Some (True, self\<lparr>sf_pri := of_nat (dec_value 0 ds)\<rparr>, here B u)"
proof -
  have nd: "\<not> isdigit CHR ''>''" by (simp add: isdigit_def)
  have a: "adv (here B (''<'' @ ds @ ''>'' @ u)) 1 = here B (ds @ CHR ''>'' # u)" by simp
  have "pri_loop 0 (fst (here B (ds @ CHR ''>'' # u))) (snd (here B (ds @ CHR ''>'' # u))) =
      Some (Some (int (dec_value 0 ds), here B (CHR ''>'' # u)))"
    unfolding here_fst here_snd pri_loop_here digits_then[OF assms nd] using foldl_int_dec[of 0 ds] by (simp add: Let_def)
  with a show ?thesis by (simp add: log_msg_parse_pri_def)
qed

lemma parse_version_text: "log_msg_parse_version (here B (''1 '' @ u)) = Some (True, here B ('' '' @ u))"
  using digits_until_here[of "CHR '' ''" 0 0 "''1 '' @ u" B]
  by (simp add: log_msg_parse_version_def isdigit_def digit_value_def Let_def)

lemma skip_space_text: "log_msg_parse_skip_space (here B ('' '' @ u)) = Some (True, here B u)"
  by (simp add: log_msg_parse_skip_space_def)

lemma parse_hostname_text:
  assumes "set w \<inter> set '' :['' = {}" "length w \<le> 255" "se_flags env AND LP_CHECK_HOSTNAME = 0"
  shows "log_msg_parse_hostname env None (here B (w @ '' '' @ u)) = Some (Some w, here B ('' '' @ u))"
proof -
  let ?P = "\<lambda>c. c \<notin> set '' :['' \<and> \<not> (False \<and> is_invalid_char c)"
  have "takeWhile ?P (take 255 (w @ '' '' @ u)) = w"
  proof (cases "255 - length w")
    case 0
    then have "take 255 (w @ '' '' @ u) = w" using assms(2) by simp
    moreover have "\<forall>c \<in> set w. ?P c" using assms(1) by auto
    ultimately show ?thesis by (simp only: takeWhile_eq_all_conv)
  next
    case (Suc n)
    then have "take 255 (w @ '' '' @ u) = w @ CHR '' '' # take n u" by simp
    moreover have "\<forall>c \<in> set w. ?P c" using assms(1) by auto
    ultimately show ?thesis using while_stop(1)[of w ?P "CHR '' ''"] by simp
  qed
  then have "hostname_loop False 0 ((w @ '' '' @ u) @ B) (int (length (w @ '' '' @ u))) = Some (length w, here B ('' '' @ u))"
    unfolding hostname_loop_here Let_def diff_zero by simp
  with assms(3) show ?thesis by (simp add: log_msg_parse_hostname_def)
qed

lemma parse_column_text:
  assumes "CHR '' '' \<notin> set w"
  shows "log_msg_parse_column ops self h (here B (w @ '' '' @ u)) mx =
    (if w = ''-'' then Some (self, here B ('' '' @ u)) else map_option (\<lambda>s. (s, here B ('' '' @ u))) (set_val ops self h (take mx w)))"
proof -
  have w: "takeWhile (\<lambda>c. c \<noteq> CHR '' '') (w @ '' '' @ u) = w" by (simp, rule while_stop(1)) (use assms in auto)
  have one: "(length w > 1 \<or> (w @ '' '' @ u) ! 0 \<noteq> CHR ''-'') \<longleftrightarrow> w \<noteq> ''-''"
    by (cases w; cases "tl w") auto
  have pk: "peek (here B (w @ '' '' @ u)) 0 = Some ((w @ '' '' @ u) ! 0)" by (cases w) simp_all
  have tk: "take (min (length w) mx) (fst (here B (w @ '' '' @ u))) = take mx w" by (simp add: min_def)
  have dr: "adv (here B (w @ '' '' @ u)) (length w) = here B ('' '' @ u)" by simp
  show ?thesis
    unfolding log_msg_parse_column_def find_space_here w Let_def using one
    by (simp add: pk tk[simplified] dr[simplified]) (cases "set_val ops self h (take mx w)"; simp)
qed

subsection \<open>The timestamp\<close>

lemma dec_field_chars:
  "v < 100 \<Longrightarrow> \<exists>a b. dec_field 2 pad v = [a, b]"
  "1000 \<le> v \<Longrightarrow> v < 10000 \<Longrightarrow> \<exists>a b c d. dec_field 4 pad v = [a, b, c, d]"
proof -
  have "length (rdigs 10 v) \<le> 2" if "v < 100"
    using that by (subst rdigs.simps, subst rdigs.simps) (simp add: less_mult_imp_div_less)
  then show "\<exists>a b. dec_field 2 pad v = [a, b]" if "v < 100"
    using length_dec_field[of 2 pad v] that by (auto simp: length_Suc_conv numeral_2_eq_2 max_def split: if_splits)
  show "\<exists>a b c d. dec_field 4 pad v = [a, b, c, d]" if "1000 \<le> v" "v < 10000"
    using length_dec_field[of 4 pad v] length_rdigs_year[OF that] by (auto simp: length_Suc_conv numeral_eq_Suc)
qed

lemma looks_iso_text:
  assumes "tm_ok t"
  shows "looks_iso (here B (iso_date_text t @ u)) = Some True"
proof -
  note r = tm_ok_ranges[OF assms]
  have "nat (tm_hour t) < 100" "nat (tm_min t) < 100" "nat (tm_sec t) < 100" "nat (tm_mon t + 1) < 100" "nat (tm_mday t) < 100"
    using assms by (auto simp: tm_ok_def)
  then obtain y1 y2 y3 y4 m1 m2 d1 d2 h1 h2 i1 i2 s1 s2 where
    "dec_field 4 CHR ''0'' (nat (tm_year t + 1900)) = [y1, y2, y3, y4]" "dec_field 2 CHR ''0'' (nat (tm_mon t + 1)) = [m1, m2]"
    "dec_field 2 CHR ''0'' (nat (tm_mday t)) = [d1, d2]" "dec_field 2 CHR ''0'' (nat (tm_hour t)) = [h1, h2]"
    "dec_field 2 CHR ''0'' (nat (tm_min t)) = [i1, i2]" "dec_field 2 CHR ''0'' (nat (tm_sec t)) = [s1, s2]"
    using dec_field_chars(2)[OF r(3,4)] dec_field_chars(1) by metis
  then have t: "iso_date_text t = [y1, y2, y3, y4, CHR ''-'', m1, m2, CHR ''-'', d1, d2, CHR ''T'', h1, h2, CHR '':'', i1, i2, CHR '':'', s1, s2]"
    by (simp add: iso_date_text_def hms_text_def)
  show ?thesis unfolding t looks_iso_def by (subst peek_all_returns) simp_all
qed

lemma fraction_of_text:
  assumes "\<forall>c \<in> set frac. isdigit c" "length frac \<le> 6" "\<not> isdigit s"
  shows "fraction_of (''.'' @ frac @ s # u) = (dec_value 0 frac * 10 ^ (6 - length frac), s # u)"
proof -
  have w: "takeWhile isdigit (take 6 (frac @ s # u)) = frac"
  proof (cases "6 - length frac")
    case 0
    then have "take 6 (frac @ s # u) = frac" using assms(2) by simp
    then show ?thesis using assms(1) by (simp only: takeWhile_eq_all_conv)
  next
    case (Suc n)
    then have "take 6 (frac @ s # u) = frac @ s # take n u" by simp
    then show ?thesis using digits_then(1)[OF assms(1,3)] by simp
  qed
  have "(1000000 :: nat) div 10 ^ length frac = 10 ^ (6 - length frac)"
    using power_diff[of "10 :: nat" "length frac" 6] assms(2) by simp
  with w assms(3) show ?thesis by (simp add: fraction_of_def Let_def)
qed

text \<open>The microseconds that remain when \<open>n\<close> digits of the fraction are printed.\<close>

definition kept_usec :: "nat \<Rightarrow> nat \<Rightarrow> nat" where
  "kept_usec n usec = usec div 10 ^ (6 - n) * 10 ^ (6 - n)"

lemma iso_zone_text:
  assumes "\<bar>ofs\<bar> \<le> 24 * 60 * 60" "60 dvd ofs"
  shows "iso_zone (here (NUL # NUL # bs) (fst (format_zone_info 8 ofs) @ '' '' @ u)) = Some (Some ofs, here (NUL # NUL # bs) ('' '' @ u))"
proof -
  obtain sg a b c d where z: "fst (format_zone_info 8 ofs) = [sg, a, b, CHR '':'', c, d]" "sg = CHR ''+'' \<or> sg = CHR ''-''"
    "isdigit a" "isdigit b" "isdigit c" "isdigit d"
    and m: "let h = int (digit_value a) * 10 + int (digit_value b); m = int (digit_value c) * 10 + int (digit_value d)
     in ((h < 24 \<and> m \<le> 60) \<or> (h = 24 \<and> m = 0)) \<and> (if sg = CHR ''-'' then - 1 else 1) * (h * 3600 + m * 60) = ofs"
    using zone_text[OF assms] by blast
  have "zone_digits (fst (format_zone_info 8 ofs) @ '' '' @ u)" using z by (auto simp: zone_digits_def isdigit_def)
  then show ?thesis
    using z m unfolding iso_zone_def zone_test_here by (auto simp: Let_def)
qed

lemma parse_date_iso_text:
  assumes t: "tm_ok t" and frac: "frac = [] \<or> (\<exists>ds. frac = ''.'' @ ds \<and> (\<forall>c \<in> set ds. isdigit c) \<and> length ds \<le> 6)"
    and ofs: "\<bar>ofs\<bar> \<le> 24 * 60 * 60" "60 dvd ofs"
  shows "parse_date_iso (here (NUL # NUL # bs) (iso_date_text t @ frac @ fst (format_zone_info 8 ofs) @ '' '' @ u)) =
    Some (Some (t, (if frac = [] then 0 else dec_value 0 (tl frac) * 10 ^ (6 - length (tl frac))), Some ofs, here (NUL # NUL # bs) ('' '' @ u)))"
proof -
  let ?rest = "frac @ fst (format_zone_info 8 ofs) @ '' '' @ u"
  have scan: "run_scan scan_iso_timestamp (here (NUL # NUL # bs) (iso_date_text t @ ?rest)) = Some (Some t, here (NUL # NUL # bs) ?rest)"
    using run_scan_here[of scan_iso_timestamp "NUL # NUL # bs" "iso_date_text t @ ?rest"] stays_timestamps(1) scan_date_texts(1)[OF t, of ?rest] by auto
  obtain sg z where sg: "fst (format_zone_info 8 ofs) = sg # z" "\<not> isdigit sg" "sg \<noteq> CHR ''.''"
    using zone_text[OF ofs] by (auto simp: isdigit_def)
  have "fraction_of ?rest = (if frac = [] then 0 else dec_value 0 (tl frac) * 10 ^ (6 - length (tl frac)), fst (format_zone_info 8 ofs) @ '' '' @ u)"
    using frac
  proof (elim disjE exE conjE)
    assume "frac = []"
    then show ?thesis using sg by (simp add: fraction_of_def)
  next
    fix ds assume "frac = ''.'' @ ds" "\<forall>c \<in> set ds. isdigit c" "length ds \<le> 6"
    with fraction_of_text[of ds sg "z @ '' '' @ u"] sg show ?thesis by simp
  qed
  then have "iso_fraction (here (NUL # NUL # bs) ?rest) =
      Some (if frac = [] then 0 else dec_value 0 (tl frac) * 10 ^ (6 - length (tl frac)), here (NUL # NUL # bs) (fst (format_zone_info 8 ofs) @ '' '' @ u))"
    using fraction_here(1)[of "NUL # bs" ?rest] by simp
  with scan iso_zone_text[OF ofs, of bs u] show ?thesis unfolding parse_date_iso_def by simp
qed

text \<open>The timestamp of a message that \<^verbatim>\<open>log_stamp_format\<close> printed with the offset \<open>ofs\<close> and \<open>n\<close> digits of a second.\<close>

definition kept_stamp :: "log_stamp \<Rightarrow> int \<Rightarrow> nat \<Rightarrow> log_stamp" where
  "kept_stamp stamp ofs n = \<lparr>ls_tv_sec = ls_tv_sec stamp, ls_tv_usec = kept_usec n (ls_tv_usec stamp), ls_zone_offset = ofs\<rparr>"

text \<open>What \<^verbatim>\<open>mktime\<close> and the local offset promise for the broken-down time of \<open>w\<close>, away from the barriers of zones: the
  seconds that \<^verbatim>\<open>mktime\<close> finds, read as local time, are \<open>w\<close>, and the hour is not normalised.\<close>

definition mktime_ok :: "sf_env \<Rightarrow> (int \<Rightarrow> tm) \<Rightarrow> int \<Rightarrow> bool" where
  "mktime_ok env gmtime w \<longleftrightarrow> (case se_mktime env (gmtime w) of (s, t) \<Rightarrow>
     s + se_local_timezone_ofs env s = w \<and> tm_hour t = tm_hour (gmtime w))"

lemma frac_text_0: "frac_text stamp 0 = []"
  by (simp add: frac_text_def log_stamp_append_frac_digits_def)

lemma parse_date_text:
  assumes t: "tm_ok (gmtime (ls_tv_sec stamp + ofs))" "mktime_ok env gmtime (ls_tv_sec stamp + ofs)"
    and ofs: "\<bar>ofs\<bar> \<le> 24 * 60 * 60" "60 dvd ofs" and n: "n \<le> 6" "ls_tv_usec stamp < 1000000" and fl: "fl AND LP_SYSLOG_PROTOCOL \<noteq> 0"
  shows "log_msg_parse_date ops env self (here (NUL # NUL # bs) (iso_date_text (gmtime (ls_tv_sec stamp + ofs)) @ frac_text stamp (int n) @
      fst (format_zone_info 8 ofs) @ '' '' @ u)) fl tz =
    Some (True, self\<lparr>sf_stamp := kept_stamp stamp ofs n\<rparr>, here (NUL # NUL # bs) ('' '' @ u))"
proof -
  let ?t = "gmtime (ls_tv_sec stamp + ofs)" and ?f = "frac_text stamp (int n)"
  have usec: "(?f = [] \<or> (\<exists>ds. ?f = ''.'' @ ds \<and> (\<forall>c \<in> set ds. isdigit c) \<and> length ds \<le> 6)) \<and>
      (if ?f = [] then 0 else dec_value 0 (tl ?f) * 10 ^ (6 - length (tl ?f))) = kept_usec n (ls_tv_usec stamp)"
  proof (cases "n = 0")
    case False
    then show ?thesis using frac_text_digits[of n stamp] n by (auto simp: kept_usec_def)
  qed (use n in \<open>simp add: frac_text_0 kept_usec_def\<close>)
  have "ofs \<noteq> -1" using ofs(2) by auto
  then have "finish_date env tz self ?t (kept_usec n (ls_tv_usec stamp)) (Some ofs) = self\<lparr>sf_stamp := kept_stamp stamp ofs n\<rparr>"
    using t(2) by (simp add: finish_date_def mktime_ok_def kept_stamp_def Let_def split: prod.splits)
  with parse_date_iso_text[OF t(1) conjunct1[OF usec] ofs, of bs u] looks_iso_text[OF t(1)] fl conjunct2[OF usec] show ?thesis
    unfolding log_msg_parse_date_def by simp
qed

subsection \<open>Structured data\<close>

lemma sd_name_loop_text:
  assumes "\<forall>c \<in> set w. sd_name_char c \<and> c \<notin> set stops" "length acc + length w \<le> 32" "s \<in> set stops"
  shows "sd_name_loop stops acc ((w @ s # u) @ B) (int (length (w @ s # u))) = Some (Some (acc @ w, here B (s # u)))"
  using assms by (induction w arbitrary: acc) (simp_all add: here_def)

abbreviation escaped :: "string \<Rightarrow> string" where
  "escaped v \<equiv> concat (map escape_char v)"

lemma sd_value_loop_text:
  assumes "length acc + length v \<le> vmax"
  shows "sd_value_loop vmax False acc ((escaped v @ CHR 0x22 # u) @ B) (int (length (escaped v @ CHR 0x22 # u))) =
    Some (Some (acc @ v, here B (CHR 0x22 # u)))"
  using assms
proof (induction v arbitrary: acc)
  case (Cons c v)
  then show ?case by (auto simp: escape_char_def Let_def)
qed (simp add: here_def)

text \<open>Well-formed parameters and elements: names as the RFC wants them, short enough together for the buffer of the
  parser, and values within the configured limit.\<close>

definition sd_word :: "string \<Rightarrow> bool" where
  "sd_word w \<longleftrightarrow> w \<noteq> [] \<and> length w \<le> 32 \<and> (\<forall>c \<in> set w. sd_name_char c)"

definition param_ok :: "nat \<Rightarrow> string \<Rightarrow> string \<times> string \<Rightarrow> bool" where
  "param_ok vmax sd_id p \<longleftrightarrow> sd_word (fst p) \<and> length sd_id + length (fst p) < 58 \<and> length (snd p) \<le> vmax"

definition element_ok :: "nat \<Rightarrow> string \<times> (string \<times> string) list \<Rightarrow> bool" where
  "element_ok vmax e \<longleftrightarrow> sd_word (fst e) \<and> (\<forall>p \<in> set (snd e). param_ok vmax (fst e) p)"

text \<open>The names and values that an element stores, in this order.\<close>

definition param_name :: "string \<Rightarrow> string \<Rightarrow> string" where
  "param_name sd_id p = logmsg_sd_prefix @ sd_id @ ''.'' @ p"

definition element_values :: "string \<times> (string \<times> string) list \<Rightarrow> (string \<times> string) list" where
  "element_values e = (if snd e = [] then [(logmsg_sd_prefix @ fst e, [])] else map (\<lambda>p. (param_name (fst e) (fst p), snd p)) (snd e))"

definition sd_values :: "(string \<times> (string \<times> string) list) list \<Rightarrow> (string \<times> string) list" where
  "sd_values els = concat (map element_values els)"

lemma sd_char_not: "sd_name_char c \<Longrightarrow> c \<noteq> CHR ''='' \<and> c \<noteq> CHR '' '' \<and> c \<noteq> CHR '']'' \<and> c \<noteq> CHR 0x22"
  by (auto simp: sd_name_char_def)

lemma bind_Some_map: "x \<bind> (\<lambda>a. Some (f a)) = map_option f x"
  by (cases x) simp_all

lemma sd_param_text:
  assumes "param_ok (se_sdata_param_value_max env) sd_id p"
  shows "sd_param ops env self sd_id (here B (param_text p @ u)) =
    map_option (\<lambda>s. Inr (s, here B u)) (sd_store ops self (param_name sd_id (fst p)) (snd p))"
proof -
  obtain n v where p: "p = (n, v)" by (cases p)
  have w: "sd_word n" "length sd_id + length n < 58" "length v \<le> se_sdata_param_value_max env" using assms by (simp_all add: param_ok_def p)
  let ?q = "CHR 0x22 # escaped v @ CHR 0x22 # u"
  have tx: "param_text p @ u = CHR '' '' # n @ CHR ''='' # ?q" by (simp add: param_text_def p)
  obtain c n' where n: "n = c # n'" "sd_name_char c" using w(1) by (cases n) (auto simp: sd_word_def)
  have name: "sd_name_loop ''='' [] (fst (here B (n @ CHR ''='' # ?q))) (snd (here B (n @ CHR ''='' # ?q))) =
      Some (Some (n, here B (CHR ''='' # ?q)))"
    unfolding here_fst here_snd by (subst sd_name_loop_text) (use w(1) in \<open>auto simp: sd_word_def dest: sd_char_not\<close>)
  have val: "sd_value_loop (se_sdata_param_value_max env) False [] (fst (here B (escaped v @ CHR 0x22 # u))) (snd (here B (escaped v @ CHR 0x22 # u))) =
      Some (Some (v, here B (CHR 0x22 # u)))"
    unfolding here_fst here_snd by (subst sd_value_loop_text) (use w(3) in simp_all)
  have full: "sd_full_name sd_id n = Some (param_name sd_id n)"
    using w(2) by (simp add: sd_full_name_def param_name_def logmsg_sd_prefix_def)
  have adv: "adv (here B (x # r)) 1 = here B r" "adv (here B (x # y # r)) 2 = here B r" for x y r by simp_all
  have head: "peek (here B (n @ CHR ''='' # ?q)) 0 = Some c" by (simp add: n)
  have hit: "at_char x (here B (x # r)) = Some True" for x r by (simp add: at_char_def)
  show ?thesis
    unfolding tx sd_param_def adv hit bind.bind_lunit
    by (simp add: head n(2) name full hit adv val p bind_Some_map del: here_fst here_snd One_nat_def)
qed

text \<open>Storing names and values one after the other.\<close>

primrec store_all :: "'m msg_ops \<Rightarrow> 'm sf_msg \<Rightarrow> (string \<times> string) list \<Rightarrow> 'm sf_msg option" where
  "store_all ops self [] = Some self"
| "store_all ops self (nv # nvs) = (sd_store ops self (fst nv) (snd nv) \<bind> (\<lambda>self'. store_all ops self' nvs))"

lemma store_all_append: "store_all ops self (xs @ ys) = (store_all ops self xs \<bind> (\<lambda>self'. store_all ops self' ys))"
  by (induction xs arbitrary: self) simp_all

lemma peek_bracket: "(if snd (here B (c # u)) \<noteq> 0 then map_option f (peek (here B (c # u)) 0) else Some False) = Some (f c)"
  by simp

lemma sd_params_text:
  assumes "\<forall>p \<in> set ps. param_ok (se_sdata_param_value_max env) sd_id p" "length ps < fuel"
  shows "sd_params fuel ops env self sd_id (here B (params_text ps @ CHR '']'' # u)) =
    map_option (\<lambda>s. Inr (s, here B (CHR '']'' # u))) (store_all ops self (map (\<lambda>p. (param_name sd_id (fst p), snd p)) ps))"
  using assms
proof (induction ps arbitrary: fuel self)
  case Nil
  then obtain f where "fuel = Suc f" by (cases fuel) auto
  then show ?case by (simp add: params_text_def)
next
  case (Cons p ps)
  then obtain f where f: "fuel = Suc f" "length ps < f" by (cases fuel) auto
  have tx: "params_text (p # ps) @ CHR '']'' # u = param_text p @ params_text ps @ CHR '']'' # u" by (simp add: params_text_def)
  obtain r where r: "param_text p @ params_text ps @ CHR '']'' # u = CHR '' '' # r" by (simp add: param_text_def)
  have more: "(if snd (here B (param_text p @ params_text ps @ CHR '']'' # u)) \<noteq> 0
      then map_option (\<lambda>c. c \<noteq> CHR '']'') (peek (here B (param_text p @ params_text ps @ CHR '']'' # u)) 0) else Some False) = Some True"
    unfolding r by simp
  show ?case
    unfolding f(1) tx sd_params.simps(2) more
    using Cons.prems Cons.IH[OF _ f(2)] sd_param_text[of env sd_id p ops self B "params_text ps @ CHR '']'' # u"]
    by (cases "sd_store ops self (param_name sd_id (fst p)) (snd p)") simp_all
qed

lemma length_params: "length ps \<le> length (params_text ps)"
  by (induction ps) (simp_all add: params_text_def param_text_def)

lemma sd_element_text:
  assumes "element_ok (se_sdata_param_value_max env) (sd_id, ps)"
  shows "sd_element ops env self (here B (sd_id @ params_text ps @ CHR '']'' # u)) =
    map_option (\<lambda>s. Inr (s, here B u)) (store_all ops self (element_values (sd_id, ps)))"
proof -
  have w: "sd_word sd_id" and ps: "\<forall>p \<in> set ps. param_ok (se_sdata_param_value_max env) sd_id p" using assms by (simp_all add: element_ok_def)
  obtain c w' where c: "sd_id = c # w'" "sd_name_char c" using w by (cases sd_id) (auto simp: sd_word_def)
  obtain d r where d: "params_text ps @ CHR '']'' # u = d # r" "d = (if ps = [] then CHR '']'' else CHR '' '')"
    by (cases ps) (simp_all add: params_text_def param_text_def)
  have name: "sd_name_loop '' ]'' [] (fst (here B (sd_id @ d # r))) (snd (here B (sd_id @ d # r))) = Some (Some (sd_id, here B (d # r)))"
    unfolding here_fst here_snd by (subst sd_name_loop_text) (use w d(2) in \<open>auto simp: sd_word_def dest: sd_char_not\<close>)
  have head: "peek (here B (sd_id @ d # r)) 0 = Some c" "peek (here B (d # r)) 0 = Some d" by (simp_all add: c)
  have fuel: "length ps < Suc (length (fst (here B (d # r))))" using length_params[of ps] arg_cong[OF d(1), of length] by simp
  note params = sd_params_text[OF ps fuel, of ops _ B u, unfolded d(1)]
  have close: "at_char CHR '']'' (here B (CHR '']'' # u)) = Some True" "adv (here B (CHR '']'' # u)) 1 = here B u" by (simp_all add: at_char_def)
  have d': "d = CHR '']'' \<longleftrightarrow> ps = []" and ne: "sd_id \<noteq> []" using d(2) c(1) by auto
  show ?thesis
    unfolding d(1) sd_element_def
    by (cases "ps = []"; cases "store_all ops self (element_values (sd_id, ps))")
      (simp_all add: head name params close element_values_def d' ne c(2) del: here_fst here_snd One_nat_def sd_params.simps)
qed

lemma sd_elements_text:
  assumes "\<forall>e \<in> set els. element_ok (se_sdata_param_value_max env) e" "els \<noteq> []" "length els \<le> fuel" "u = [] \<or> hd u \<noteq> CHR ''[''"
  shows "sd_elements fuel ops env self (here B (tl (concat (map element_text els)) @ u)) =
    map_option (\<lambda>s. (True, s, here B u)) (store_all ops self (sd_values els))"
  using assms(1-3)
proof (induction els arbitrary: fuel self)
  case (Cons e els)
  obtain sd_id ps where e: "e = (sd_id, ps)" by (cases e)
  obtain f where f: "fuel = Suc f" "length els \<le> f" using Cons.prems(3) by (cases fuel) auto
  let ?r = "concat (map element_text els) @ u"
  have tx: "tl (concat (map element_text (e # els))) @ u = sd_id @ params_text ps @ CHR '']'' # ?r"
    by (simp add: element_text_def e)
  have el: "element_ok (se_sdata_param_value_max env) (sd_id, ps)" using Cons.prems(1) e by simp
  note step = sd_element_text[OF el, of ops self B ?r]
  have vals: "store_all ops self (sd_values (e # els)) =
      (store_all ops self (element_values (sd_id, ps)) \<bind> (\<lambda>s. store_all ops s (sd_values els)))"
    by (simp add: sd_values_def store_all_append e)
  show ?case
  proof (cases els)
    case Nil
    have "at_char CHR ''['' (here B u) = Some False" using assms(4) by (cases u) (simp_all add: at_char_def)
    then show ?thesis
      unfolding tx f(1) sd_elements.simps(2) step vals using Nil
      by (cases "store_all ops self (element_values (sd_id, ps))") (simp_all add: sd_values_def)
  next
    case (Cons e' els')
    obtain r where r: "?r = CHR ''['' # r" "r = tl (concat (map element_text els)) @ u" "r \<noteq> []"
      by (simp add: Cons element_text_def)
    have again: "at_char CHR ''['' (here B ?r) = Some True" "adv (here B ?r) 1 = here B r" "snd (here B r) \<noteq> 0"
      unfolding r(1) using r(3) by (simp_all add: at_char_def)
    have IH: "sd_elements f ops env s (here B r) = map_option (\<lambda>s. (True, s, here B u)) (store_all ops s (sd_values els))" for s
      using Cons.IH[of f s] Cons.prems(1) f(2) Cons r(2) by simp
    show ?thesis
      unfolding tx f(1) sd_elements.simps(2) step vals
      by (cases "store_all ops self (element_values (sd_id, ps))") (simp_all add: again IH del: here_fst here_snd One_nat_def)
  qed
qed simp

lemma length_elements: "length els \<le> length (concat (map element_text els))"
  by (induction els) (simp_all add: element_text_def)

lemma parse_sd_text:
  assumes "\<forall>e \<in> set els. element_ok (se_sdata_param_value_max env) e" "u = [] \<or> hd u \<noteq> CHR ''[''"
  shows "log_msg_parse_sd ops env self (here B (sd_text els @ u)) =
    map_option (\<lambda>s. (True, s, here B u)) (store_all ops self (sd_values els))"
proof (cases "els = []")
  case True
  then show ?thesis by (simp add: log_msg_parse_sd_def sd_text_def at_char_def sd_values_def)
next
  case False
  let ?c = "concat (map element_text els)"
  obtain r where r: "?c = CHR ''['' # r" using False by (cases els) (simp_all add: element_text_def)
  have "sd_elements (Suc (length (fst (here B (sd_text els @ u))))) ops env self (here B (tl ?c @ u)) =
      map_option (\<lambda>s. (True, s, here B u)) (store_all ops self (sd_values els))"
    using length_elements[of els] False by (intro sd_elements_text[OF assms(1) False _ assms(2)]) (simp add: sd_text_def)
  moreover have "here B (sd_text els @ u) = here B (CHR ''['' # tl ?c @ u)" using False r by (simp add: sd_text_def)
  moreover have "adv (here B (CHR ''['' # tl ?c @ u)) 1 = here B (tl ?c @ u)" by simp
  moreover have "at_char CHR ''-'' (here B (CHR ''['' # tl ?c @ u)) = Some False" "at_char CHR ''['' (here B (CHR ''['' # tl ?c @ u)) = Some True"
    by (simp_all add: at_char_def)
  ultimately show ?thesis unfolding log_msg_parse_sd_def by (simp del: here_fst here_snd One_nat_def)
qed

subsection \<open>Filling in the message\<close>

context msg_store
begin

text \<open>What is known of a store: the values \<open>fs\<close> of built-in handles and the values \<open>sds\<close> of structured data names. A
  structured data name without a handle (the registry is full) has lost its value, and a store that is full
  may have lost any.\<close>

definition tracks :: "(nv_handle \<rightharpoonup> string) \<Rightarrow> (string \<rightharpoonup> string) \<Rightarrow> 'm \<Rightarrow> bool" where
  "tracks fs sds m \<longleftrightarrow> invar m \<and> dom fs \<subseteq> {h. 0 < h \<and> h < LM_V_MAX} \<and> dom sds \<subseteq> Collect sd_name \<and>
     (full m \<or> (\<forall>h v. fs h = Some v \<longrightarrow> val m h = v) \<and>
       (\<forall>n v. sds n = Some v \<longrightarrow> handle_of m n = 0 \<or> val m (handle_of m n) = v))"

lemma sd_handle_not_builtin:
  assumes "invar m" "sd_name n" "handle_of m n \<noteq> 0" "0 < h" "h < LM_V_MAX"
  shows "handle_of m n \<noteq> h"
  using assms sd_name_of[of m n] builtin[of m h] by auto

lemma sd_handle_inj:
  "invar m \<Longrightarrow> sd_name n \<Longrightarrow> sd_name n' \<Longrightarrow> handle_of m n \<noteq> 0 \<Longrightarrow> handle_of m n = handle_of m n' \<Longrightarrow> n = n'"
  using sd_name_of by metis

lemma set_val_tracks:
  assumes "tracks fs sds (sf_m self)" "0 < h" "h < LM_V_MAX" "length v \<le> NV_TABLE_MAX_BYTES"
  shows "\<exists>m. set_val ops self h v = Some (self\<lparr>sf_m := m\<rparr>) \<and> tracks (fs(h \<mapsto> v)) sds m"
proof -
  have inv: "invar (sf_m self)" using assms(1) by (simp add: tracks_def)
  obtain m where m: "op_set_value ops (sf_m self) h v = Some m" "invar m" "handle_of m = handle_of (sf_m self)"
    "full (sf_m self) \<longrightarrow> full m" "full m \<or> val m = (val (sf_m self))(h := v)"
    using set_value[OF inv assms(2) _ assms(4)] builtin[OF inv assms(2,3)] by blast
  have "handle_of m n \<noteq> h" if "sds n = Some w" "handle_of m n \<noteq> 0" for n w
    using sd_handle_not_builtin[OF m(2) _ that(2) assms(2,3)] assms(1) that(1) by (auto simp: tracks_def)
  then have "tracks (fs(h \<mapsto> v)) sds m"
    using assms(1-3) m(2-5) unfolding tracks_def by (auto split: if_splits; metis neq0_conv)
  with m(1) show ?thesis by (auto simp: set_val_def)
qed

lemma sd_store_tracks:
  assumes "tracks fs sds (sf_m self)" "sd_name n" "length v \<le> NV_TABLE_MAX_BYTES"
  shows "\<exists>m. sd_store ops self n v = Some (self\<lparr>sf_m := m\<rparr>) \<and> tracks fs (sds(n \<mapsto> v)) m"
proof -
  have inv: "invar (sf_m self)" using assms(1) by (simp add: tracks_def)
  obtain m1 h where g: "op_get_handle ops (sf_m self) n = Some (m1, h)" "invar m1" "h \<le> known m1" "handle_of m1 n = h"
    "\<forall>k. k \<noteq> n \<or> handle_of (sf_m self) k \<noteq> 0 \<longrightarrow> handle_of m1 k = handle_of (sf_m self) k" "val m1 = val (sf_m self)" "full m1 = full (sf_m self)"
    using get_handle[OF inv assms(2)] by blast
  have keep: "full m1 \<or> (\<forall>h v. fs h = Some v \<longrightarrow> val m1 h = v) \<and>
      (\<forall>k w. k \<noteq> n \<and> sds k = Some w \<longrightarrow> handle_of m1 k = 0 \<or> val m1 (handle_of m1 k) = w)"
    using assms(1) g(5-7) by (auto simp: tracks_def)
  have dom: "dom fs \<subseteq> {h. 0 < h \<and> h < LM_V_MAX}" "dom (sds(n \<mapsto> v)) \<subseteq> Collect sd_name"
    using assms(1,2) by (auto simp: tracks_def)
  show ?thesis
  proof (cases "h = 0")
    case True
    then have "tracks fs (sds(n \<mapsto> v)) m1" unfolding tracks_def using g(2,4) keep dom by auto
    with True g(1) set_value_0[OF g(2)] show ?thesis by (auto simp: sd_store_def set_val_def)
  next
    case False
    then obtain m where m: "op_set_value ops m1 h v = Some m" "invar m" "handle_of m = handle_of m1"
      "full m1 \<longrightarrow> full m" "full m \<or> val m = (val m1)(h := v)"
      using set_value[OF g(2) _ g(3) assms(3)] by auto
    have nb: "h \<noteq> k" if "fs k = Some w" for k w
      using sd_handle_not_builtin[OF g(2) assms(2)] False g(4) dom(1) that by auto
    have ns: "handle_of m1 k \<noteq> h" if "k \<noteq> n" "sds k = Some w" "handle_of m1 k \<noteq> 0" for k w
      using sd_handle_inj[OF g(2) assms(2), of k] False g(4) dom(2) that by auto
    have "tracks fs (sds(n \<mapsto> v)) m"
      unfolding tracks_def using m keep dom nb ns g(4) by (auto split: if_splits; metis neq0_conv)
    with m(1) g(1) show ?thesis by (auto simp: sd_store_def set_val_def)
  qed
qed

lemma store_all_tracks:
  assumes "tracks fs sds (sf_m self)" "\<forall>nv \<in> set nvs. sd_name (fst nv) \<and> length (snd nv) \<le> NV_TABLE_MAX_BYTES"
  shows "\<exists>m. store_all ops self nvs = Some (self\<lparr>sf_m := m\<rparr>) \<and> tracks fs (sds ++ map_of (rev nvs)) m"
  using assms
proof (induction nvs arbitrary: self sds)
  case Nil
  then show ?case by (auto intro: exI[of _ "sf_m self"])
next
  case (Cons nv nvs)
  then obtain m where m: "sd_store ops self (fst nv) (snd nv) = Some (self\<lparr>sf_m := m\<rparr>)" "tracks fs (sds(fst nv \<mapsto> snd nv)) m"
    using sd_store_tracks[of fs sds self "fst nv" "snd nv"] by auto
  obtain m' where "store_all ops (self\<lparr>sf_m := m\<rparr>) nvs = Some (self\<lparr>sf_m := m'\<rparr>)"
    "tracks fs (sds(fst nv \<mapsto> snd nv) ++ map_of (rev nvs)) m'"
    using Cons.IH[of "sds(fst nv \<mapsto> snd nv)" "self\<lparr>sf_m := m\<rparr>"] Cons.prems(2) m(2) by (auto simp del: fun_upd_apply)
  moreover have "sds ++ map_of (rev (nv # nvs)) = sds(fst nv \<mapsto> snd nv) ++ map_of (rev nvs)" by simp
  ultimately show ?case using m(1) by (auto simp del: rev.simps)
qed

lemma or_flags_tracks: "tracks fs sds (sf_m self) \<Longrightarrow> tracks fs sds (sf_m (or_flags ops self f))"
  using op_or_flags[of "sf_m self" _ f] by (simp add: tracks_def or_flags_def)

lemma column_tracks:
  assumes "tracks fs sds (sf_m self)" "0 < h" "h < LM_V_MAX" "CHR '' '' \<notin> set w" "length w \<le> NV_TABLE_MAX_BYTES"
  shows "\<exists>m. column_and_space ops self h mx (here B (w @ '' '' @ u)) = Some (True, self\<lparr>sf_m := m\<rparr>, here B u) \<and>
    tracks (if w = ''-'' then fs else fs(h \<mapsto> take mx w)) sds m"
proof (cases "w = ''-''")
  case True
  then show ?thesis
    using assms(1) unfolding column_and_space_def parse_column_text[OF assms(4)]
    by (intro exI[of _ "sf_m self"]) (simp add: skip_space_text[simplified])
next
  case False
  obtain m where m: "set_val ops self h (take mx w) = Some (self\<lparr>sf_m := m\<rparr>)" "tracks (fs(h \<mapsto> take mx w)) sds m"
    using set_val_tracks[OF assms(1-3), of "take mx w"] min.coboundedI1[OF assms(5), of mx] by auto
  then show ?thesis
    using False unfolding column_and_space_def parse_column_text[OF assms(4)] by (auto simp: skip_space_text[simplified])
qed

end

text \<open>The parts of an RFC 5424 message and its text.\<close>

record rfc5424 =
  rf_pri :: nat
  rf_timestamp :: string
  rf_hostname :: string
  rf_app_name :: string
  rf_procid :: string
  rf_msgid :: string
  rf_sd :: "(string \<times> (string \<times> string) list) list"
  rf_msg :: string

definition rfc5424_text :: "rfc5424 \<Rightarrow> string" where
  "rfc5424_text r = ''<'' @ decimal (rf_pri r) @ ''>'' @ ''1 '' @ rf_timestamp r @ '' '' @ rf_hostname r @ '' '' @ rf_app_name r @ '' '' @
     rf_procid r @ '' '' @ rf_msgid r @ '' '' @ sd_text (rf_sd r) @ '' '' @ rf_msg r"

text \<open>A byte order mark at the start of the message is not part of it.\<close>

definition without_bom :: "string \<Rightarrow> string" where
  "without_bom s = (if take 3 s = [CHR 0xEF, CHR 0xBB, CHR 0xBF] then drop 3 s else s)"

definition rfc5424_ok :: "nat \<Rightarrow> rfc5424 \<Rightarrow> bool" where
  "rfc5424_ok vmax r \<longleftrightarrow> set (rf_hostname r) \<inter> set '' :['' = {} \<and> length (rf_hostname r) \<le> 255 \<and>
     (\<forall>w \<in> {rf_app_name r, rf_procid r, rf_msgid r}. CHR '' '' \<notin> set w \<and> length w \<le> NV_TABLE_MAX_BYTES) \<and>
     (\<forall>e \<in> set (rf_sd r). element_ok vmax e) \<and> length (rf_msg r) \<le> NV_TABLE_MAX_BYTES"

text \<open>The values of the built-in handles after parsing: a field that is a dash is left alone, the others are cut at
  their maximal lengths.\<close>

definition column :: "nv_handle \<Rightarrow> nat \<Rightarrow> string \<Rightarrow> (nv_handle \<rightharpoonup> string) \<Rightarrow> (nv_handle \<rightharpoonup> string)" where
  "column h mx w fs = (if w = ''-'' then fs else fs(h \<mapsto> take mx w))"

definition rfc5424_fields :: "rfc5424 \<Rightarrow> (nv_handle \<rightharpoonup> string) \<Rightarrow> (nv_handle \<rightharpoonup> string)" where
  "rfc5424_fields r fs = (column LM_V_MSGID 32 (rf_msgid r) (column LM_V_PID 128 (rf_procid r) (column LM_V_PROGRAM 48 (rf_app_name r)
     (column LM_V_HOST 255 (rf_hostname r) fs))))(LM_V_MESSAGE \<mapsto> without_bom (rf_msg r))"

lemma decimal_digits: "\<forall>c \<in> set (decimal n). isdigit c" "dec_value 0 (decimal n) = n"
proof -
  show "\<forall>c \<in> set (decimal n). isdigit c" using rdigs_isdigit by (simp add: decimal_def)
  show "dec_value 0 (decimal n) = n" unfolding decimal_def
  proof (induction n rule: less_induct)
    case (less n)
    show ?case
    proof (cases "n < 10")
      case True
      then show ?thesis by (subst rdigs.simps) (simp add: digit_char digit_value_def)
    next
      case False
      then show ?thesis using less[of "n div 10"] by (subst rdigs.simps) (simp add: digit_char digit_value_def)
    qed
  qed
qed

context msg_store
begin

lemma proto_msg_tracks:
  assumes "tracks fs sds (sf_m self)" "length msg \<le> NV_TABLE_MAX_BYTES"
  shows "\<exists>m. parse_proto_msg ops env self (here B ('' '' @ msg)) = Some (True, self\<lparr>sf_m := m\<rparr>) \<and>
    tracks (fs(LM_V_MESSAGE \<mapsto> without_bom msg)) sds m"
proof -
  let ?bom = "[CHR 0xEF, CHR 0xBB, CHR 0xBF]"
  define bom where "bom = (snd (here B msg) \<ge> 3 \<and> starts_with ?bom (here B msg))"
  have bom: "bom \<longleftrightarrow> take 3 msg = ?bom"
  proof (cases "length msg \<ge> 3")
    case True
    then show ?thesis by (simp add: bom_def starts_with_def numeral_3_eq_3)
  next
    case False
    then have "length (take 3 msg) < 3" by simp
    then have "take 3 msg \<noteq> ?bom" by (metis One_nat_def Suc_1 length_Cons less_irrefl list.size(3) numeral_3_eq_3)
    with False show ?thesis by (simp add: bom_def)
  qed
  have le: "3 \<le> length msg" if bom using that by (simp add: bom_def)
  let ?self = "if bom \<or> validate_utf8 env (here B msg) then or_flags ops self LF_UTF8 else self"
  have t: "tracks fs sds (sf_m ?self)" "\<And>m. ?self\<lparr>sf_m := m\<rparr> = self\<lparr>sf_m := m\<rparr>"
    using assms(1) or_flags_tracks by (auto simp: or_flags_def)
  have st: "store_message ops ?self (if bom then adv (here B msg) 3 else here B msg) = set_val ops ?self LM_V_MESSAGE (without_bom msg)"
  proof (cases bom)
    case True
    then show ?thesis using bom le by (simp add: store_message_def without_bom_def of_nat_diff not_less)
  qed (use bom in \<open>simp add: store_message_def without_bom_def\<close>)
  have "length (without_bom msg) \<le> NV_TABLE_MAX_BYTES" using assms(2) by (auto simp: without_bom_def)
  then obtain m where "set_val ops ?self LM_V_MESSAGE (without_bom msg) = Some (self\<lparr>sf_m := m\<rparr>)"
    "tracks (fs(LM_V_MESSAGE \<mapsto> without_bom msg)) sds m"
    using set_val_tracks[OF t(1), of LM_V_MESSAGE "without_bom msg"] t(2) by (auto simp: LM_V_MESSAGE_def LM_V_MAX_def)
  moreover have nz: "(snd (here B ('' '' @ msg)) = 0) = False" by simp
  have "parse_proto_msg ops env self (here B ('' '' @ msg)) =
      map_option (Pair True) (store_message ops ?self (if bom then adv (here B msg) 3 else here B msg))"
    unfolding parse_proto_msg_def nz
    by (simp only: skip_space_text bind.bind_lunit prod.case Let_def bom_def[symmetric] not_True_eq_False if_False)
  ultimately show ?thesis unfolding st by auto
qed

lemma sd_values_names:
  assumes "\<forall>e \<in> set els. element_ok vmax e" "vmax \<le> NV_TABLE_MAX_BYTES"
  shows "\<forall>nv \<in> set (sd_values els). sd_name (fst nv) \<and> length (snd nv) \<le> NV_TABLE_MAX_BYTES"
  using assms
  by (fastforce simp: sd_values_def element_values_def element_ok_def param_ok_def param_name_def sd_name_prefix split: if_splits)

lemma hostname_tracks:
  assumes "tracks fs sds (sf_m self)" "length w \<le> 255"
  shows "\<exists>m. (if w = ''-'' then Some self else set_val ops self LM_V_HOST w) = Some (self\<lparr>sf_m := m\<rparr>) \<and> tracks (column LM_V_HOST 255 w fs) sds m"
proof (cases "w = ''-''")
  case True
  then show ?thesis using assms(1) by (intro exI[of _ "sf_m self"]) (simp add: column_def)
next
  case False
  have "length w \<le> NV_TABLE_MAX_BYTES" using assms(2) by (simp add: NV_TABLE_MAX_BYTES_def)
  with False set_val_tracks[OF assms(1), of LM_V_HOST w] assms(2) show ?thesis by (auto simp: column_def LM_V_HOST_def LM_V_MAX_def)
qed

lemma proto_fields_tracks:
  assumes "tracks fs sds (sf_m self)" "rfc5424_ok (se_sdata_param_value_max env) r" "se_sdata_param_value_max env \<le> NV_TABLE_MAX_BYTES"
  shows "\<exists>m. parse_proto_fields ops env self (here B (rf_app_name r @ '' '' @ rf_procid r @ '' '' @ rf_msgid r @ '' '' @ sd_text (rf_sd r) @ '' '' @ rf_msg r)) =
      Some (True, self\<lparr>sf_m := m\<rparr>) \<and>
    tracks ((column LM_V_MSGID 32 (rf_msgid r) (column LM_V_PID 128 (rf_procid r) (column LM_V_PROGRAM 48 (rf_app_name r) fs)))
      (LM_V_MESSAGE \<mapsto> without_bom (rf_msg r))) (sds ++ map_of (rev (sd_values (rf_sd r)))) m"
proof -
  have w: "CHR '' '' \<notin> set (rf_app_name r)" "length (rf_app_name r) \<le> NV_TABLE_MAX_BYTES" "CHR '' '' \<notin> set (rf_procid r)"
    "length (rf_procid r) \<le> NV_TABLE_MAX_BYTES" "CHR '' '' \<notin> set (rf_msgid r)" "length (rf_msgid r) \<le> NV_TABLE_MAX_BYTES"
    "\<forall>e \<in> set (rf_sd r). element_ok (se_sdata_param_value_max env) e" "length (rf_msg r) \<le> NV_TABLE_MAX_BYTES"
    using assms(2) by (simp_all add: rfc5424_ok_def)
  have lt: "0 < LM_V_PROGRAM" "LM_V_PROGRAM < LM_V_MAX" "0 < LM_V_PID" "LM_V_PID < LM_V_MAX" "0 < LM_V_MSGID" "LM_V_MSGID < LM_V_MAX"
    by (simp_all add: LM_V_PROGRAM_def LM_V_PID_def LM_V_MSGID_def LM_V_MAX_def)
  define u3 where "u3 = sd_text (rf_sd r) @ '' '' @ rf_msg r"
  define u2 where "u2 = rf_msgid r @ '' '' @ u3"
  define u1 where "u1 = rf_procid r @ '' '' @ u2"
  obtain m1 where m1: "column_and_space ops self LM_V_PROGRAM 48 (here B (rf_app_name r @ '' '' @ u1)) = Some (True, self\<lparr>sf_m := m1\<rparr>, here B u1)"
    "tracks (column LM_V_PROGRAM 48 (rf_app_name r) fs) sds m1"
    using column_tracks[OF assms(1) lt(1,2) w(1,2)] unfolding column_def by blast
  obtain m2 where m2: "column_and_space ops (self\<lparr>sf_m := m1\<rparr>) LM_V_PID 128 (here B (rf_procid r @ '' '' @ u2)) = Some (True, self\<lparr>sf_m := m2\<rparr>, here B u2)"
    "tracks (column LM_V_PID 128 (rf_procid r) (column LM_V_PROGRAM 48 (rf_app_name r) fs)) sds m2"
    using column_tracks[of _ sds "self\<lparr>sf_m := m1\<rparr>", OF _ lt(3,4) w(3,4)] m1(2) unfolding column_def[of LM_V_PID] by fastforce
  obtain m3 where m3: "column_and_space ops (self\<lparr>sf_m := m2\<rparr>) LM_V_MSGID 32 (here B (rf_msgid r @ '' '' @ u3)) = Some (True, self\<lparr>sf_m := m3\<rparr>, here B u3)"
    "tracks (column LM_V_MSGID 32 (rf_msgid r) (column LM_V_PID 128 (rf_procid r) (column LM_V_PROGRAM 48 (rf_app_name r) fs))) sds m3"
    using column_tracks[of _ sds "self\<lparr>sf_m := m2\<rparr>", OF _ lt(5,6) w(5,6)] m2(2) unfolding column_def[of LM_V_MSGID] by fastforce
  obtain m4 where m4: "store_all ops (self\<lparr>sf_m := m3\<rparr>) (sd_values (rf_sd r)) = Some (self\<lparr>sf_m := m4\<rparr>)"
    "tracks (column LM_V_MSGID 32 (rf_msgid r) (column LM_V_PID 128 (rf_procid r) (column LM_V_PROGRAM 48 (rf_app_name r) fs)))
      (sds ++ map_of (rev (sd_values (rf_sd r)))) m4"
    using store_all_tracks[of _ sds "self\<lparr>sf_m := m3\<rparr>", OF _ sd_values_names[OF w(7) assms(3)]] m3(2) by fastforce
  have sd: "log_msg_parse_sd ops env (self\<lparr>sf_m := m3\<rparr>) (here B u3) = Some (True, self\<lparr>sf_m := m4\<rparr>, here B ('' '' @ rf_msg r))"
    using m4(1) unfolding u3_def by (subst parse_sd_text[OF w(7)]) simp_all
  obtain m5 where "parse_proto_msg ops env (self\<lparr>sf_m := m4\<rparr>) (here B ('' '' @ rf_msg r)) = Some (True, self\<lparr>sf_m := m5\<rparr>)"
    "tracks ((column LM_V_MSGID 32 (rf_msgid r) (column LM_V_PID 128 (rf_procid r) (column LM_V_PROGRAM 48 (rf_app_name r) fs)))
      (LM_V_MESSAGE \<mapsto> without_bom (rf_msg r))) (sds ++ map_of (rev (sd_values (rf_sd r)))) m5"
    using proto_msg_tracks[of _ _ "self\<lparr>sf_m := m4\<rparr>", OF _ w(8)] m4(2) by fastforce
  moreover have "rf_app_name r @ '' '' @ rf_procid r @ '' '' @ rf_msgid r @ '' '' @ sd_text (rf_sd r) @ '' '' @ rf_msg r = rf_app_name r @ '' '' @ u1"
    by (simp add: u1_def u2_def u3_def)
  ultimately show ?thesis
    unfolding parse_proto_fields_def using m1(1) m2(1) m3(1) sd by (auto simp: u1_def u2_def)
qed

lemma syslog_proto_tracks:
  assumes fs: "tracks fs sds (sf_m self)" and r: "rfc5424_ok (se_sdata_param_value_max env) r" "se_sdata_param_value_max env \<le> NV_TABLE_MAX_BYTES"
    and ts: "rf_timestamp r = iso_date_text (gmtime (ls_tv_sec stamp + ofs)) @ frac_text stamp (int n) @ fst (format_zone_info 8 ofs)"
    and t: "tm_ok (gmtime (ls_tv_sec stamp + ofs))" "mktime_ok env gmtime (ls_tv_sec stamp + ofs)"
      "\<bar>ofs\<bar> \<le> 24 * 60 * 60" "60 dvd ofs" "n \<le> 6" "ls_tv_usec stamp < 1000000"
    and fl: "se_flags env AND LP_SYSLOG_PROTOCOL \<noteq> 0" "se_flags env AND LP_CHECK_HOSTNAME = 0"
  shows "\<exists>m. log_msg_parse_syslog_proto ops env (here (NUL # NUL # bs) (rfc5424_text r)) self =
      Some (True, self\<lparr>sf_m := m, sf_pri := of_nat (rf_pri r), sf_stamp := kept_stamp stamp ofs n\<rparr>) \<and>
    tracks (rfc5424_fields r fs) (sds ++ map_of (rev (sd_values (rf_sd r)))) m"
proof -
  let ?B = "NUL # NUL # bs"
  define u2 where "u2 = rf_app_name r @ '' '' @ rf_procid r @ '' '' @ rf_msgid r @ '' '' @ sd_text (rf_sd r) @ '' '' @ rf_msg r"
  define u1 where "u1 = rf_hostname r @ '' '' @ u2"
  have tx: "rfc5424_text r = ''<'' @ decimal (rf_pri r) @ ''>'' @ ''1 '' @ rf_timestamp r @ '' '' @ u1"
    by (simp add: rfc5424_text_def u1_def u2_def)
  define self1 where "self1 = self\<lparr>sf_pri := of_nat (rf_pri r)\<rparr>"
  define self2 where "self2 = self1\<lparr>sf_stamp := kept_stamp stamp ofs n\<rparr>"
  have pri: "log_msg_parse_pri self (here ?B (rfc5424_text r)) (se_default_pri env) = Some (True, self1, here ?B (''1 '' @ rf_timestamp r @ '' '' @ u1))"
    unfolding tx self1_def using parse_pri_text[OF decimal_digits(1), of self ?B "rf_pri r" _ "se_default_pri env"] by (simp only: decimal_digits(2))
  have date: "log_msg_parse_date ops env self1 (here ?B (rf_timestamp r @ '' '' @ u1)) (se_flags env) (se_recv_zone_offset env) =
      Some (True, self2, here ?B ('' '' @ u1))"
    unfolding ts self2_def using parse_date_text[OF t fl(1), of ops self1 bs u1] by (simp only: append_assoc)
  have host: "log_msg_parse_hostname env None (here ?B u1) = Some (Some (rf_hostname r), here ?B ('' '' @ u2))"
    unfolding u1_def by (rule parse_hostname_text) (use r(1) fl(2) in \<open>auto simp: rfc5424_ok_def\<close>)
  obtain m3 where m3: "(if rf_hostname r = ''-'' then Some self2 else set_val ops self2 LM_V_HOST (rf_hostname r)) = Some (self2\<lparr>sf_m := m3\<rparr>)"
    "tracks (column LM_V_HOST 255 (rf_hostname r) fs) sds m3"
    using hostname_tracks[of fs sds self2 "rf_hostname r"] fs r(1) by (auto simp: self2_def self1_def rfc5424_ok_def)
  obtain m where m: "parse_proto_fields ops env (self2\<lparr>sf_m := m3\<rparr>) (here ?B u2) = Some (True, self2\<lparr>sf_m := m\<rparr>)"
    "tracks (rfc5424_fields r fs) (sds ++ map_of (rev (sd_values (rf_sd r)))) m"
    using proto_fields_tracks[of _ sds "self2\<lparr>sf_m := m3\<rparr>", OF _ r, of _ ?B] m3(2) unfolding rfc5424_fields_def u2_def by fastforce
  have "log_msg_parse_syslog_proto ops env (here ?B (rfc5424_text r)) self = Some (True, self2\<lparr>sf_m := m\<rparr>)"
    unfolding log_msg_parse_syslog_proto_def
    by (simp only: pri parse_version_text skip_space_text date host m3(1) m(1) bind.bind_lunit prod.case option.case if_True not_True_eq_False if_False)
  moreover have "self2\<lparr>sf_m := m\<rparr> = self\<lparr>sf_m := m, sf_pri := of_nat (rf_pri r), sf_stamp := kept_stamp stamp ofs n\<rparr>"
    by (cases self) (simp add: self2_def self1_def)
  ultimately show ?thesis using m(2) by auto
qed

end
subsection \<open>Properties\<close>

text \<open>The values of the built-in handles of a message.\<close>

definition builtin_values :: "log_message \<Rightarrow> nv_handle \<rightharpoonup> string" where
  "builtin_values m h = (if 0 < h \<and> h < LM_V_MAX then nv_table_get_value (lm_payload m) h else None)"


definition sample_stamp :: log_stamp where
  "sample_stamp = \<lparr>ls_tv_sec = 1341394205, ls_tv_usec = 123456, ls_zone_offset = 0\<rparr>"

definition sample_rfc5424 :: rfc5424 where
  "sample_rfc5424 = \<lparr>rf_pri = 165, rf_timestamp = the (fst (log_stamp_format sample_gmtime clean_time_cache sample_stamp [] TS_FMT_ISO 3600 3)),
     rf_hostname = ''host'', rf_app_name = ''app'', rf_procid = ''-'', rf_msgid = ''ID47'',
     rf_sd = [(''ex@1'', [(''iut'', ''3'')])], rf_msg = ''hello''\<rparr>"


text \<open>C39: The buffer for the name of a structured data parameter is too small for the names that the parser
  itself accepts: an identifier and a parameter of at most 32 characters each, but 58 or more together, leave
  the name without its terminator, and the registry is then asked for a name that runs on into other
  memory.\<close>

theorem sd_long_names_unterminated:
  assumes "sd_word sd_id" "sd_word param" "58 \<le> length sd_id + length param" "length v \<le> se_sdata_param_value_max env"
  shows "log_msg_parse_sd ops env self (sd_text [(sd_id, [(param, v)])] @ behind, int (length (sd_text [(sd_id, [(param, v)])]))) = None"
proof -
  let ?q = "CHR 0x22 # escaped v @ CHR 0x22 # '']''"
  let ?r = "CHR '' '' # param @ CHR ''='' # ?q"
  have tx: "(sd_text [(sd_id, [(param, v)])] @ behind, int (length (sd_text [(sd_id, [(param, v)])]))) = here behind (CHR ''['' # sd_id @ ?r)"
    by (simp add: sd_text_def element_text_def params_text_def param_text_def here_def)
  obtain c w where c: "sd_id = c # w" "sd_name_char c" using assms(1) by (cases sd_id) (auto simp: sd_word_def)
  obtain d x where d: "param = d # x" "sd_name_char d" using assms(2) by (cases param) (auto simp: sd_word_def)
  have id_name: "sd_name_loop '' ]'' [] (fst (here behind (sd_id @ ?r))) (snd (here behind (sd_id @ ?r))) = Some (Some (sd_id, here behind ?r))"
    unfolding here_fst here_snd by (subst sd_name_loop_text) (use assms(1) in \<open>auto simp: sd_word_def dest: sd_char_not\<close>)
  have param_name: "sd_name_loop ''='' [] (fst (here behind (param @ CHR ''='' # ?q))) (snd (here behind (param @ CHR ''='' # ?q))) =
      Some (Some (param, here behind (CHR ''='' # ?q)))"
    unfolding here_fst here_snd by (subst sd_name_loop_text) (use assms(2) in \<open>auto simp: sd_word_def dest: sd_char_not\<close>)
  have val: "sd_value_loop (se_sdata_param_value_max env) False [] (fst (here behind (escaped v @ CHR 0x22 # '']'')))
      (snd (here behind (escaped v @ CHR 0x22 # '']''))) = Some (Some (v, here behind (CHR 0x22 # '']'')))"
    unfolding here_fst here_snd by (subst sd_value_loop_text) (use assms(4) in simp_all)
  have none: "sd_full_name sd_id param = None" using assms(3) by (simp add: sd_full_name_def logmsg_sd_prefix_def)
  have adv: "adv (here behind (y # r)) 1 = here behind r" "adv (here behind (y # z # r)) 2 = here behind r" for y z r by simp_all
  have hit: "at_char y (here behind (y # r)) = Some True" "at_char CHR ''-'' (here behind (CHR ''['' # r)) = Some False" for y r
    by (simp_all add: at_char_def)
  have head: "peek (here behind (sd_id @ ?r)) 0 = Some c" "peek (here behind (param @ CHR ''='' # ?q)) 0 = Some d"
    "peek (here behind (y # r)) 0 = Some y" "snd (here behind (y # r)) \<noteq> 0" for y r by (simp_all add: c d)
  have ne: "sd_id \<noteq> []" using c by simp
  have p1: "sd_param ops env self sd_id (here behind ?r) = None"
    unfolding sd_param_def adv hit bind.bind_lunit
    by (simp add: head d(2) param_name none hit adv val del: here_fst here_snd One_nat_def)
  have "sd_params (Suc k) ops env self sd_id (here behind ?r) = None" for k
    by (simp add: head(3,4) p1 del: here_fst here_snd)
  then have "sd_element ops env self (here behind (sd_id @ ?r)) = None"
    unfolding sd_element_def
    by (simp add: head c(2) ne id_name del: here_fst here_snd One_nat_def sd_params.simps)
  then show ?thesis
    unfolding tx log_msg_parse_sd_def adv hit by simp
qed

lemma sd_long_names_unterminated_witness:
  "log_msg_parse_sd log_msg_ops sample_env sample_sf_msg
     (sd_text [(replicate 30 CHR ''a'', [(replicate 30 CHR ''b'', ''x'')])] @ [NUL],
      int (length (sd_text [(replicate 30 CHR ''a'', [(replicate 30 CHR ''b'', ''x'')])]))) = None"
  by (rule sd_long_names_unterminated) (simp_all add: sd_word_def sd_name_char_def sample_env_def)

lemma invalid_chars_bits:
  assumes "\<forall>i \<in> set cs. i < 256" "tab \<noteq> []" "j < 8"
  shows "invalid_chars_set cs tab \<noteq> [] \<and> (bit (invalid_chars_set cs tab ! 0) j \<longleftrightarrow> bit (tab ! 0) j \<or> (\<exists>i \<in> set cs. \<not> hostname_char i \<and> i mod 8 = j))"
  using assms(1,2)
proof (induction cs arbitrary: tab)
  case (Cons i cs)
  have "i div 256 = 0" using Cons.prems(1) by simp
  then have "invalid_chars_set (i # cs) tab =
      invalid_chars_set cs (if hostname_char i then tab else tab[0 := tab ! 0 OR push_bit (i mod 8) 1])"
    by (simp add: invalid_chars_set_def)
  with Cons assms(3) show ?case by (auto simp: bit_simps)
qed (simp add: invalid_chars_set_def)

lemma every_char_invalid: "is_invalid_char c"
proof -
  let ?j = "code c mod 8"
  have "\<not> hostname_char ?j" using mod_less_divisor[of 8 "code c"] by (auto simp: hostname_char_def)
  then have "\<exists>i \<in> set [0..<256]. \<not> hostname_char i \<and> i mod 8 = ?j"
    using mod_less_divisor[of 8 "code c"] by (intro bexI[of _ ?j]) auto
  then have "bit (invalid_chars_set [0..<256] (replicate 32 0) ! 0) ?j" "invalid_chars_set [0..<256] (replicate 32 0) \<noteq> []"
    using invalid_chars_bits[of "[0..<256]" "replicate 32 0" ?j] by auto
  moreover have "code c div 256 = 0" using nat_of_char_less_256[of c] by simp
  ultimately show ?thesis by (simp add: is_invalid_char_def invalid_chars_def Let_def bit_simps)
qed

text \<open>C40: With the option \<^verbatim>\<open>check-hostname\<close> no hostname is ever recognised. The table of invalid characters is
  indexed by the character shifted by 8 instead of 3, so that all 256 entries share eight bits and all of
  them are set: the parser stops at the first character of every hostname and leaves the position
  unchanged.\<close>

theorem check_hostname_rejects_all:
  assumes "se_flags env AND LP_CHECK_HOSTNAME \<noteq> 0" "data \<noteq> []" "hd data \<noteq> CHR '' ''"
  shows "log_msg_parse_hostname env bad (data @ behind, int (length data)) = Some (None, data @ behind, int (length data))"
proof -
  obtain c u where "data = c # u" "c \<noteq> CHR '' ''" using assms(2,3) by (cases data) auto
  then show ?thesis
    using assms(1) by (simp add: log_msg_parse_hostname_def every_char_invalid peek_def split: option.split)
qed

lemma check_hostname_rejects_all_witness:
  "log_msg_parse_hostname (sample_env\<lparr>se_flags := LP_CHECK_HOSTNAME\<rparr>) None (''host prog: text'' @ [], int (length ''host prog: text'')) =
     Some (None, ''host prog: text'' @ [], int (length ''host prog: text''))"
  by (rule check_hostname_rejects_all) (simp_all add: LP_CHECK_HOSTNAME_def)

end
