(* ===== verification/Log_Transport.thy ===== *)
theory Log_Transport
  imports Prelude
begin

text \<open>
  The transports of \<^verbatim>\<open>lib/logtransport.c\<close> under the message protocols. What the operating system will
  answer is data: a list of \<open>os_read\<close> or \<open>os_write\<close> answers, one for each system call, so that a
  statement about all lists is one about every chunking of the input, every partial write and every
  interruption. When the list is used up the descriptor is not ready (\<^verbatim>\<open>EAGAIN\<close>).

  The locale \<open>byte_stream\<close> is what a protocol relies on when it reads: the bytes come in order,
  at least one if there is room, nothing is lost when the answer is \<^verbatim>\<open>EAGAIN\<close>, and the number of such answers is
  bounded. Stream sockets and files provide it.
\<close>

subsection \<open>System calls\<close>

datatype errno = EAGAIN | EINTR | ENOBUFS | EIO

datatype os_read = Rdata string | Rerrno errno | Reof

text \<open>The result of a read: what was stored, where the empty string is the return value 0.\<close>

datatype read_rc = Got string | Rfail errno

fun sys_read :: "os_read list \<Rightarrow> nat \<Rightarrow> read_rc \<times> os_read list" where
  "sys_read [] n = (Rfail EAGAIN, [])"
| "sys_read (Rdata s # w) n = (Got (take n s), if length s \<le> n then w else Rdata (drop n s) # w)"
| "sys_read (Rerrno e # w) n = (Rfail e, w)"
| "sys_read (Reof # w) n = (Got [], Reof # w)"

text \<open>A datagram that is longer than the buffer is cut.\<close>

fun sys_recvfrom :: "os_read list \<Rightarrow> nat \<Rightarrow> read_rc \<times> os_read list" where
  "sys_recvfrom [] n = (Rfail EAGAIN, [])"
| "sys_recvfrom (Rdata s # w) n = (Got (take n s), w)"
| "sys_recvfrom (Rerrno e # w) n = (Rfail e, w)"
| "sys_recvfrom (Reof # w) n = (Got [], Reof # w)"

datatype os_write = Wrote nat | Werrno errno

datatype write_rc = Put nat | Wfail errno

text \<open>A writable descriptor is the list of its answers and all that was written to it so far.\<close>

type_synonym wdesc = "os_write list \<times> string"

fun sys_write :: "wdesc \<Rightarrow> string \<Rightarrow> write_rc \<times> wdesc" where
  "sys_write ([], out) buf = (Wfail EAGAIN, ([], out))"
| "sys_write (Wrote k # w, out) buf = (Put (min k (length buf)), (w, out @ take k buf))"
| "sys_write (Werrno e # w, out) buf = (Wfail e, (w, out))"

subsection \<open>The transport methods\<close>

text \<open>Every method repeats its system call while it is interrupted.\<close>

lemma sys_read_EINTR: "sys_read w n = (Rfail EINTR, w') \<Longrightarrow> length w' < length w"
  by (induction w n rule: sys_read.induct) auto

lemma sys_recvfrom_EINTR: "sys_recvfrom w n = (Rfail EINTR, w') \<Longrightarrow> length w' < length w"
  by (induction w n rule: sys_recvfrom.induct) auto

lemma sys_write_EINTR: "sys_write d buf = (Wfail EINTR, d') \<Longrightarrow> length (fst d') < length (fst d)"
  by (induction d buf rule: sys_write.induct) auto

function log_transport_stream_socket_read_method :: "os_read list \<Rightarrow> nat \<Rightarrow> read_rc \<times> os_read list" where
  "log_transport_stream_socket_read_method w n =
     (case sys_read w n of (rc, w') \<Rightarrow>
        if rc = Rfail EINTR then log_transport_stream_socket_read_method w' n else (rc, w'))"
  by pat_completeness auto
termination
  by (relation "measure (\<lambda>(w, n). length w)") (auto dest!: sys_read_EINTR[OF sym])

declare log_transport_stream_socket_read_method.simps [simp del]

text \<open>A regular file never ends, it is read again later.\<close>

definition log_transport_file_read_method :: "os_read list \<Rightarrow> nat \<Rightarrow> read_rc \<times> os_read list" where
  "log_transport_file_read_method w n =
     (case log_transport_stream_socket_read_method w n of (rc, w') \<Rightarrow>
        (if rc = Got [] then Rfail EAGAIN else rc, w'))"

function recvfrom_loop :: "os_read list \<Rightarrow> nat \<Rightarrow> read_rc \<times> os_read list" where
  "recvfrom_loop w n =
     (case sys_recvfrom w n of (rc, w') \<Rightarrow> if rc = Rfail EINTR then recvfrom_loop w' n else (rc, w'))"
  by pat_completeness auto
termination
  by (relation "measure (\<lambda>(w, n). length w)") (auto dest!: sys_recvfrom_EINTR[OF sym])

declare recvfrom_loop.simps [simp del]

definition log_transport_dgram_socket_read_method :: "os_read list \<Rightarrow> nat \<Rightarrow> read_rc \<times> os_read list" where
  "log_transport_dgram_socket_read_method w n =
     (case recvfrom_loop w n of (rc, w') \<Rightarrow> (if rc = Got [] then Rfail EAGAIN else rc, w'))"

function log_transport_stream_socket_write_method :: "wdesc \<Rightarrow> string \<Rightarrow> write_rc \<times> wdesc" where
  "log_transport_stream_socket_write_method d buf =
     (case sys_write d buf of (rc, d') \<Rightarrow>
        if rc = Wfail EINTR then log_transport_stream_socket_write_method d' buf else (rc, d'))"
  by pat_completeness auto
termination
  by (relation "measure (\<lambda>(d, buf). length (fst d))") (auto dest!: sys_write_EINTR[OF sym])

declare log_transport_stream_socket_write_method.simps [simp del]

text \<open>Without room for a datagram the packet counts as sent.\<close>

definition log_transport_dgram_socket_write_method :: "wdesc \<Rightarrow> string \<Rightarrow> write_rc \<times> wdesc" where
  "log_transport_dgram_socket_write_method d buf =
     (case log_transport_stream_socket_write_method d buf of (rc, d') \<Rightarrow>
        (if rc = Wfail ENOBUFS then Put (length buf) else rc, d'))"

subsection \<open>The contract of a byte stream\<close>

locale byte_stream =
  fixes rd :: "'w \<Rightarrow> nat \<Rightarrow> read_rc \<times> 'w"
    and alive :: "'w \<Rightarrow> bool"
    and to_come :: "'w \<Rightarrow> string"
    and patience :: "'w \<Rightarrow> nat"
  assumes got: "alive w \<Longrightarrow> 0 < n \<Longrightarrow> rd w n = (Got s, w') \<Longrightarrow>
      alive w' \<and> s \<noteq> [] \<and> length s \<le> n \<and> to_come w = s @ to_come w' \<and> patience w' \<le> patience w"
    and failed: "alive w \<Longrightarrow> 0 < n \<Longrightarrow> rd w n = (Rfail e, w') \<Longrightarrow>
      e = EAGAIN \<and> alive w' \<and> to_come w = to_come w' \<and> (patience w' < patience w \<or> to_come w' = [])"
begin

text \<open>One read as a whole: it brings a piece of what is to come, or nothing.\<close>

lemma read_cases:
  assumes "alive w" "0 < n"
  obtains (piece) s w' where "rd w n = (Got s, w')" "s \<noteq> []" "length s \<le> n" "alive w'" "to_come w = s @ to_come w'" "patience w' \<le> patience w"
  | (nothing) w' where "rd w n = (Rfail EAGAIN, w')" "alive w'" "to_come w = to_come w'" "patience w' < patience w \<or> to_come w' = []"
proof -
  obtain rc w' where r: "rd w n = (rc, w')" by fastforce
  show thesis
  proof (cases rc)
    case (Got s)
    with r show thesis using got[OF assms, of s w'] by (intro piece[of s w']) auto
  next
    case (Rfail e)
    with r have "rd w n = (Rfail e, w')" by simp
    note f = failed[OF assms this]
    then have "rd w n = (Rfail EAGAIN, w')" using r Rfail by simp
    then show thesis by (rule nothing) (use f in auto)
  qed
qed

end

text \<open>The answers of a descriptor on which nothing breaks: data, interruptions and waiting.\<close>

definition calm :: "os_read list \<Rightarrow> bool" where
  "calm w \<longleftrightarrow> (\<forall>a \<in> set w. case a of Rdata s \<Rightarrow> s \<noteq> [] | Rerrno e \<Rightarrow> e = EAGAIN \<or> e = EINTR | Reof \<Rightarrow> False)"

fun stream_bytes :: "os_read list \<Rightarrow> string" where
  "stream_bytes [] = []"
| "stream_bytes (Rdata s # w) = s @ stream_bytes w"
| "stream_bytes (_ # w) = stream_bytes w"

lemma calm_Cons: "calm (a # w) \<longleftrightarrow> (case a of Rdata s \<Rightarrow> s \<noteq> [] | Rerrno e \<Rightarrow> e = EAGAIN \<or> e = EINTR | Reof \<Rightarrow> False) \<and> calm w"
  by (simp add: calm_def)

lemma calm_Nil [simp]: "calm []"
  by (simp add: calm_def)

lemma stream_read_Cons [simp]:
  "log_transport_stream_socket_read_method [] n = (Rfail EAGAIN, [])"
  "log_transport_stream_socket_read_method (Rdata s # w) n = (Got (take n s), if length s \<le> n then w else Rdata (drop n s) # w)"
  "log_transport_stream_socket_read_method (Rerrno e # w) n =
     (if e = EINTR then log_transport_stream_socket_read_method w n else (Rfail e, w))"
  "log_transport_stream_socket_read_method (Reof # w) n = (Got [], Reof # w)"
  by (subst log_transport_stream_socket_read_method.simps, simp)+

lemma calm_stream_read:
  assumes "calm w" "0 < n" "log_transport_stream_socket_read_method w n = (rc, w')"
  shows "calm w' \<and> (case rc of
      Got s \<Rightarrow> s \<noteq> [] \<and> length s \<le> n \<and> stream_bytes w = s @ stream_bytes w' \<and> length w' \<le> length w
    | Rfail e \<Rightarrow> e = EAGAIN \<and> stream_bytes w = stream_bytes w' \<and> (length w' < length w \<or> stream_bytes w' = []))"
  using assms
proof (induction w)
  case (Cons a w)
  then show ?case by (cases a) (fastforce simp: calm_Cons split: if_splits read_rc.splits)+
qed auto

interpretation stream_socket: byte_stream log_transport_stream_socket_read_method calm stream_bytes length
proof unfold_locales
  fix w n s w'
  assume "calm w" "0 < n" "log_transport_stream_socket_read_method w n = (Got s, w')"
  from calm_stream_read[OF this]
  show "calm w' \<and> s \<noteq> [] \<and> length s \<le> n \<and> stream_bytes w = s @ stream_bytes w' \<and> length w' \<le> length w"
    by simp
next
  fix w n e w'
  assume "calm w" "0 < n" "log_transport_stream_socket_read_method w n = (Rfail e, w')"
  from calm_stream_read[OF this]
  show "e = EAGAIN \<and> calm w' \<and> stream_bytes w = stream_bytes w' \<and> (length w' < length w \<or> stream_bytes w' = [])"
    by simp
qed

lemma calm_file_read:
  assumes "calm w" "0 < n"
  shows "log_transport_file_read_method w n = log_transport_stream_socket_read_method w n"
proof -
  obtain rc w' where r: "log_transport_stream_socket_read_method w n = (rc, w')" by fastforce
  from calm_stream_read[OF assms r] have "rc \<noteq> Got []" by (cases rc) simp_all
  then show ?thesis by (simp add: log_transport_file_read_method_def r)
qed

interpretation regular_file: byte_stream log_transport_file_read_method calm stream_bytes length
proof unfold_locales
  fix w n s w'
  assume "calm w" "0 < n" "log_transport_file_read_method w n = (Got s, w')"
  then show "calm w' \<and> s \<noteq> [] \<and> length s \<le> n \<and> stream_bytes w = s @ stream_bytes w' \<and> length w' \<le> length w"
    using calm_file_read stream_socket.got by metis
next
  fix w n e w'
  assume "calm w" "0 < n" "log_transport_file_read_method w n = (Rfail e, w')"
  then show "e = EAGAIN \<and> calm w' \<and> stream_bytes w = stream_bytes w' \<and> (length w' < length w \<or> stream_bytes w' = [])"
    using calm_file_read stream_socket.failed by metis
qed

end
