(* ===== verification/Log_Proto.thy ===== *)
theory Log_Proto
  imports Log_Transport
begin

text \<open>
  The receiving side of the framed protocol (\<^verbatim>\<open>lib/logproto-framed-server.c\<close>) with the options of
  \<^verbatim>\<open>lib/logproto-server.c\<close>. Each message comes as its length in decimal, a space and that many bytes.
  The server collects what the transport delivers in a buffer of its own. The buffer is explicit memory: an
  access outside of it is the result \<open>None\<close>. Its sizes and positions are the 32-bit numbers
  of the source, and so are the comparisons with the signed options, which C converts to unsigned.
  The reading function of the transport is an argument, as in \<^verbatim>\<open>LogTransport\<close>.
\<close>

subsection \<open>Options\<close>

datatype lps = LPS_SUCCESS | LPS_ERROR | LPS_EOF

record lps_options =
  po_encoding :: "string option"
  po_max_msg_size :: guint32
  po_max_buffer_size :: guint32
  po_init_buffer_size :: guint32
  po_initialized :: bool

definition log_proto_server_options_defaults :: lps_options where
  "log_proto_server_options_defaults =
     \<lparr>po_encoding = None, po_max_msg_size = - 1, po_max_buffer_size = - 1, po_init_buffer_size = - 1, po_initialized = False\<rparr>"

text \<open>\<^verbatim>\<open>MIN\<close> compares two signed numbers.\<close>

definition gint_min :: "guint32 \<Rightarrow> guint32 \<Rightarrow> guint32" where
  "gint_min a b = (if sint a < sint b then a else b)"

definition log_proto_server_options_init :: "guint32 \<Rightarrow> lps_options \<Rightarrow> lps_options" where
  "log_proto_server_options_init cfg_log_msg_size options =
     (if po_initialized options then options
      else let max_msg_size = (if po_max_msg_size options = - 1 then cfg_log_msg_size else po_max_msg_size options);
               max_buffer_size = (if po_max_buffer_size options = - 1
                  then (if po_encoding options \<noteq> None then 6 * max_msg_size else max_msg_size)
                  else po_max_buffer_size options);
               init_buffer_size = (if po_init_buffer_size options = - 1 then gint_min max_msg_size max_buffer_size
                  else po_init_buffer_size options)
           in options\<lparr>po_max_msg_size := max_msg_size, po_max_buffer_size := max_buffer_size,
                po_init_buffer_size := init_buffer_size, po_initialized := True\<rparr>)"

subsection \<open>Memory\<close>

definition mem_slice :: "string \<Rightarrow> nat \<Rightarrow> nat \<Rightarrow> string option" where
  "mem_slice mem i n = (if i + n \<le> length mem then Some (take n (drop i mem)) else None)"

definition mem_write :: "string \<Rightarrow> nat \<Rightarrow> string \<Rightarrow> string option" where
  "mem_write mem i s = (if i + length s \<le> length mem then Some (take i mem @ s @ drop (i + length s) mem) else None)"

definition mem_realloc :: "string \<Rightarrow> nat \<Rightarrow> string" where
  "mem_realloc mem n = take n mem @ replicate (n - length mem) NUL"

text \<open>\<^verbatim>\<open>memmove(mem, &mem[i], n)\<close>.\<close>

definition move_front :: "string \<Rightarrow> nat \<Rightarrow> nat \<Rightarrow> string option" where
  "move_front mem i n = Option.bind (mem_slice mem i n) (mem_write mem 0)"

subsection \<open>The server\<close>

datatype lpfss = LPFSS_FRAME_READ | LPFSS_MESSAGE_READ

record framed_server =
  fs_state :: lpfss
  fs_buffer :: "string option"
  fs_buffer_size :: guint32
  fs_buffer_pos :: guint32
  fs_buffer_end :: guint32
  fs_frame_len :: guint32
  fs_half_message :: bool
  fs_status :: lps

definition log_proto_framed_server_new :: framed_server where
  "log_proto_framed_server_new =
     \<lparr>fs_state = LPFSS_FRAME_READ, fs_buffer = None, fs_buffer_size = 0, fs_buffer_pos = 0, fs_buffer_end = 0,
      fs_frame_len = 0, fs_half_message = False, fs_status = LPS_SUCCESS\<rparr>"

text \<open>Whether a message may be waiting in the buffer, so that it is fetched without a poll.\<close>

definition log_proto_framed_server_prepare :: "framed_server \<Rightarrow> bool" where
  "log_proto_framed_server_prepare self \<longleftrightarrow> \<not> fs_half_message self \<and> fs_buffer_pos self \<noteq> fs_buffer_end self"

definition fs_mem :: "framed_server \<Rightarrow> string" where
  "fs_mem self = (case fs_buffer self of Some mem \<Rightarrow> mem | None \<Rightarrow> [])"

text \<open>Moves what is left of the buffer to its beginning.\<close>

definition fs_shift :: "framed_server \<Rightarrow> framed_server option" where
  "fs_shift self =
     map_option (\<lambda>mem. self\<lparr>fs_buffer := Some mem, fs_buffer_end := fs_buffer_end self - fs_buffer_pos self, fs_buffer_pos := 0\<rparr>)
       (move_front (fs_mem self) (unat (fs_buffer_pos self)) (unat (fs_buffer_end self - fs_buffer_pos self)))"

text \<open>One read behind the data in the buffer.\<close>

definition fs_read :: "('w \<Rightarrow> nat \<Rightarrow> read_rc \<times> 'w) \<Rightarrow> framed_server \<Rightarrow> 'w \<Rightarrow> (lps \<times> framed_server \<times> 'w) option" where
  "fs_read rd self w =
     (case rd w (unat (fs_buffer_size self - fs_buffer_end self)) of
        (Rfail e, w') \<Rightarrow>
          Some (if e \<noteq> EAGAIN then (LPS_ERROR, self, w') else (LPS_SUCCESS, self\<lparr>fs_half_message := True\<rparr>, w'))
      | (Got s, w') \<Rightarrow>
          if s = [] then Some (LPS_EOF, self, w')
          else map_option (\<lambda>mem. (LPS_SUCCESS,
                 self\<lparr>fs_buffer := Some mem, fs_buffer_end := fs_buffer_end self + of_nat (length s)\<rparr>, w'))
               (mem_write (fs_mem self) (unat (fs_buffer_end self)) s))"

definition log_proto_framed_server_fetch_data ::
    "('w \<Rightarrow> nat \<Rightarrow> read_rc \<times> 'w) \<Rightarrow> bool \<Rightarrow> framed_server \<Rightarrow> 'w \<Rightarrow> (lps \<times> framed_server \<times> 'w) option" where
  "log_proto_framed_server_fetch_data rd may_read self w =
     (let self1 = (if fs_buffer_pos self = fs_buffer_end self then self\<lparr>fs_buffer_pos := 0, fs_buffer_end := 0\<rparr> else self)
      in case (if fs_buffer_size self1 = fs_buffer_end self1 then fs_shift self1 else Some self1) of
           None \<Rightarrow> None
         | Some self2 \<Rightarrow> if \<not> may_read then Some (LPS_SUCCESS, self2, w) else fs_read rd self2 w)"

datatype frame_header = Frame_header guint32 guint32 | Frame_partial guint32 | Frame_invalid guint32 | Frame_fault

lemma guint32_less: "unat (w :: guint32) < 4294967296"
proof -
  have "unat w < 2 ^ LENGTH(32)" by (rule unsigned_less)
  then show ?thesis by simp
qed

lemma unat_step: "i < (stop :: guint32) \<Longrightarrow> unat (i + 1) = Suc (unat i)"
  using guint32_less[of stop] by (simp add: word_less_nat_alt unat_word_ariths(1))

text \<open>The loop over the header, with the length so far: a complete header gives the length and the
  position behind it.\<close>

function header_loop :: "string \<Rightarrow> guint32 \<Rightarrow> guint32 \<Rightarrow> guint32 \<Rightarrow> guint32 \<Rightarrow> frame_header" where
  "header_loop mem pos stop i frame_len =
     (if i < stop then
        (if unat i < length mem then
           (let c = mem ! unat i in
            if isdigit c \<and> i - pos < 10 then header_loop mem pos stop (i + 1) (frame_len * 10 + of_nat (digit_value c))
            else if c = CHR '' '' then Frame_header frame_len (i + 1)
            else Frame_invalid frame_len)
         else Frame_fault)
      else Frame_partial frame_len)"
  by pat_completeness auto
termination
  by (relation "measure (\<lambda>(mem, pos, stop, i, frame_len). unat stop - unat i)") (auto simp: unat_step word_less_nat_alt)

declare header_loop.simps [simp del]

datatype header_status = Header_done | Header_partial | Header_invalid

text \<open>\<^verbatim>\<open>Header_partial\<close> is the result \<^verbatim>\<open>TRUE\<close> with \<^verbatim>\<open>need_more_data\<close> set.\<close>

definition log_proto_framed_server_extract_frame_length :: "framed_server \<Rightarrow> (header_status \<times> framed_server) option" where
  "log_proto_framed_server_extract_frame_length self =
     (case header_loop (fs_mem self) (fs_buffer_pos self) (fs_buffer_end self) (fs_buffer_pos self) 0 of
        Frame_header n pos \<Rightarrow> Some (Header_done, self\<lparr>fs_frame_len := n, fs_buffer_pos := pos\<rparr>)
      | Frame_partial n \<Rightarrow> Some (Header_partial, self\<lparr>fs_frame_len := n\<rparr>)
      | Frame_invalid n \<Rightarrow> Some (Header_invalid, self\<lparr>fs_frame_len := n\<rparr>)
      | Frame_fault \<Rightarrow> None)"

text \<open>A fetch gives a status, a message or none, the server and the transport.\<close>

type_synonym 'w fetched = "lps \<times> string option \<times> framed_server \<times> 'w"

text \<open>The label \<^verbatim>\<open>read_message\<close>, first without and then with the second attempt after reading.\<close>

definition take_message :: "framed_server \<Rightarrow> 'w \<Rightarrow> 'w fetched option option" where
  "take_message self w =
     (if fs_buffer_end self - fs_buffer_pos self \<ge> fs_frame_len self
      then Some (map_option (\<lambda>msg. (LPS_SUCCESS, Some msg,
             self\<lparr>fs_buffer_pos := fs_buffer_pos self + fs_frame_len self, fs_state := LPFSS_FRAME_READ, fs_half_message := False\<rparr>, w))
             (mem_slice (fs_mem self) (unat (fs_buffer_pos self)) (unat (fs_frame_len self))))
      else None)"

definition read_message ::
    "('w \<Rightarrow> nat \<Rightarrow> read_rc \<times> 'w) \<Rightarrow> bool \<Rightarrow> bool \<Rightarrow> framed_server \<Rightarrow> 'w \<Rightarrow> 'w fetched option" where
  "read_message rd may_read try_read self w =
     (case take_message self w of
        Some r \<Rightarrow> r
      | None \<Rightarrow>
          if try_read then
            (case log_proto_framed_server_fetch_data rd may_read self w of
               None \<Rightarrow> None
             | Some (status, self', w') \<Rightarrow>
                 if status \<noteq> LPS_SUCCESS then Some (status, None, self', w')
                 else (case take_message self' w' of Some r \<Rightarrow> r | None \<Rightarrow> Some (LPS_SUCCESS, None, self', w')))
          else Some (LPS_SUCCESS, None, self, w))"

text \<open>The buffer grows when the frame does not fit behind the current position.\<close>

definition fs_grow :: "lps_options \<Rightarrow> framed_server \<Rightarrow> framed_server" where
  "fs_grow options self =
     (if fs_buffer_size self < po_max_buffer_size options \<and> fs_frame_len self > fs_buffer_size self - fs_buffer_pos self
      then let n = 16 * (fs_frame_len self + 10);
               n = (if n > po_max_buffer_size options then po_max_buffer_size options else n)
           in self\<lparr>fs_buffer_size := n, fs_buffer := Some (mem_realloc (fs_mem self) (unat n))\<rparr>
      else self)"

text \<open>What follows a complete header.\<close>

definition frame_start ::
    "('w \<Rightarrow> nat \<Rightarrow> read_rc \<times> 'w) \<Rightarrow> lps_options \<Rightarrow> bool \<Rightarrow> bool \<Rightarrow> framed_server \<Rightarrow> 'w \<Rightarrow> 'w fetched option" where
  "frame_start rd options may_read try_read self w =
     (let self1 = self\<lparr>fs_state := LPFSS_MESSAGE_READ\<rparr>
      in if fs_frame_len self1 > po_max_msg_size options then Some (LPS_ERROR, None, self1, w)
         else let self2 = fs_grow options self1
              in case (if fs_buffer_pos self2 + fs_frame_len self2 > fs_buffer_size self2 then fs_shift self2 else Some self2) of
                   None \<Rightarrow> None
                 | Some self3 \<Rightarrow> read_message rd may_read try_read self3 w)"

definition read_frame ::
    "('w \<Rightarrow> nat \<Rightarrow> read_rc \<times> 'w) \<Rightarrow> lps_options \<Rightarrow> bool \<Rightarrow> framed_server \<Rightarrow> 'w \<Rightarrow> 'w fetched option" where
  "read_frame rd options may_read self w =
     (case log_proto_framed_server_extract_frame_length self of
        None \<Rightarrow> None
      | Some (Header_invalid, self1) \<Rightarrow> Some (LPS_ERROR, None, self1, w)
      | Some (Header_done, self1) \<Rightarrow> frame_start rd options may_read True self1 w
      | Some (Header_partial, self1) \<Rightarrow>
          (case log_proto_framed_server_fetch_data rd may_read self1 w of
             None \<Rightarrow> None
           | Some (status, self2, w2) \<Rightarrow>
               if status \<noteq> LPS_SUCCESS then Some (status, None, self2, w2)
               else (case log_proto_framed_server_extract_frame_length self2 of
                       None \<Rightarrow> None
                     | Some (Header_invalid, self3) \<Rightarrow> Some (LPS_ERROR, None, self3, w2)
                     | Some (Header_done, self3) \<Rightarrow> frame_start rd options may_read False self3 w2
                     | Some (Header_partial, self3) \<Rightarrow> Some (LPS_SUCCESS, None, self3, w2))))"

definition fs_alloc :: "lps_options \<Rightarrow> framed_server \<Rightarrow> framed_server" where
  "fs_alloc options self =
     (if fs_buffer self = None
      then self\<lparr>fs_buffer_size := po_init_buffer_size options, fs_buffer := Some (replicate (unat (po_init_buffer_size options)) NUL)\<rparr>
      else self)"

definition log_proto_framed_server_fetch ::
    "('w \<Rightarrow> nat \<Rightarrow> read_rc \<times> 'w) \<Rightarrow> lps_options \<Rightarrow> bool \<Rightarrow> framed_server \<Rightarrow> 'w \<Rightarrow> 'w fetched option" where
  "log_proto_framed_server_fetch rd options may_read self w =
     (let self1 = fs_alloc options self
      in case fs_state self1 of
           LPFSS_FRAME_READ \<Rightarrow> read_frame rd options may_read self1 w
         | LPFSS_MESSAGE_READ \<Rightarrow> read_message rd may_read True self1 w)"

text \<open>\<^verbatim>\<open>log_proto_server_fetch\<close>: a status other than success is final.\<close>

definition log_proto_server_fetch ::
    "('w \<Rightarrow> nat \<Rightarrow> read_rc \<times> 'w) \<Rightarrow> lps_options \<Rightarrow> bool \<Rightarrow> framed_server \<Rightarrow> 'w \<Rightarrow> 'w fetched option" where
  "log_proto_server_fetch rd options may_read self w =
     (if fs_status self = LPS_SUCCESS then log_proto_framed_server_fetch rd options may_read self w
      else Some (fs_status self, None, self, w))"

end
