(* ===== verification/Log_Proto_Framed.thy ===== *)
theory Log_Proto_Framed
  imports Log_Proto Str_Format
begin

text \<open>
  Correctness of the framed server: messages framed with their length arrive complete and in order however the
  transport cuts the stream into pieces, and no access leaves the buffer. The proof needs of the transport
  only the contract \<open>byte_stream\<close>.
\<close>

subsection \<open>Frames\<close>

definition frame :: "string \<Rightarrow> string" where
  "frame m = rev (rdigs 10 (length m)) @ '' '' @ m"

abbreviation frames :: "string list \<Rightarrow> string" where
  "frames ms \<equiv> concat (map frame ms)"

text \<open>One step of the loop over the header, on the text that is still in the buffer.\<close>

abbreviation span :: "string \<Rightarrow> guint32 \<Rightarrow> guint32 \<Rightarrow> string" where
  "span mem i stop \<equiv> take (unat stop - unat i) (drop (unat i) mem)"

lemma span_Cons:
  assumes "span mem i stop = c # ds" "unat stop \<le> length mem"
  shows "i < stop" "unat i < length mem" "mem ! unat i = c" "span mem (i + 1) stop = ds" "unat (i + 1) = Suc (unat i)"
proof -
  show less: "i < stop" using assms(1) by (cases "i < stop") (auto simp: word_less_nat_alt)
  show s: "unat (i + 1) = Suc (unat i)" using unat_step[OF less] .
  show at: "unat i < length mem" using less assms(2) by (simp add: word_less_nat_alt)
  have "span mem i stop = mem ! unat i # span mem (i + 1) stop"
    using less at by (simp add: s word_less_nat_alt Cons_nth_drop_Suc[symmetric] take_Cons' Suc_diff_Suc)
  then show "mem ! unat i = c" "span mem (i + 1) stop = ds" using assms(1) by auto
qed

lemma header_loop_digit:
  assumes "span mem i stop = c # ds" "unat stop \<le> length mem" "isdigit c" "pos \<le> i" "unat i - unat pos + Suc k \<le> 10"
  shows "header_loop mem pos stop i acc = header_loop mem pos stop (i + 1) (dec_step acc c)"
    "pos \<le> i + 1" "unat (i + 1) - unat pos + k \<le> 10"
proof -
  note s = span_Cons[OF assms(1,2)]
  have "i - pos < 10" using assms(4,5) by (simp add: word_less_nat_alt unat_sub)
  with s assms(3) show "header_loop mem pos stop i acc = header_loop mem pos stop (i + 1) (dec_step acc c)"
    by (subst header_loop.simps) (simp add: dec_step_def digit_value_def)
  show "pos \<le> i + 1" "unat (i + 1) - unat pos + k \<le> 10" using assms(4,5) s(5) by (simp_all add: word_le_nat_alt)
qed

lemma header_loop_partial:
  "span mem i stop = ds \<Longrightarrow> unat stop \<le> length mem \<Longrightarrow> \<forall>c \<in> set ds. isdigit c \<Longrightarrow>
   pos \<le> i \<Longrightarrow> unat i - unat pos + length ds \<le> 10 \<Longrightarrow> header_loop mem pos stop i acc = Frame_partial (foldl dec_step acc ds)"
proof (induction ds arbitrary: i acc)
  case Nil
  then have "\<not> i < stop" by (auto simp: word_less_nat_alt)
  then show ?case by (subst header_loop.simps) simp
next
  case (Cons c ds)
  note h = header_loop_digit[OF Cons.prems(1,2) _ Cons.prems(4), of "length ds"]
  show ?case using Cons.IH[OF span_Cons(4)[OF Cons.prems(1,2)]] h Cons.prems by simp
qed

lemma header_loop_complete:
  "span mem i stop = ds @ CHR '' '' # rest \<Longrightarrow> unat stop \<le> length mem \<Longrightarrow> \<forall>c \<in> set ds. isdigit c \<Longrightarrow>
   pos \<le> i \<Longrightarrow> unat i - unat pos + length ds \<le> 10 \<Longrightarrow>
   \<exists>p. header_loop mem pos stop i acc = Frame_header (foldl dec_step acc ds) p \<and>
       unat p = unat i + Suc (length ds) \<and> span mem p stop = rest \<and> unat p \<le> unat stop"
proof (induction ds arbitrary: i acc)
  case Nil
  note s = span_Cons[OF Nil.prems(1)[simplified] Nil.prems(2)]
  then show ?case
    by (subst header_loop.simps) (simp add: isdigit_code word_less_nat_alt Suc_leI)
next
  case (Cons c ds)
  note h = header_loop_digit[OF Cons.prems(1)[simplified] Cons.prems(2) _ Cons.prems(4), of "length ds"]
  note s = span_Cons[OF Cons.prems(1)[simplified] Cons.prems(2)]
  show ?case using Cons.IH[OF s(4)] h s(5) Cons.prems by simp
qed

text \<open>What is in the buffer and not yet taken, and when the buffer is sound.\<close>

definition fs_pending :: "framed_server \<Rightarrow> string" where
  "fs_pending self = span (fs_mem self) (fs_buffer_pos self) (fs_buffer_end self)"

definition fs_ok :: "nat \<Rightarrow> framed_server \<Rightarrow> bool" where
  "fs_ok B self \<longleftrightarrow> B < 2 ^ 31 \<and> fs_buffer self \<noteq> None \<and> length (fs_mem self) = B \<and> unat (fs_buffer_size self) = B \<and>
     fs_buffer_pos self \<le> fs_buffer_end self \<and> unat (fs_buffer_end self) \<le> B \<and> fs_status self = LPS_SUCCESS"

lemma fs_ok_pending: "fs_ok B self \<Longrightarrow> length (fs_pending self) = unat (fs_buffer_end self) - unat (fs_buffer_pos self)"
  by (auto simp: fs_ok_def fs_pending_def min_def)

lemma fs_shift_ok:
  assumes "fs_ok B self"
  shows "\<exists>self'. fs_shift self = Some self' \<and> fs_ok B self' \<and> fs_pending self' = fs_pending self \<and> fs_buffer_pos self' = 0 \<and>
    fs_state self' = fs_state self \<and> fs_frame_len self' = fs_frame_len self \<and>
    unat (fs_buffer_end self') = length (fs_pending self)"
proof -
  let ?n = "unat (fs_buffer_end self - fs_buffer_pos self)"
  have n: "?n = unat (fs_buffer_end self) - unat (fs_buffer_pos self)" using assms by (simp add: fs_ok_def unat_sub)
  have "unat (fs_buffer_pos self) \<le> unat (fs_buffer_end self)" using assms by (simp add: fs_ok_def word_le_nat_alt)
  then show ?thesis
    using assms by (auto simp: fs_shift_def move_front_def mem_slice_def mem_write_def n fs_ok_def fs_pending_def fs_mem_def)
qed

text \<open>Before a read the buffer is rewound if it is empty, or its contents are moved to the front if it is full.\<close>

definition fs_make_room :: "framed_server \<Rightarrow> framed_server option" where
  "fs_make_room self =
     (let self1 = (if fs_buffer_pos self = fs_buffer_end self then self\<lparr>fs_buffer_pos := 0, fs_buffer_end := 0\<rparr> else self)
      in if fs_buffer_size self1 = fs_buffer_end self1 then fs_shift self1 else Some self1)"

lemma fetch_data_room:
  "log_proto_framed_server_fetch_data rd True self w = Option.bind (fs_make_room self) (\<lambda>self2. fs_read rd self2 w)"
  by (simp add: log_proto_framed_server_fetch_data_def fs_make_room_def Let_def split: option.split)

lemma fs_make_room_ok:
  assumes "fs_ok B self" "length (fs_pending self) < B"
  shows "\<exists>self'. fs_make_room self = Some self' \<and> fs_ok B self' \<and> fs_pending self' = fs_pending self \<and>
    fs_state self' = fs_state self \<and> fs_frame_len self' = fs_frame_len self \<and>
    fs_buffer_pos self' \<le> fs_buffer_pos self \<and> unat (fs_buffer_end self') < B"
proof (cases "fs_buffer_pos self = fs_buffer_end self")
  case True
  moreover have "fs_buffer_size self \<noteq> 0" using assms by (auto simp: fs_ok_def)
  ultimately show ?thesis
    using assms by (auto simp: fs_make_room_def fs_ok_def fs_pending_def fs_mem_def)
next
  case False
  show ?thesis
  proof (cases "fs_buffer_size self = fs_buffer_end self")
    case True
    then show ?thesis using False fs_shift_ok[OF assms(1)] assms(2) by (auto simp: fs_make_room_def)
  next
    case notfull: False
    then have "unat (fs_buffer_size self) \<noteq> unat (fs_buffer_end self)" by (simp add: word_unat_eq_iff)
    then have "unat (fs_buffer_end self) < B" using assms(1) by (auto simp: fs_ok_def)
    then show ?thesis using False notfull assms by (auto simp: fs_make_room_def)
  qed
qed

lemma fs_store:
  assumes "fs_ok B self" "unat (fs_buffer_end self) + length s \<le> B"
  shows "\<exists>mem. mem_write (fs_mem self) (unat (fs_buffer_end self)) s = Some mem \<and>
    fs_ok B (self\<lparr>fs_buffer := Some mem, fs_buffer_end := fs_buffer_end self + of_nat (length s)\<rparr>) \<and>
    fs_pending (self\<lparr>fs_buffer := Some mem, fs_buffer_end := fs_buffer_end self + of_nat (length s)\<rparr>) = fs_pending self @ s"
proof -
  have e: "unat (fs_buffer_end self + of_nat (length s)) = unat (fs_buffer_end self) + length s"
    using assms by (simp add: fs_ok_def unat_word_ariths(1) unat_of_nat)
  have "unat (fs_buffer_pos self) \<le> unat (fs_buffer_end self)" using assms by (simp add: fs_ok_def word_le_nat_alt)
  then show ?thesis
    using assms e by (auto simp: mem_write_def fs_ok_def fs_pending_def fs_mem_def word_le_nat_alt drop_take)
qed

subsection \<open>What the server still expects\<close>

text \<open>In either state the bytes in the buffer and those to come are the messages that are still to be
  delivered; of the first one the header may have been taken off.\<close>

definition fs_expects :: "nat \<Rightarrow> framed_server \<Rightarrow> string \<Rightarrow> string list \<Rightarrow> bool" where
  "fs_expects B self later msgs \<longleftrightarrow> fs_ok B self \<and>
     (case fs_state self of
        LPFSS_FRAME_READ \<Rightarrow> fs_pending self @ later = frames msgs
      | LPFSS_MESSAGE_READ \<Rightarrow> (\<exists>m ms. msgs = m # ms \<and> fs_pending self @ later = m @ frames ms \<and>
          unat (fs_frame_len self) = length m \<and> unat (fs_buffer_pos self) + length m \<le> B))"

lemma take_message_complete:
  assumes "fs_ok B self" "fs_pending self @ later = m @ frames ms" "unat (fs_frame_len self) = length m"
    "length m \<le> length (fs_pending self)"
  shows "\<exists>self'. take_message self w = Some (Some (LPS_SUCCESS, Some m, self', w)) \<and> fs_expects B self' later ms \<and>
    fs_state self' = LPFSS_FRAME_READ \<and> unat (fs_buffer_pos self') = unat (fs_buffer_pos self) + length m"
proof -
  let ?self = "self\<lparr>fs_buffer_pos := fs_buffer_pos self + fs_frame_len self, fs_state := LPFSS_FRAME_READ, fs_half_message := False\<rparr>"
  note len = fs_ok_pending[OF assms(1)]
  have le: "unat (fs_buffer_pos self) + length m \<le> unat (fs_buffer_end self)" "unat (fs_buffer_end self) \<le> B" "B < 2 ^ 31" "length (fs_mem self) = B"
    using assms(1,4) len by (auto simp: fs_ok_def word_le_nat_alt)
  have p: "unat (fs_buffer_pos self + fs_frame_len self) = unat (fs_buffer_pos self) + length m"
    using le assms(3) by (simp add: unat_word_ariths(1))
  have m: "m = take (length m) (fs_pending self)" "drop (length m) (fs_pending self) @ later = frames ms"
    using assms(2,4) by (metis append_eq_append_conv_if append_eq_conv_conj append_take_drop_id)+
  have "take (length m) (fs_pending self) = take (length m) (drop (unat (fs_buffer_pos self)) (fs_mem self))"
    using le(1) by (auto simp: fs_pending_def min_absorb1)
  then have "take (length m) (drop (unat (fs_buffer_pos self)) (fs_mem self)) = m" using m(1) by simp
  moreover have "fs_pending ?self = drop (length m) (fs_pending self)"
    by (simp add: fs_pending_def fs_mem_def p drop_take add.commute)
  moreover have "fs_buffer_end self - fs_buffer_pos self \<ge> fs_frame_len self"
    using assms(1,3) le(1) by (simp add: fs_ok_def word_le_nat_alt unat_sub)
  ultimately show ?thesis
    using assms(1,3) m(2) le p by (auto simp: take_message_def mem_slice_def fs_expects_def fs_ok_def fs_mem_def word_le_nat_alt)
qed

lemma take_message_incomplete:
  assumes "fs_ok B self" "unat (fs_frame_len self) = length m" "length (fs_pending self) < length m"
  shows "take_message self w = None"
  using assms fs_ok_pending[OF assms(1)] by (simp add: take_message_def fs_ok_def word_le_nat_alt unat_sub)

text \<open>The header of the first message is complete in the buffer, or the buffer holds only its digits.\<close>

lemma extract_ok:
  assumes ok: "fs_ok B self" and p: "fs_pending self @ later = frame m @ rest" and m: "length m < 2 ^ 31"
  shows "(\<exists>self'. log_proto_framed_server_extract_frame_length self = Some (Header_partial, self') \<and> fs_ok B self' \<and>
      fs_pending self' = fs_pending self \<and> fs_state self' = fs_state self \<and> length (fs_pending self) \<le> 10 \<and> later \<noteq> [] \<and>
      length (fs_pending self) \<le> length (rdigs 10 (length m))) \<or>
    (\<exists>self'. log_proto_framed_server_extract_frame_length self = Some (Header_done, self') \<and> fs_ok B self' \<and>
      fs_state self' = fs_state self \<and> fs_pending self' @ later = m @ rest \<and> unat (fs_frame_len self') = length m \<and>
      unat (fs_buffer_pos self') = unat (fs_buffer_pos self) + Suc (length (rdigs 10 (length m))))"
proof -
  let ?ds = "rev (rdigs 10 (length m))"
  have ds: "\<forall>c \<in> set ?ds. isdigit c" "length ?ds \<le> 10" "foldl dec_step 0 ?ds = of_nat (length m)"
    using rdigs_isdigit rdigs_length[of 10 "length m" 9] m rdigs_value by auto
  have mem: "unat (fs_buffer_end self) \<le> length (fs_mem self)" using ok by (simp add: fs_ok_def)
  have p: "fs_pending self @ later = ?ds @ CHR '' '' # m @ rest" using p by (simp add: frame_def)
  show ?thesis
  proof (cases "length (fs_pending self) \<le> length ?ds")
    case True
    then have "fs_pending self = take (length (fs_pending self)) ?ds" using arg_cong[OF p, of "take (length (fs_pending self))"] by simp
    then have d: "\<forall>c \<in> set (fs_pending self). isdigit c" using ds(1) by (metis in_set_takeD)
    have "later \<noteq> []" using p True by (auto dest: arg_cong[where f = length])
    moreover have "header_loop (fs_mem self) (fs_buffer_pos self) (fs_buffer_end self) (fs_buffer_pos self) 0 =
        Frame_partial (foldl dec_step 0 (fs_pending self))"
      using header_loop_partial[OF refl mem d[unfolded fs_pending_def]] True ds(2) by (simp add: fs_pending_def)
    ultimately show ?thesis
      using ok True ds(2) by (auto simp: log_proto_framed_server_extract_frame_length_def fs_ok_def fs_pending_def fs_mem_def)
  next
    case False
    have "fs_pending self @ us \<noteq> ?ds" for us using False by (metis length_append le_add1)
    then obtain us where "fs_pending self = ?ds @ us" "us @ later = CHR '' '' # m @ rest"
      using p by (auto simp: append_eq_append_conv2)
    then obtain r where r: "fs_pending self = ?ds @ CHR '' '' # r" "r @ later = m @ rest"
      using False by (cases us) auto
    obtain q where q: "header_loop (fs_mem self) (fs_buffer_pos self) (fs_buffer_end self) (fs_buffer_pos self) 0 = Frame_header (of_nat (length m)) q"
      "span (fs_mem self) q (fs_buffer_end self) = r" "unat q \<le> unat (fs_buffer_end self)"
      "unat q = unat (fs_buffer_pos self) + Suc (length ?ds)"
      using header_loop_complete[OF r(1)[unfolded fs_pending_def] mem ds(1), of "fs_buffer_pos self" 0] ds(2,3) by auto
    then show ?thesis
      using ok r(2) m by (auto simp: log_proto_framed_server_extract_frame_length_def fs_ok_def fs_pending_def fs_mem_def word_le_nat_alt unat_of_nat)
  qed
qed

lemma extract_empty:
  assumes "fs_ok B self" "fs_pending self = []"
  shows "\<exists>self'. log_proto_framed_server_extract_frame_length self = Some (Header_partial, self') \<and> fs_ok B self' \<and>
    fs_pending self' = [] \<and> fs_state self' = fs_state self"
proof -
  have "header_loop (fs_mem self) (fs_buffer_pos self) (fs_buffer_end self) (fs_buffer_pos self) 0 = Frame_partial 0"
    using header_loop_partial[OF assms(2)[unfolded fs_pending_def], of "fs_buffer_pos self" 0] assms(1) by (simp add: fs_ok_def)
  then show ?thesis
    using assms by (auto simp: log_proto_framed_server_extract_frame_length_def fs_ok_def fs_pending_def fs_mem_def)
qed

text \<open>The options under which the buffer has its final size from the start and every permitted message fits.\<close>

definition fixed_buffer :: "lps_options \<Rightarrow> nat \<Rightarrow> bool" where
  "fixed_buffer options B \<longleftrightarrow> unat (po_init_buffer_size options) = B \<and> po_max_buffer_size options = po_init_buffer_size options \<and>
     unat (po_max_msg_size options) \<le> B \<and> 10 < B \<and> B < 2 ^ 31"

lemma fs_grow_fixed:
  "fixed_buffer options B \<Longrightarrow> fs_ok B self \<Longrightarrow> fs_grow options self = self"
  by (auto simp: fs_grow_def fixed_buffer_def fs_ok_def word_less_nat_alt)

lemma fs_ok_state: "fs_ok B self \<Longrightarrow> fs_ok B (self\<lparr>fs_state := st\<rparr>)"
  by (simp add: fs_ok_def fs_mem_def)

lemma frame_start_ok:
  assumes "fs_grow options (self\<lparr>fs_state := LPFSS_MESSAGE_READ\<rparr>) = self\<lparr>fs_state := LPFSS_MESSAGE_READ\<rparr>"
    "fs_ok B self" "fs_pending self @ later = m @ frames ms"
    "unat (fs_frame_len self) = length m" "length m \<le> unat (po_max_msg_size options)" "length m \<le> B"
  shows "\<exists>self'. frame_start rd options may_read try_read self w = read_message rd may_read try_read self' w \<and>
    fs_state self' = LPFSS_MESSAGE_READ \<and> fs_expects B self' later (m # ms)"
proof -
  let ?self = "self\<lparr>fs_state := LPFSS_MESSAGE_READ\<rparr>"
  have B: "length m \<le> B" "B < 2 ^ 31" "unat (fs_buffer_pos self) \<le> B" "unat (fs_buffer_size self) = B"
    using assms(2,6) by (auto simp: fs_ok_def word_le_nat_alt)
  note grow = assms(1)
  have fits: "\<not> fs_frame_len self > po_max_msg_size options" using assms(4,5) by (simp add: word_less_nat_alt)
  have sum: "unat (fs_buffer_pos self + fs_frame_len self) = unat (fs_buffer_pos self) + length m"
    using B assms(4) by (simp add: unat_word_ariths(1))
  have ok: "fs_ok B ?self" "fs_pending ?self = fs_pending self" using assms(2) by (simp_all add: fs_ok_def fs_pending_def fs_mem_def)
  obtain self' where s: "fs_shift ?self = Some self'" "fs_ok B self'" "fs_pending self' = fs_pending self" "fs_buffer_pos self' = 0"
    "fs_state self' = LPFSS_MESSAGE_READ" "fs_frame_len self' = fs_frame_len self"
    using fs_shift_ok[OF ok(1)] ok(2) by auto
  show ?thesis
  proof (cases "fs_buffer_pos self + fs_frame_len self > fs_buffer_size self")
    case True
    then show ?thesis using s assms(3,4) grow fits B(1) by (intro exI[of _ self']) (auto simp: frame_start_def fs_expects_def)
  next
    case False
    then have "unat (fs_buffer_pos self) + length m \<le> B" using sum B(4) by (simp add: word_less_nat_alt)
    with False show ?thesis using ok assms(3,4) grow fits by (intro exI[of _ ?self]) (auto simp: frame_start_def fs_expects_def)
  qed
qed

context byte_stream
begin

text \<open>Reading appends a piece of the stream to what is pending, or nothing.\<close>

lemma fetch_data:
  assumes "alive w" "fs_ok B self" "length (fs_pending self) < B"
  obtains s self' w' where "log_proto_framed_server_fetch_data rd True self w = Some (LPS_SUCCESS, self', w')"
    "fs_ok B self'" "fs_pending self' = fs_pending self @ s" "fs_state self' = fs_state self"
    "fs_frame_len self' = fs_frame_len self" "fs_buffer_pos self' \<le> fs_buffer_pos self"
    "alive w'" "to_come w = s @ to_come w'"
    "to_come w \<noteq> [] \<Longrightarrow> length (to_come w') + patience w' < length (to_come w) + patience w"
proof -
  obtain self2 where r: "fs_make_room self = Some self2" "fs_ok B self2" "fs_pending self2 = fs_pending self"
    "fs_state self2 = fs_state self" "fs_frame_len self2 = fs_frame_len self"
    "fs_buffer_pos self2 \<le> fs_buffer_pos self" "unat (fs_buffer_end self2) < B"
    using fs_make_room_ok[OF assms(2,3)] by blast
  let ?n = "unat (fs_buffer_size self2 - fs_buffer_end self2)"
  have n: "?n = B - unat (fs_buffer_end self2)" using r(2) by (simp add: fs_ok_def unat_sub word_le_nat_alt)
  then have "0 < ?n" using r(7) by simp
  with assms(1) show thesis
  proof (cases rule: read_cases[of w ?n])
    case (piece s w')
    have room: "unat (fs_buffer_end self2) + length s \<le> B" using piece(3) n r(7) by simp
    obtain mem where m: "mem_write (fs_mem self2) (unat (fs_buffer_end self2)) s = Some mem"
      "fs_ok B (self2\<lparr>fs_buffer := Some mem, fs_buffer_end := fs_buffer_end self2 + of_nat (length s)\<rparr>)"
      "fs_pending (self2\<lparr>fs_buffer := Some mem, fs_buffer_end := fs_buffer_end self2 + of_nat (length s)\<rparr>) = fs_pending self2 @ s"
      using fs_store[OF r(2) room] by blast
    have "patience w' < length s + patience w" using piece(2,6) by (cases s) auto
    then show thesis
      using piece m r by (intro that[of "self2\<lparr>fs_buffer := Some mem, fs_buffer_end := fs_buffer_end self2 + of_nat (length s)\<rparr>" w' s])
        (auto simp: fetch_data_room fs_read_def)
  next
    case (nothing w')
    then show thesis
      using r by (intro that[of "self2\<lparr>fs_half_message := True\<rparr>" w' "[]"]) (auto simp: fetch_data_room fs_read_def fs_ok_def fs_pending_def fs_mem_def)
  qed
qed

abbreviation ahead :: "'w \<Rightarrow> nat" where
  "ahead w \<equiv> length (to_come w) + patience w"

lemma read_message_ok:
  assumes "alive w" "fs_state self = LPFSS_MESSAGE_READ" "fs_expects B self (to_come w) (m # ms)"
  obtains r self' w' where "read_message rd True try_read self w = Some (LPS_SUCCESS, r, self', w')" "alive w'"
    "r = Some m \<and> fs_expects B self' (to_come w') ms \<and> ahead w' \<le> ahead w \<or>
     r = None \<and> fs_expects B self' (to_come w') (m # ms) \<and> (if try_read then ahead w' < ahead w else self' = self \<and> w' = w)"
proof -
  have e: "fs_ok B self" "fs_pending self @ to_come w = m @ frames ms" "unat (fs_frame_len self) = length m"
    "unat (fs_buffer_pos self) + length m \<le> B"
    using assms(2,3) by (auto simp: fs_expects_def)
  show thesis
  proof (cases "length m \<le> length (fs_pending self)")
    case True
    obtain self' where "take_message self w = Some (Some (LPS_SUCCESS, Some m, self', w))" "fs_expects B self' (to_come w) ms"
      using take_message_complete[OF e(1-3) True, of w] by blast
    then show thesis using assms(1) by (intro that[of "Some m" self' w]) (auto simp: read_message_def)
  next
    case False
    then have n: "take_message self w = None" using take_message_incomplete[OF e(1,3)] by simp
    show thesis
    proof (cases try_read)
      case False
      then show thesis using n assms by (intro that[of None self w]) (auto simp: read_message_def)
    next
      case try_: True
      have "length (fs_pending self) < B" using False e(4) by simp
      from fetch_data[OF assms(1) e(1) this] obtain s self' w'
        where f: "log_proto_framed_server_fetch_data rd True self w = Some (LPS_SUCCESS, self', w')"
          "fs_ok B self'" "fs_pending self' = fs_pending self @ s" "fs_state self' = fs_state self"
          "fs_frame_len self' = fs_frame_len self" "fs_buffer_pos self' \<le> fs_buffer_pos self"
          "alive w'" "to_come w = s @ to_come w'" "to_come w \<noteq> [] \<Longrightarrow> ahead w' < ahead w" by metis
      have "to_come w \<noteq> []" using e(2) False by (auto dest: arg_cong[where f = length])
      then have less: "ahead w' < ahead w" by (rule f(9))
      have e': "fs_pending self' @ to_come w' = m @ frames ms" using f(3,8) e(2) by simp
      show thesis
      proof (cases "length m \<le> length (fs_pending self')")
        case True
        obtain self2 where "take_message self' w' = Some (Some (LPS_SUCCESS, Some m, self2, w'))" "fs_expects B self2 (to_come w') ms"
          using take_message_complete[OF f(2) e' _ True, of w'] f(5) e(3) by auto
        then show thesis using less f(1,7) n try_ by (intro that[of "Some m" self2 w']) (auto simp: read_message_def)
      next
        case short: False
        then have "take_message self' w' = None" using take_message_incomplete[OF f(2), of m w'] f(5) e(3) by simp
        moreover have "fs_expects B self' (to_come w') (m # ms)"
          using f(2,4,5,6) e' e(3,4) assms(2) by (auto simp: fs_expects_def word_le_nat_alt)
        ultimately show thesis using less f(1,7) n try_ by (intro that[of None self' w']) (auto simp: read_message_def)
      qed
    qed
  qed
qed

text \<open>The outcome of a call of the server: it delivers the next message, or it has come closer to it.\<close>

definition closer :: "nat \<Rightarrow> string list \<Rightarrow> 'w \<Rightarrow> string option \<Rightarrow> framed_server \<Rightarrow> 'w \<Rightarrow> bool" where
  "closer B msgs w r self' w' \<longleftrightarrow> alive w' \<and>
     (case r of
        Some m \<Rightarrow> (\<exists>ms. msgs = m # ms \<and> fs_expects B self' (to_come w') ms \<and> ahead w' \<le> ahead w)
      | None \<Rightarrow> fs_expects B self' (to_come w') msgs \<and> (msgs = [] \<or> ahead w' < ahead w))"

lemma read_message_closer:
  assumes "alive w" "fs_state self = LPFSS_MESSAGE_READ" "fs_expects B self (to_come w) msgs"
  shows "\<exists>r self' w'. read_message rd True True self w = Some (LPS_SUCCESS, r, self', w') \<and> closer B msgs w r self' w'"
proof -
  obtain m ms where "msgs = m # ms" using assms(2,3) by (auto simp: fs_expects_def)
  with read_message_ok[OF assms(1,2), of B m ms True] assms(3) show ?thesis by (fastforce simp: closer_def)
qed

text \<open>Once the header is complete; the stream may have advanced from \<open>w0\<close> to \<open>w\<close> before.\<close>

lemma frame_start_closer:
  assumes "fixed_buffer options B" "length m \<le> unat (po_max_msg_size options)" "alive w" "fs_ok B self"
    "fs_pending self @ to_come w = m @ frames ms" "unat (fs_frame_len self) = length m"
    "ahead w \<le> ahead w0" "try_read \<or> ahead w < ahead w0"
  shows "\<exists>r self' w'. frame_start rd options True try_read self w = Some (LPS_SUCCESS, r, self', w') \<and> closer B (m # ms) w0 r self' w'"
proof -
  have fits: "length m \<le> B" using assms(1,2) by (simp add: fixed_buffer_def)
  obtain self2 where s: "frame_start rd options True try_read self w = read_message rd True try_read self2 w"
    "fs_state self2 = LPFSS_MESSAGE_READ" "fs_expects B self2 (to_come w) (m # ms)"
    using frame_start_ok[OF fs_grow_fixed[OF assms(1) fs_ok_state[OF assms(4)]] assms(4,5,6,2) fits, where rd = rd and may_read = True and try_read = try_read and w = w] by blast
  from read_message_ok[OF assms(3) s(2,3), of try_read] obtain r self' w'
    where r: "read_message rd True try_read self2 w = Some (LPS_SUCCESS, r, self', w')" "alive w'"
    "r = Some m \<and> fs_expects B self' (to_come w') ms \<and> ahead w' \<le> ahead w \<or>
     r = None \<and> fs_expects B self' (to_come w') (m # ms) \<and> (if try_read then ahead w' < ahead w else self' = self2 \<and> w' = w)"
    by metis
  have "closer B (m # ms) w0 r self' w'" using r(2,3) assms(7,8) by (auto simp: closer_def split: if_splits)
  then show ?thesis using s(1) r(1) by auto
qed

lemma read_frame_idle:
  assumes "fixed_buffer options B" "alive w" "fs_state self = LPFSS_FRAME_READ" "fs_expects B self (to_come w) []"
  shows "\<exists>r self' w'. read_frame rd options True self w = Some (LPS_SUCCESS, r, self', w') \<and> closer B [] w r self' w'"
proof -
  have e: "fs_ok B self" "fs_pending self = []" "to_come w = []" using assms(3,4) by (auto simp: fs_expects_def)
  obtain self1 where x: "log_proto_framed_server_extract_frame_length self = Some (Header_partial, self1)" "fs_ok B self1"
    "fs_pending self1 = []" "fs_state self1 = LPFSS_FRAME_READ" using extract_empty[OF e(1,2)] assms(3) by auto
  have "length (fs_pending self1) < B" using assms(1) x(3) by (simp add: fixed_buffer_def)
  from fetch_data[OF assms(2) x(2) this] obtain s self2 w2
    where f: "log_proto_framed_server_fetch_data rd True self1 w = Some (LPS_SUCCESS, self2, w2)"
      "fs_ok B self2" "fs_pending self2 = fs_pending self1 @ s" "fs_state self2 = fs_state self1"
      "alive w2" "to_come w = s @ to_come w2" by metis
  have none: "fs_pending self2 = []" "to_come w2 = []" using f(3,6) x(3) e(3) by simp_all
  from extract_empty[OF f(2) none(1)] obtain self3
    where y: "log_proto_framed_server_extract_frame_length self2 = Some (Header_partial, self3)" "fs_ok B self3"
    "fs_pending self3 = []" "fs_state self3 = LPFSS_FRAME_READ" using f(4) x(4) by auto
  have "closer B [] w None self3 w2" using y f(5) none(2) by (simp add: closer_def fs_expects_def)
  then show ?thesis using y(1) x(1) f(1) by (auto simp: read_frame_def)
qed

lemma read_frame_closer:
  assumes "fixed_buffer options B" "length m \<le> unat (po_max_msg_size options)"
    "alive w" "fs_state self = LPFSS_FRAME_READ" "fs_expects B self (to_come w) (m # ms)"
  shows "\<exists>r self' w'. read_frame rd options True self w = Some (LPS_SUCCESS, r, self', w') \<and> closer B (m # ms) w r self' w'"
proof -
  have e: "fs_ok B self" "fs_pending self @ to_come w = frame m @ frames ms" using assms(4,5) by (auto simp: fs_expects_def)
  have m: "length m < 2 ^ 31" using assms(1,2) by (auto simp: fixed_buffer_def)
  note start = frame_start_closer[OF assms(1,2)]
  from extract_ok[OF e m] show ?thesis
  proof (elim disjE exE conjE)
    fix self1
    assume x: "log_proto_framed_server_extract_frame_length self = Some (Header_done, self1)" "fs_ok B self1"
      "fs_pending self1 @ to_come w = m @ frames ms" "unat (fs_frame_len self1) = length m"
    with start[OF assms(3) x(2-4), of w True] show ?thesis by (auto simp: read_frame_def)
  next
    fix self1
    assume x: "log_proto_framed_server_extract_frame_length self = Some (Header_partial, self1)" "fs_ok B self1"
      "fs_pending self1 = fs_pending self" "fs_state self1 = fs_state self" "length (fs_pending self) \<le> 10" "to_come w \<noteq> []"
    have "length (fs_pending self1) < B" using assms(1) x(3,5) by (simp add: fixed_buffer_def)
    from fetch_data[OF assms(3) x(2) this] obtain s self2 w2
      where f: "log_proto_framed_server_fetch_data rd True self1 w = Some (LPS_SUCCESS, self2, w2)"
        "fs_ok B self2" "fs_pending self2 = fs_pending self1 @ s" "fs_state self2 = fs_state self1"
        "alive w2" "to_come w = s @ to_come w2" "to_come w \<noteq> [] \<Longrightarrow> ahead w2 < ahead w" by metis
    note less = f(7)[OF x(6)]
    have p: "fs_pending self2 @ to_come w2 = frame m @ frames ms" using f(3,6) x(3) e(2) by simp
    from extract_ok[OF f(2) p m] show ?thesis
    proof (elim disjE exE conjE)
      fix self3
      assume y: "log_proto_framed_server_extract_frame_length self2 = Some (Header_done, self3)" "fs_ok B self3"
        "fs_pending self3 @ to_come w2 = m @ frames ms" "unat (fs_frame_len self3) = length m"
      with start[OF f(5) y(2-4), of w False] x(1) f(1) less show ?thesis by (auto simp: read_frame_def)
    next
      fix self3
      assume y: "log_proto_framed_server_extract_frame_length self2 = Some (Header_partial, self3)" "fs_ok B self3"
        "fs_pending self3 = fs_pending self2" "fs_state self3 = fs_state self2"
      then have "closer B (m # ms) w None self3 w2" using f(4,5) x(4) p less assms(4) by (simp add: closer_def fs_expects_def)
      then show ?thesis using f(1) x(1) y(1) by (auto simp: read_frame_def)
    qed
  qed
qed

lemma fetch_closer:
  assumes "fixed_buffer options B" "\<forall>m \<in> set msgs. length m \<le> unat (po_max_msg_size options)"
    "alive w" "fs_expects B (fs_alloc options self) (to_come w) msgs"
  shows "\<exists>r self' w'. log_proto_server_fetch rd options True self w = Some (LPS_SUCCESS, r, self', w') \<and> closer B msgs w r self' w'"
proof -
  let ?self = "fs_alloc options self"
  have st: "fs_status self = LPS_SUCCESS" using assms(4) by (auto simp: fs_expects_def fs_ok_def fs_alloc_def split: if_splits)
  have "\<exists>r self' w'. log_proto_framed_server_fetch rd options True self w = Some (LPS_SUCCESS, r, self', w') \<and> closer B msgs w r self' w'"
  proof (cases "fs_state ?self")
    case LPFSS_FRAME_READ
    then show ?thesis
      using read_frame_idle[OF assms(1,3), of ?self] read_frame_closer[OF assms(1) _ assms(3), of _ ?self] assms(2,4)
      by (cases msgs) (auto simp: log_proto_framed_server_fetch_def)
  next
    case LPFSS_MESSAGE_READ
    then show ?thesis using read_message_closer[OF assms(3) _ assms(4)] by (simp add: log_proto_framed_server_fetch_def)
  qed
  then show ?thesis using st by (simp add: log_proto_server_fetch_def)
qed

end

subsection \<open>Draining a connection\<close>

text \<open>A reader calls the server again and again and stops at the first status other than success.\<close>

fun fetch_all :: "('w \<Rightarrow> nat \<Rightarrow> read_rc \<times> 'w) \<Rightarrow> lps_options \<Rightarrow> nat \<Rightarrow> framed_server \<Rightarrow> 'w \<Rightarrow> (lps \<times> string list) option" where
  "fetch_all rd options 0 self w = Some (LPS_SUCCESS, [])"
| "fetch_all rd options (Suc n) self w =
     (case log_proto_server_fetch rd options True self w of
        None \<Rightarrow> None
      | Some (st, r, self', w') \<Rightarrow>
          if st \<noteq> LPS_SUCCESS then Some (st, [])
          else map_option (\<lambda>(st', ms). (st', case r of Some m \<Rightarrow> m # ms | None \<Rightarrow> ms)) (fetch_all rd options n self' w'))"

lemma fs_alloc_ok: "fs_ok B self \<Longrightarrow> fs_alloc options self = self"
  by (auto simp: fs_ok_def fs_alloc_def)

context byte_stream
begin

lemma fetch_all_ok:
  assumes "fixed_buffer options B"
  shows "\<forall>m \<in> set msgs. length m \<le> unat (po_max_msg_size options) \<Longrightarrow> alive w \<Longrightarrow>
    fs_expects B (fs_alloc options self) (to_come w) msgs \<Longrightarrow>
    \<exists>k. fetch_all rd options n self w = Some (LPS_SUCCESS, take k msgs) \<and> (length msgs + ahead w \<le> n \<longrightarrow> k = length msgs)"
proof (induction n arbitrary: self w msgs)
  case 0
  then show ?case by (intro exI[of _ 0]) simp
next
  case (Suc n)
  obtain r self' w' where f: "log_proto_server_fetch rd options True self w = Some (LPS_SUCCESS, r, self', w')"
    "closer B msgs w r self' w'" using fetch_closer[OF assms Suc.prems] by blast
  show ?case
  proof (cases r)
    case None
    then have c: "alive w'" "fs_expects B self' (to_come w') msgs" "msgs = [] \<or> ahead w' < ahead w"
      using f(2) by (auto simp: closer_def)
    then have "fs_alloc options self' = self'" using fs_alloc_ok by (auto simp: fs_expects_def)
    then obtain k where k: "fetch_all rd options n self' w' = Some (LPS_SUCCESS, take k msgs)"
      "length msgs + ahead w' \<le> n \<longrightarrow> k = length msgs" using Suc.IH[OF Suc.prems(1) c(1), of self'] c(2) by auto
    then show ?thesis using f(1) None c(3) by (intro exI[of _ "if msgs = [] then 0 else k"]) auto
  next
    case (Some m)
    then obtain ms where c: "alive w'" "fs_expects B self' (to_come w') ms" "msgs = m # ms" "ahead w' \<le> ahead w"
      using f(2) by (auto simp: closer_def)
    then have "fs_alloc options self' = self'" using fs_alloc_ok by (auto simp: fs_expects_def)
    then obtain k where k: "fetch_all rd options n self' w' = Some (LPS_SUCCESS, take k ms)"
      "length ms + ahead w' \<le> n \<longrightarrow> k = length ms" using Suc.IH[of ms w' self'] Suc.prems(1) c by auto
    then show ?thesis using f(1) Some c(3,4) by (intro exI[of _ "Suc k"]) auto
  qed
qed

end

lemma fs_expects_new:
  "fixed_buffer options B \<Longrightarrow> fs_expects B (fs_alloc options log_proto_framed_server_new) (frames msgs) msgs"
  by (simp add: fs_expects_def fs_ok_def fs_pending_def fs_mem_def fs_alloc_def log_proto_framed_server_new_def fixed_buffer_def)

text \<open>Without a character conversion the buffer has the size of the largest message from the start.\<close>

lemma default_options_fixed:
  assumes "10 < unat cfg_log_msg_size" "unat cfg_log_msg_size < 2 ^ 31"
  shows "fixed_buffer (log_proto_server_options_init cfg_log_msg_size log_proto_server_options_defaults) (unat cfg_log_msg_size)"
    "po_max_msg_size (log_proto_server_options_init cfg_log_msg_size log_proto_server_options_defaults) = cfg_log_msg_size"
  using assms
  by (simp_all add: fixed_buffer_def log_proto_server_options_init_def log_proto_server_options_defaults_def gint_min_def Let_def)

subsection \<open>Delivery\<close>

text \<open>C6: Framed messages arrive complete, unchanged and in order. Take a fresh server with the default options and
  a log_msg_size() of more than ten bytes, and a stream socket whose data are messages of at most this size, each behind its length. Then
  however the data are cut into pieces, and whatever waiting and interruptions come between, no call of the
  server fails or leaves its buffer, what has been delivered after any number of calls is an initial part of the
  messages, and after enough calls it is all of them. The same holds for a regular file.\<close>

theorem framed_server_delivers:
  assumes "10 < unat cfg_log_msg_size" "unat cfg_log_msg_size < 2 ^ 31"
    "\<forall>m \<in> set msgs. length m \<le> unat cfg_log_msg_size"
    "calm w" "stream_bytes w = concat (map frame msgs)"
    "options = log_proto_server_options_init cfg_log_msg_size log_proto_server_options_defaults"
    "rd = log_transport_stream_socket_read_method \<or> rd = log_transport_file_read_method"
  shows "\<exists>k. fetch_all rd options n log_proto_framed_server_new w = Some (LPS_SUCCESS, take k msgs) \<and>
    (length msgs + length (stream_bytes w) + length w \<le> n \<longrightarrow> k = length msgs)"
proof -
  let ?B = "unat cfg_log_msg_size"
  note opt = default_options_fixed[OF assms(1,2), folded assms(6)]
  have m: "\<forall>m \<in> set msgs. length m \<le> unat (po_max_msg_size options)" using opt(2) assms(3) by simp
  have e: "fs_expects ?B (fs_alloc options log_proto_framed_server_new) (stream_bytes w) msgs"
    using fs_expects_new[OF opt(1)] assms(5) by simp
  show ?thesis
    using assms(7) stream_socket.fetch_all_ok[OF opt(1) m assms(4) e, of n] regular_file.fetch_all_ok[OF opt(1) m assms(4) e, of n]
    by (auto simp: add.assoc)
qed

theorem framed_server_delivers_witness:
  "\<exists>k. fetch_all log_transport_stream_socket_read_method (log_proto_server_options_init 8192 log_proto_server_options_defaults) 22
     log_proto_framed_server_new [Rdata ''3 a'', Rerrno EAGAIN, Rdata ''bc0 '', Rerrno EINTR, Rdata ''2 de''] =
     Some (LPS_SUCCESS, take k [''abc'', [], ''de'']) \<and> k = 3"
proof -
  have "rdigs 10 (Suc (Suc (Suc 0))) = ''3''" "rdigs 10 (Suc (Suc 0)) = ''2''" "rdigs 10 0 = ''0''"
    by (subst rdigs.simps, simp add: digits_def)+
  then show ?thesis
    using framed_server_delivers[of 8192 "[''abc'', [], ''de'']"
        "[Rdata ''3 a'', Rerrno EAGAIN, Rdata ''bc0 '', Rerrno EINTR, Rdata ''2 de'']" _ log_transport_stream_socket_read_method 22, OF _ _ _ _ _ refl]
    by (simp add: calm_def frame_def)
qed

subsection \<open>Growing the buffer\<close>

text \<open>With a character conversion the buffer may grow up to six times its size. The new size is
  computed from the frame alone, and may be smaller than what the buffer holds.\<close>

definition converting_options :: "guint32 \<Rightarrow> string \<Rightarrow> lps_options" where
  "converting_options cfg_log_msg_size encoding =
     log_proto_server_options_init cfg_log_msg_size (log_proto_server_options_defaults\<lparr>po_encoding := Some encoding\<rparr>)"

lemma converting_options_sizes:
  assumes "6 * unat cfg_log_msg_size < 2 ^ 31"
  shows "po_init_buffer_size (converting_options cfg_log_msg_size e) = cfg_log_msg_size"
    "po_max_msg_size (converting_options cfg_log_msg_size e) = cfg_log_msg_size"
    "unat (po_max_buffer_size (converting_options cfg_log_msg_size e)) = 6 * unat cfg_log_msg_size"
proof -
  have u: "unat (6 * cfg_log_msg_size) = 6 * unat cfg_log_msg_size" using assms by (simp add: unat_word_ariths(2))
  have "sint v = int (unat v)" if "unat v < 2 ^ 31" for v :: guint32
  proof -
    have "uint v = int (unat v)" by simp
    then have "uint v < 2 ^ 31" using that by (simp del: of_nat_unat)
    moreover have "- (2 ^ 31) \<le> uint v" using order_trans[OF _ uint_ge_0[of v]] by simp
    ultimately show ?thesis by (simp add: sint_uint signed_take_bit_int_eq_self)
  qed
  note this[of cfg_log_msg_size] this[of "6 * cfg_log_msg_size"]
  then have "sint cfg_log_msg_size = int (unat cfg_log_msg_size)" "sint (6 * cfg_log_msg_size) = 6 * int (unat cfg_log_msg_size)"
    using assms u by (simp_all del: of_nat_unat)
  then show "po_init_buffer_size (converting_options cfg_log_msg_size e) = cfg_log_msg_size"
    "po_max_msg_size (converting_options cfg_log_msg_size e) = cfg_log_msg_size"
    "unat (po_max_buffer_size (converting_options cfg_log_msg_size e)) = 6 * unat cfg_log_msg_size"
    using u by (auto simp: converting_options_def log_proto_server_options_init_def log_proto_server_options_defaults_def gint_min_def Let_def word_unat_eq_iff simp del: of_nat_unat)
qed

lemma fetch_shrunk:
  assumes "fs_expects B self later [m]" "fs_state self = LPFSS_FRAME_READ"
    "length (rdigs 10 (length m)) < length (fs_pending self)"
    "length m \<le> unat (po_max_msg_size options)" "B < unat (po_max_buffer_size options)" "16 * (length m + 10) \<le> B"
    "h = unat (fs_buffer_pos self) + Suc (length (rdigs 10 (length m)))" "B < h + length m" "16 * (length m + 10) < h"
  shows "log_proto_server_fetch rd options may_read self w = None"
proof -
  have ok: "fs_ok B self" "fs_pending self @ later = frame m @ []" "length m < 2 ^ 31"
    using assms(1,2,6) by (auto simp: fs_expects_def fs_ok_def)
  obtain self' where x: "log_proto_framed_server_extract_frame_length self = Some (Header_done, self')" "fs_ok B self'"
    "unat (fs_frame_len self') = length m" "unat (fs_buffer_pos self') = h"
    using extract_ok[OF ok] assms(3,7) by auto
  let ?self = "self'\<lparr>fs_state := LPFSS_MESSAGE_READ\<rparr>" and ?n = "16 * (fs_frame_len self' + 10) :: guint32"
  have B: "unat (fs_buffer_size self') = B" "h \<le> unat (fs_buffer_end self')" "unat (fs_buffer_end self') \<le> B" "B < 2 ^ 31"
    using x(2,4) by (auto simp: fs_ok_def word_le_nat_alt)
  have n: "unat ?n = 16 * (length m + 10)" using x(3) assms(6) B(4) by (simp add: unat_word_ariths)
  have "fs_buffer_size self' < po_max_buffer_size options" using assms(5) B(1) by (simp add: word_less_nat_alt)
  moreover have "fs_frame_len self' > fs_buffer_size self' - fs_buffer_pos self'"
    using assms(8) B x(3,4) by (simp add: word_less_nat_alt word_le_nat_alt unat_sub)
  moreover have "\<not> ?n > po_max_buffer_size options" using n assms(5,6) by (simp add: word_less_nat_alt)
  ultimately have grow: "fs_grow options ?self = ?self\<lparr>fs_buffer_size := ?n, fs_buffer := Some (mem_realloc (fs_mem self') (unat ?n))\<rparr>"
    by (simp add: fs_grow_def fs_mem_def Let_def)
  have "length (mem_realloc (fs_mem self') (unat ?n)) = unat ?n" by (simp add: mem_realloc_def min_def)
  then have "fs_shift (fs_grow options ?self) = None"
    unfolding grow using n B x(4) assms(9) by (simp add: fs_shift_def move_front_def mem_slice_def fs_mem_def unat_sub word_le_nat_alt)
  moreover have "fs_buffer_pos (fs_grow options ?self) + fs_frame_len (fs_grow options ?self) > fs_buffer_size (fs_grow options ?self)"
    unfolding grow using n x(3,4) B assms(6,9) by (simp add: word_less_nat_alt unat_word_ariths(1))
  moreover have "\<not> fs_frame_len self' > po_max_msg_size options" using x(3) assms(4) by (simp add: word_less_nat_alt)
  ultimately have "frame_start rd options may_read True self' w = None" by (simp add: frame_start_def Let_def)
  then show ?thesis
    using x(1) assms(2) ok(1) by (simp add: log_proto_server_fetch_def log_proto_framed_server_fetch_def read_frame_def fs_alloc_ok) (simp add: fs_ok_def)
qed

lemma header_loop_none: "header_loop mem p p p n = Frame_partial n"
  by (subst header_loop.simps) simp

text \<open>The first call on a connection whose first piece fills the buffer.\<close>

lemma fetch_first:
  assumes B: "unat (po_init_buffer_size options) = B" "10 < B" "B < 2 ^ 31" "B < length s"
    and m: "s = frame m @ frames ms" "length (frame m) \<le> B" "length m \<le> unat (po_max_msg_size options)"
  obtains self' where "log_proto_server_fetch log_transport_stream_socket_read_method options True log_proto_framed_server_new [Rdata s] =
      Some (LPS_SUCCESS, Some m, self', [Rdata (drop B s)])"
    "fs_expects B self' (drop B s) ms" "fs_state self' = LPFSS_FRAME_READ" "unat (fs_buffer_pos self') = length (frame m)"
proof -
  define self0 where "self0 = fs_alloc options log_proto_framed_server_new"
  have self0: "fs_ok B self0" "fs_pending self0 = []" "fs_buffer_pos self0 = 0" "fs_buffer_end self0 = 0" "fs_state self0 = LPFSS_FRAME_READ"
    "fs_buffer_size self0 \<noteq> 0" "fs_frame_len self0 = 0"
    using B by (auto simp: self0_def fs_alloc_def log_proto_framed_server_new_def fs_ok_def fs_pending_def fs_mem_def)
  have x0: "log_proto_framed_server_extract_frame_length self0 = Some (Header_partial, self0)"
    using self0(3,4,7) by (simp add: log_proto_framed_server_extract_frame_length_def header_loop_none)
  have room: "fs_make_room self0 = Some self0" using self0 by (simp add: fs_make_room_def)
  have "unat (fs_buffer_end self0) + length (take B s) \<le> B" using self0(4) by simp
  from fs_store[OF self0(1) this] obtain mem where mem: "mem_write (fs_mem self0) (unat (fs_buffer_end self0)) (take B s) = Some mem" by blast
  define self2 where "self2 = self0\<lparr>fs_buffer := Some mem, fs_buffer_end := fs_buffer_end self0 + of_nat (length (take B s))\<rparr>"
  have self2: "fs_ok B self2" "fs_pending self2 = take B s" "fs_buffer_pos self2 = 0" "fs_state self2 = LPFSS_FRAME_READ"
    using fs_store[OF self0(1), of "take B s"] mem self0 by (auto simp: self2_def)
  have f: "log_proto_framed_server_fetch_data log_transport_stream_socket_read_method True self0 [Rdata s] = Some (LPS_SUCCESS, self2, [Rdata (drop B s)])"
    using self0(1,4) mem B by (cases s) (auto simp add: fetch_data_room room fs_read_def self2_def fs_ok_def)
  have p: "fs_pending self2 @ drop B s = frame m @ frames ms" using self2(2) by (metis append_take_drop_id m(1))
  have "length m < 2 ^ 31" using m(2) B(3) by (simp add: frame_def)
  from extract_ok[OF self2(1) p this] obtain self3
    where x: "log_proto_framed_server_extract_frame_length self2 = Some (Header_done, self3)" "fs_ok B self3"
      "fs_pending self3 @ drop B s = m @ frames ms" "unat (fs_frame_len self3) = length m"
      "unat (fs_buffer_pos self3) = Suc (length (rdigs 10 (length m)))"
    using self2(2,3) B(2,4) by auto
  let ?self = "self3\<lparr>fs_state := LPFSS_MESSAGE_READ\<rparr>"
  have sum: "unat (fs_buffer_pos self3) + length m = length (frame m)" using x(5) by (simp add: frame_def)
  have size: "unat (fs_buffer_size self3) = B" "fs_buffer_pos self3 \<le> fs_buffer_size self3"
    using x(2) by (auto simp: fs_ok_def word_le_nat_alt)
  have "\<not> fs_frame_len self3 > fs_buffer_size self3 - fs_buffer_pos self3"
    using sum m(2) size x(4) by (simp add: word_less_nat_alt unat_sub)
  then have "fs_grow options ?self = ?self" by (simp add: fs_grow_def)
  moreover have "\<not> fs_buffer_pos self3 + fs_frame_len self3 > fs_buffer_size self3"
    using sum m(2) size B(3) x(4) by (simp add: word_less_nat_alt unat_word_ariths(1))
  moreover have "\<not> fs_frame_len self3 > po_max_msg_size options" using x(4) m(3) by (simp add: word_less_nat_alt)
  ultimately have start: "frame_start rd options may_read try_read self3 w = read_message rd may_read try_read ?self w" for rd may_read try_read and w :: "os_read list"
    by (simp add: frame_start_def Let_def)
  have ok: "fs_ok B ?self" "fs_pending ?self = fs_pending self3" using x(2) by (auto simp: fs_ok_def fs_pending_def fs_mem_def)
  have "length (fs_pending self3) + (length s - B) = length s - Suc (length (rdigs 10 (length m)))"
    using arg_cong[OF x(3), of length] m(1) by (simp add: frame_def)
  then have "length m \<le> length (fs_pending ?self)" using ok(2) sum x(5) m(2) B(4) by simp
  from take_message_complete[OF ok(1) _ _ this, of "drop B s" ms "[Rdata (drop B s)]"] obtain self'
    where "take_message ?self [Rdata (drop B s)] = Some (Some (LPS_SUCCESS, Some m, self', [Rdata (drop B s)]))"
      "fs_expects B self' (drop B s) ms" "fs_state self' = LPFSS_FRAME_READ" "unat (fs_buffer_pos self') = length (frame m)"
    using x(3,4) ok(2) sum by auto
  moreover have "fs_status log_proto_framed_server_new = LPS_SUCCESS" by (simp add: log_proto_framed_server_new_def)
  ultimately show thesis using x(1) x0 f start self0(5)
    by (intro that) (simp_all add: log_proto_server_fetch_def log_proto_framed_server_fetch_def read_frame_def read_message_def flip: self0_def)
qed

text \<open>C12: The buffer of the framed server can shrink under its contents. With an encoding() the buffer starts
  at log_msg_size() and may grow up to six times this size. When the body of a frame does not fit
  behind the current position the new size is sixteen times the frame, even if this is less than
  before. Two permitted messages in one piece of input show it: the first is delivered, and if the second is
  short and its header is near the end of the buffer, the next call of the server reads from
  behind the end of the reallocated buffer.\<close>

theorem framed_server_shrinks_buffer:
  assumes "10 < unat cfg_log_msg_size" "6 * unat cfg_log_msg_size < 2 ^ 31"
    "length m1 \<le> unat cfg_log_msg_size" "length m2 \<le> unat cfg_log_msg_size"
    "header_end = length (frame m1) + (length (frame m2) - length m2)"
    "header_end \<le> unat cfg_log_msg_size" "unat cfg_log_msg_size < header_end + length m2" "16 * (length m2 + 10) < header_end"
  shows "fetch_all log_transport_stream_socket_read_method (converting_options cfg_log_msg_size encoding) 1
           log_proto_framed_server_new [Rdata (frame m1 @ frame m2)] = Some (LPS_SUCCESS, [m1]) \<and>
         fetch_all log_transport_stream_socket_read_method (converting_options cfg_log_msg_size encoding) 2
           log_proto_framed_server_new [Rdata (frame m1 @ frame m2)] = None"
proof -
  let ?B = "unat cfg_log_msg_size" and ?s = "frame m1 @ frames [m2]" and ?o = "converting_options cfg_log_msg_size encoding"
  note opt = converting_options_sizes[OF assms(2), of encoding]
  have h: "length (frame m2) - length m2 = Suc (length (rdigs 10 (length m2)))" by (simp add: frame_def)
  have B: "unat (po_init_buffer_size ?o) = ?B" "?B < 2 ^ 31" "?B < length ?s" "length (frame m1) \<le> ?B" "length m1 \<le> unat (po_max_msg_size ?o)"
    using opt assms by (auto simp: frame_def)
  obtain self' where f: "log_proto_server_fetch log_transport_stream_socket_read_method ?o True log_proto_framed_server_new [Rdata ?s] =
      Some (LPS_SUCCESS, Some m1, self', [Rdata (drop ?B ?s)])" "fs_expects ?B self' (drop ?B ?s) [m2]"
    "fs_state self' = LPFSS_FRAME_READ" "unat (fs_buffer_pos self') = length (frame m1)"
    by (rule fetch_first[OF B(1) assms(1) B(2,3) refl B(4,5)])
  have "length (fs_pending self') + (length ?s - ?B) = length (frame m2)"
    using f(2,3) by (auto simp: fs_expects_def dest!: arg_cong[where f = length])
  then have "length (rdigs 10 (length m2)) < length (fs_pending self')" using assms(5-7) h B(3) by simp
  then have "log_proto_server_fetch log_transport_stream_socket_read_method ?o True self' [Rdata (drop ?B ?s)] = None"
    using fetch_shrunk[OF f(2,3), of ?o header_end] assms(1,4-8) opt f(4) h by simp
  then show ?thesis using f(1) by (simp add: numeral_2_eq_2)
qed

theorem framed_server_shrinks_buffer_witness:
  "let m1 = replicate 8150 CHR ''x''; m2 = replicate 40 CHR ''y'' in
     fetch_all log_transport_stream_socket_read_method (converting_options 8192 ''iso-8859-2'') 2
       log_proto_framed_server_new [Rdata (frame m1 @ frame m2)] = None"
proof -
  have "length (rdigs 10 8150) = 4" "length (rdigs 10 40) = 2" by (subst rdigs.simps, simp)+
  then show ?thesis
    using framed_server_shrinks_buffer[of 8192 "replicate 8150 CHR ''x''" "replicate 40 CHR ''y''" 8158 "''iso-8859-2''"]
    by (simp add: frame_def)
qed

end
