(* ===== verification/Log_Proto_Client.thy ===== *)
theory Log_Proto_Client
  imports Log_Proto_Framed
begin

text \<open>
  The sending side of the text and the framed protocol (\<^verbatim>\<open>lib/logproto-text-client.c\<close>,
  \<^verbatim>\<open>lib/logproto-framed-client.c\<close>). A client keeps at most one piece of text that the transport has not
  accepted yet, and the state that it enters when that piece is out. The framed client sends a header
  and then the message. The writing function of the transport is an argument.

  The locale \<open>byte_sink\<close> is what the clients rely on: an accepted initial part of the text is appended to
  what was sent before.
\<close>

subsection \<open>The text client\<close>

datatype lpfcs = LPFCS_FRAME_SEND | LPFCS_MESSAGE_SEND

text \<open>The next state \<open>None\<close> is the value -1, for no change.\<close>

record text_client =
  tc_state :: lpfcs
  tc_next_state :: "lpfcs option"
  tc_partial :: "string option"
  tc_partial_pos :: nat

definition log_proto_text_client_new :: text_client where
  "log_proto_text_client_new = \<lparr>tc_state = LPFCS_FRAME_SEND, tc_next_state = None, tc_partial = None, tc_partial_pos = 0\<rparr>"

definition log_proto_text_client_prepare :: "text_client \<Rightarrow> bool" where
  "log_proto_text_client_prepare self \<longleftrightarrow> tc_partial self \<noteq> None"

type_synonym 'd client_result = "lps \<times> text_client \<times> 'd"

definition log_proto_text_client_flush :: "('d \<Rightarrow> string \<Rightarrow> write_rc \<times> 'd) \<Rightarrow> text_client \<Rightarrow> 'd \<Rightarrow> 'd client_result" where
  "log_proto_text_client_flush wr self d =
     (case tc_partial self of
        None \<Rightarrow> (LPS_SUCCESS, self, d)
      | Some text \<Rightarrow>
          let buf = drop (tc_partial_pos self) text
          in case wr d buf of
               (Wfail e, d') \<Rightarrow> (if e \<noteq> EAGAIN \<and> e \<noteq> EINTR then LPS_ERROR else LPS_SUCCESS, self, d')
             | (Put rc, d') \<Rightarrow>
                 if rc \<noteq> length buf then (LPS_SUCCESS, self\<lparr>tc_partial_pos := tc_partial_pos self + rc\<rparr>, d')
                 else (LPS_SUCCESS,
                       (case tc_next_state self of
                          Some st \<Rightarrow> self\<lparr>tc_partial := None, tc_state := st, tc_next_state := None\<rparr>
                        | None \<Rightarrow> self\<lparr>tc_partial := None\<rparr>), d'))"

text \<open>\<open>None\<close> is the failing assertion that nothing is left to be sent.\<close>

definition log_proto_text_client_submit_write ::
    "('d \<Rightarrow> string \<Rightarrow> write_rc \<times> 'd) \<Rightarrow> text_client \<Rightarrow> string \<Rightarrow> lpfcs option \<Rightarrow> 'd \<Rightarrow> 'd client_result option" where
  "log_proto_text_client_submit_write wr self msg next_state d =
     (if tc_partial self \<noteq> None then None
      else Some (log_proto_text_client_flush wr
             (self\<lparr>tc_partial := Some msg, tc_partial_pos := 0, tc_next_state := next_state\<rparr>) d))"

text \<open>The second component of a post tells whether the client has taken over the message.\<close>

definition log_proto_text_client_post ::
    "('d \<Rightarrow> string \<Rightarrow> write_rc \<times> 'd) \<Rightarrow> text_client \<Rightarrow> string \<Rightarrow> 'd \<Rightarrow> (bool \<times> 'd client_result) option" where
  "log_proto_text_client_post wr self msg d =
     (case log_proto_text_client_flush wr self d of (rc, self', d') \<Rightarrow>
        if rc = LPS_ERROR \<or> tc_partial self' \<noteq> None then Some (False, rc, self', d')
        else map_option (Pair True) (log_proto_text_client_submit_write wr self' msg None d'))"

subsection \<open>The framed client\<close>

definition clip :: "string \<Rightarrow> string" where
  "clip msg = take 9999999 msg"

definition frame_hdr :: "nat \<Rightarrow> string" where
  "frame_hdr msg_len = rev (rdigs 10 msg_len) @ '' ''"

lemma flush_state:
  "log_proto_text_client_flush wr (self\<lparr>tc_partial := Some p, tc_partial_pos := n, tc_next_state := Some st\<rparr>) d = (rc, self', d') \<Longrightarrow>
   tc_partial self' \<noteq> None \<or> tc_state self' = st"
  by (auto simp: log_proto_text_client_flush_def Let_def split: option.splits prod.splits write_rc.splits if_splits)

function framed_post_loop ::
    "('d \<Rightarrow> string \<Rightarrow> write_rc \<times> 'd) \<Rightarrow> text_client \<Rightarrow> string \<Rightarrow> lps \<Rightarrow> bool \<Rightarrow> 'd \<Rightarrow> (bool \<times> 'd client_result) option" where
  "framed_post_loop wr self msg rc consumed d =
     (if rc = LPS_SUCCESS \<and> \<not> consumed \<and> tc_partial self = None then
        (case tc_state self of
           LPFCS_FRAME_SEND \<Rightarrow>
             (case log_proto_text_client_submit_write wr self (frame_hdr (length msg)) (Some LPFCS_MESSAGE_SEND) d of
                None \<Rightarrow> None
              | Some (rc', self', d') \<Rightarrow> framed_post_loop wr self' msg rc' consumed d')
         | LPFCS_MESSAGE_SEND \<Rightarrow>
             (case log_proto_text_client_submit_write wr self msg (Some LPFCS_FRAME_SEND) d of
                None \<Rightarrow> None
              | Some (rc', self', d') \<Rightarrow> framed_post_loop wr self' msg rc' True d'))
      else Some (consumed, rc, self, d))"
  by pat_completeness auto
termination
  by (relation "measure (\<lambda>(wr, self, msg, rc, consumed, d).
        if consumed then 0 else if tc_partial self \<noteq> None then 1 else if tc_state self = LPFCS_MESSAGE_SEND then 2 else 3)")
     (auto simp: log_proto_text_client_submit_write_def dest: flush_state)

declare framed_post_loop.simps [simp del]

definition log_proto_framed_client_post ::
    "('d \<Rightarrow> string \<Rightarrow> write_rc \<times> 'd) \<Rightarrow> text_client \<Rightarrow> string \<Rightarrow> 'd \<Rightarrow> (bool \<times> 'd client_result) option" where
  "log_proto_framed_client_post wr self msg d = framed_post_loop wr self (clip msg) LPS_SUCCESS False d"

text \<open>The header buffer has nine bytes, the terminator included.\<close>

lemma frame_hdr_fits: "length (frame_hdr (length (clip msg))) < 9"
  using rdigs_length[of 10 "length (clip msg)" 6] by (auto simp: frame_hdr_def clip_def min_def)

lemma frame_hdr_frame: "frame m = frame_hdr (length m) @ m"
  by (simp add: frame_def frame_hdr_def)

subsection \<open>What is sent\<close>

locale byte_sink =
  fixes wr :: "'d \<Rightarrow> string \<Rightarrow> write_rc \<times> 'd" and sent :: "'d \<Rightarrow> string"
  assumes put: "wr d buf = (Put k, d') \<Longrightarrow> k \<le> length buf \<and> sent d' = sent d @ take k buf"
    and refused: "wr d buf = (Wfail e, d') \<Longrightarrow> sent d' = sent d"

text \<open>The part of the text that the client still has to send.\<close>

definition unsent :: "text_client \<Rightarrow> string" where
  "unsent self = (case tc_partial self of Some text \<Rightarrow> drop (tc_partial_pos self) text | None \<Rightarrow> [])"

definition state_after :: "text_client \<Rightarrow> lpfcs" where
  "state_after self = (if tc_partial self = None then tc_state self
     else case tc_next_state self of Some st \<Rightarrow> st | None \<Rightarrow> tc_state self)"

context byte_sink
begin

text \<open>Flushing sends a part of the rest and changes nothing else.\<close>

lemma flush_sends:
  assumes "log_proto_text_client_flush wr self d = (rc, self', d')"
  shows "sent d' @ unsent self' = sent d @ unsent self \<and> state_after self' = state_after self \<and>
    (tc_partial self' = None \<or> tc_next_state self' = tc_next_state self)"
proof (cases "tc_partial self")
  case None
  then show ?thesis using assms by (auto simp: log_proto_text_client_flush_def)
next
  case (Some piece)
  obtain a d2 where w: "wr d (drop (tc_partial_pos self) piece) = (a, d2)" by fastforce
  show ?thesis
  proof (cases a)
    case (Put k)
    note k = put[OF w[unfolded Put]]
    have "take k (drop (tc_partial_pos self) piece) @ drop (k + tc_partial_pos self) piece = drop (tc_partial_pos self) piece"
      by (simp add: append_take_drop_id flip: drop_drop)
    with k show ?thesis using assms Some w Put
      by (auto simp: log_proto_text_client_flush_def Let_def unsent_def state_after_def add.commute split: option.splits if_splits)
  next
    case (Wfail e)
    with refused[of d "drop (tc_partial_pos self) piece" e d2] w show ?thesis using assms Some
      by (auto simp: log_proto_text_client_flush_def Let_def unsent_def state_after_def split: if_splits)
  qed
qed

end

text \<open>The framed client between two posts: \<open>F\<close> is what the messages taken over so far amount to, and \<open>m\<close> is the next
  message, whose header may have been taken over already.\<close>

definition framed_stream :: "string \<Rightarrow> string \<Rightarrow> text_client \<Rightarrow> string \<Rightarrow> bool" where
  "framed_stream F m self out \<longleftrightarrow>
     out @ unsent self = F @ (if state_after self = LPFCS_MESSAGE_SEND then frame_hdr (length (clip m)) else []) \<and>
     (tc_partial self \<noteq> None \<longrightarrow> tc_next_state self \<noteq> None)"

lemma framed_stream_new: "framed_stream [] m log_proto_text_client_new []"
  by (simp add: framed_stream_def log_proto_text_client_new_def unsent_def state_after_def)

lemma framed_stream_any: "framed_stream F m self out \<Longrightarrow> state_after self = LPFCS_FRAME_SEND \<Longrightarrow> framed_stream F m' self out"
  by (simp add: framed_stream_def)

context byte_sink
begin

lemma flush_stream:
  assumes "framed_stream F m self (sent d)" "log_proto_text_client_flush wr self d = (rc, self', d')"
  shows "framed_stream F m self' (sent d')"
proof (cases "tc_partial self = None")
  case True
  then show ?thesis using assms by (simp add: log_proto_text_client_flush_def)
next
  case False
  then have n: "tc_next_state self \<noteq> None" using assms(1) by (simp add: framed_stream_def)
  note f = flush_sends[OF assms(2)]
  then have "sent d' @ unsent self' = F @ (if state_after self' = LPFCS_MESSAGE_SEND then frame_hdr (length (clip m)) else [])"
    using assms(1) by (simp only: framed_stream_def)
  moreover have "tc_partial self' \<noteq> None \<longrightarrow> tc_next_state self' \<noteq> None" using f n by auto
  ultimately show ?thesis unfolding framed_stream_def by blast
qed

lemma submit_sends:
  assumes "tc_partial self = None"
  obtains rc self' d' where "log_proto_text_client_submit_write wr self msg (Some st) d = Some (rc, self', d')"
    "sent d' @ unsent self' = sent d @ msg" "state_after self' = st" "tc_partial self' \<noteq> None \<longrightarrow> tc_next_state self' = Some st"
proof -
  let ?self = "self\<lparr>tc_partial := Some msg, tc_partial_pos := 0, tc_next_state := Some st\<rparr>"
  obtain rc self' d' where f: "log_proto_text_client_flush wr ?self d = (rc, self', d')" using prod_cases3 by blast
  with flush_sends[OF f] assms show thesis
    by (intro that[of rc self' d']) (auto simp: log_proto_text_client_submit_write_def unsent_def state_after_def)
qed

lemma post_message:
  assumes "framed_stream F m self (sent d)" "tc_partial self = None" "tc_state self = LPFCS_MESSAGE_SEND"
  obtains rc self' d' where "framed_post_loop wr self (clip m) LPS_SUCCESS False d = Some (True, rc, self', d')"
    "framed_stream (F @ frame (clip m)) m' self' (sent d')" "state_after self' = LPFCS_FRAME_SEND"
proof -
  obtain rc self' d' where s: "log_proto_text_client_submit_write wr self (clip m) (Some LPFCS_FRAME_SEND) d = Some (rc, self', d')"
    "sent d' @ unsent self' = sent d @ clip m" "state_after self' = LPFCS_FRAME_SEND" "tc_partial self' \<noteq> None \<longrightarrow> tc_next_state self' = Some LPFCS_FRAME_SEND"
    by (rule submit_sends[OF assms(2)])
  have "framed_post_loop wr self' (clip m) rc True d' = Some (True, rc, self', d')" by (subst framed_post_loop.simps) simp
  then have "framed_post_loop wr self (clip m) LPS_SUCCESS False d = Some (True, rc, self', d')"
    using assms(2,3) s(1) by (subst framed_post_loop.simps) simp
  moreover have "framed_stream (F @ frame (clip m)) m' self' (sent d')"
    using s(2-4) assms by (auto simp: framed_stream_def frame_hdr_frame unsent_def state_after_def)
  ultimately show thesis using s(3) that by blast
qed

text \<open>A post never fails its assertion. It takes over the whole frame, or leaves the message to the caller with at
  most the header taken over.\<close>

lemma post_stream:
  assumes "framed_stream F m self (sent d)"
  obtains consumed rc self' d' where "log_proto_framed_client_post wr self m d = Some (consumed, rc, self', d')"
    "if consumed then state_after self' = LPFCS_FRAME_SEND \<and> (\<forall>m'. framed_stream (F @ frame (clip m)) m' self' (sent d'))
     else framed_stream F m self' (sent d')"
proof (cases "tc_partial self = None")
  case False
  then have "log_proto_framed_client_post wr self m d = Some (False, LPS_SUCCESS, self, d)"
    unfolding log_proto_framed_client_post_def by (subst framed_post_loop.simps) auto
  then show thesis using assms by (intro that[of False]) auto
next
  case None: True
  show thesis
  proof (cases "tc_state self")
    case LPFCS_MESSAGE_SEND
    obtain rc self' d' where p: "framed_post_loop wr self (clip m) LPS_SUCCESS False d = Some (True, rc, self', d')"
      "framed_stream (F @ frame (clip m)) m self' (sent d')" "state_after self' = LPFCS_FRAME_SEND"
      by (rule post_message[OF assms None LPFCS_MESSAGE_SEND])
    then show thesis using framed_stream_any
      by (intro that[of True rc self' d']) (auto simp: log_proto_framed_client_post_def)
  next
    case LPFCS_FRAME_SEND
    obtain rc self1 d1 where s: "log_proto_text_client_submit_write wr self (frame_hdr (length (clip m))) (Some LPFCS_MESSAGE_SEND) d = Some (rc, self1, d1)"
      "sent d1 @ unsent self1 = sent d @ frame_hdr (length (clip m))" "state_after self1 = LPFCS_MESSAGE_SEND"
      "tc_partial self1 \<noteq> None \<longrightarrow> tc_next_state self1 = Some LPFCS_MESSAGE_SEND"
      by (rule submit_sends[OF None])
    have step: "framed_post_loop wr self (clip m) LPS_SUCCESS False d = framed_post_loop wr self1 (clip m) rc False d1"
      using None LPFCS_FRAME_SEND s(1) by (subst framed_post_loop.simps) simp
    have f1: "framed_stream F m self1 (sent d1)"
      using s(2-4) assms None LPFCS_FRAME_SEND by (auto simp: framed_stream_def unsent_def state_after_def)
    show thesis
    proof (cases "rc = LPS_SUCCESS \<and> tc_partial self1 = None")
      case True
      then have st: "tc_state self1 = LPFCS_MESSAGE_SEND" using s(3) by (simp add: state_after_def)
      obtain rc' self' d' where p: "framed_post_loop wr self1 (clip m) LPS_SUCCESS False d1 = Some (True, rc', self', d')"
        "framed_stream (F @ frame (clip m)) m self' (sent d')" "state_after self' = LPFCS_FRAME_SEND"
        using True by (blast intro: post_message[OF f1 _ st])
      then show thesis using framed_stream_any step True
        by (intro that[of True rc' self' d']) (auto simp: log_proto_framed_client_post_def)
    next
      case False
      then have "framed_post_loop wr self1 (clip m) rc False d1 = Some (False, rc, self1, d1)" by (subst framed_post_loop.simps) auto
      then show thesis using step f1 by (intro that[of False rc self1 d1]) (auto simp: log_proto_framed_client_post_def)
    qed
  qed
qed

end

text \<open>A sink that never breaks, only makes the client wait.\<close>

locale calm_sink = byte_sink +
  fixes quiet :: "'d \<Rightarrow> bool"
  assumes quiet_put: "quiet d \<Longrightarrow> wr d buf = (Put k, d') \<Longrightarrow> quiet d'"
    and quiet_refused: "quiet d \<Longrightarrow> wr d buf = (Wfail e, d') \<Longrightarrow> quiet d' \<and> (e = EAGAIN \<or> e = EINTR)"
begin

lemma flush_calm:
  "quiet d \<Longrightarrow> log_proto_text_client_flush wr self d = (rc, self', d') \<Longrightarrow> rc = LPS_SUCCESS \<and> quiet d'"
  by (auto simp: log_proto_text_client_flush_def Let_def split: option.splits prod.splits write_rc.splits if_splits
      dest: quiet_put quiet_refused)

lemma loop_calm:
  "framed_post_loop w self msg rc consumed d = Some (consumed', rc', self', d') \<Longrightarrow> w = wr \<Longrightarrow> rc = LPS_SUCCESS \<Longrightarrow> quiet d \<Longrightarrow>
   rc' = LPS_SUCCESS \<and> quiet d'"
proof (induction w self msg rc consumed d arbitrary: consumed' rc' self' d' rule: framed_post_loop.induct)
  case (1 w self msg rc consumed d)
  show ?case
  proof (cases "rc = LPS_SUCCESS \<and> \<not> consumed \<and> tc_partial self = None")
    case False
    then show ?thesis using "1.prems" by (subst (asm) framed_post_loop.simps) (auto split: if_splits)
  next
    case True
    have sub: "rc2 = LPS_SUCCESS \<and> quiet d2" if "log_proto_text_client_submit_write w self t st d = Some (rc2, self2, d2)" for t st rc2 self2 d2
      using that flush_calm[OF "1.prems"(4)] "1.prems"(2) True by (auto simp: log_proto_text_client_submit_write_def)
    show ?thesis
    proof (cases "tc_state self")
      case LPFCS_FRAME_SEND
      then obtain rc2 self2 d2 where "log_proto_text_client_submit_write w self (frame_hdr (length msg)) (Some LPFCS_MESSAGE_SEND) d = Some (rc2, self2, d2)"
        "framed_post_loop w self2 msg rc2 consumed d2 = Some (consumed', rc', self', d')"
        using "1.prems"(1) True by (subst (asm) framed_post_loop.simps) (auto split: option.splits)
      note s = this
      show ?thesis using "1.IH"(1)[OF True LPFCS_FRAME_SEND s(1) refl refl s(2) "1.prems"(2)] sub[OF s(1)] by simp
    next
      case LPFCS_MESSAGE_SEND
      then obtain rc2 self2 d2 where "log_proto_text_client_submit_write w self msg (Some LPFCS_FRAME_SEND) d = Some (rc2, self2, d2)"
        "framed_post_loop w self2 msg rc2 True d2 = Some (consumed', rc', self', d')"
        using "1.prems"(1) True by (subst (asm) framed_post_loop.simps) (auto split: option.splits)
      note s = this
      show ?thesis using "1.IH"(2)[OF True LPFCS_MESSAGE_SEND s(1) refl refl s(2) "1.prems"(2)] sub[OF s(1)] by simp
    qed
  qed
qed

lemma post_calm:
  "log_proto_framed_client_post wr self m d = Some (consumed, rc, self', d') \<Longrightarrow> quiet d \<Longrightarrow> rc = LPS_SUCCESS \<and> quiet d'"
  using loop_calm by (auto simp: log_proto_framed_client_post_def)

end

lemma stream_write_Cons [simp]:
  "log_transport_stream_socket_write_method ([], out) buf = (Wfail EAGAIN, ([], out))"
  "log_transport_stream_socket_write_method (Wrote k # w, out) buf = (Put (min k (length buf)), (w, out @ take k buf))"
  "log_transport_stream_socket_write_method (Werrno e # w, out) buf =
     (if e = EINTR then log_transport_stream_socket_write_method (w, out) buf else (Wfail e, (w, out)))"
  by (subst log_transport_stream_socket_write_method.simps, simp)+

lemma stream_write:
  "log_transport_stream_socket_write_method (w, out) buf = (rc, d') \<Longrightarrow>
   (case rc of Put k \<Rightarrow> k \<le> length buf \<and> snd d' = out @ take k buf | Wfail e \<Rightarrow> snd d' = out)"
proof (induction w)
  case (Cons a w)
  then show ?case by (cases a) (auto simp: min_def split: if_splits)
qed auto

interpretation stream_bytes_sink: byte_sink log_transport_stream_socket_write_method snd
proof unfold_locales
  fix d :: wdesc and buf k d'
  assume w: "log_transport_stream_socket_write_method d buf = (Put k, d')"
  then show "k \<le> length buf \<and> snd d' = snd d @ take k buf" using stream_write[of "fst d" "snd d" buf "Put k" d'] by simp
next
  fix d :: wdesc and buf e d'
  assume w: "log_transport_stream_socket_write_method d buf = (Wfail e, d')"
  then show "snd d' = snd d" using stream_write[of "fst d" "snd d" buf "Wfail e" d'] by simp
qed

definition calm_writes :: "wdesc \<Rightarrow> bool" where
  "calm_writes d \<longleftrightarrow> (\<forall>a \<in> set (fst d). case a of Wrote k \<Rightarrow> True | Werrno e \<Rightarrow> e = EAGAIN \<or> e = EINTR)"

lemma calm_writes_step:
  "calm_writes (w, out) \<Longrightarrow> log_transport_stream_socket_write_method (w, out) buf = (rc, d') \<Longrightarrow>
   calm_writes d' \<and> (\<forall>e. rc = Wfail e \<longrightarrow> e = EAGAIN \<or> e = EINTR)"
proof (induction w)
  case (Cons a w)
  then show ?case by (cases a) (auto simp: calm_writes_def split: if_splits)
qed (auto simp: calm_writes_def)

interpretation stream_sink: calm_sink log_transport_stream_socket_write_method snd calm_writes
proof unfold_locales
  fix d :: wdesc and buf k d'
  assume "calm_writes d" "log_transport_stream_socket_write_method d buf = (Put k, d')"
  then show "calm_writes d'" using calm_writes_step[of "fst d" "snd d"] by simp
next
  fix d :: wdesc and buf e d'
  assume "calm_writes d" "log_transport_stream_socket_write_method d buf = (Wfail e, d')"
  then show "calm_writes d' \<and> (e = EAGAIN \<or> e = EINTR)" using calm_writes_step[of "fst d" "snd d"] by simp
qed

end
