(* ===== verification/Log_Writer.thy ===== *)
theory Log_Writer
  imports Log_Queue Log_Proto_Client
begin

text \<open>
  The sending loop of a destination (\<^verbatim>\<open>log_writer_flush\<close> of \<^verbatim>\<open>lib/logwriter.c\<close>): it takes messages from the
  queue, formats them, hands them to the client protocol and puts back the one that the client does
  not take. It joins the queue of \<open>Log_Queue\<close> with the clients of \<open>Log_Proto_Client\<close>.

  The formatting of a message is an argument: a function of the message and of the sequence number.
  The protocol is an argument as well, given by its functions \<^verbatim>\<open>post\<close> and \<^verbatim>\<open>flush\<close>. What happens
  to a message is recorded in two ghost lists: the acknowledged ones, and those that were taken from
  the queue and forgotten. The event loop around this function is not modelled.
\<close>

subsection \<open>The writer\<close>

datatype flush_mode = LW_FLUSH_NORMAL | LW_FLUSH_BUFFER | LW_FLUSH_QUEUE

record log_writer =
  lw_queue :: log_queue
  lw_proto :: "text_client option"
  lw_ignore_errors :: bool
  lw_seq_num :: guint32
  lw_acked :: "q_node list"
  lw_lost :: "q_node list"

definition step_sequence_number :: "guint32 \<Rightarrow> guint32" where
  "step_sequence_number seqnum = (if sint (seqnum + 1) < 0 then 1 else seqnum + 1)"

record 'd proto_ops =
  po_post :: "text_client \<Rightarrow> string \<Rightarrow> 'd \<Rightarrow> (bool \<times> lps \<times> text_client \<times> 'd) option"
  po_flush :: "text_client \<Rightarrow> 'd \<Rightarrow> lps \<times> text_client \<times> 'd"

text \<open>How messages are formatted, and which of them have the flag \<^verbatim>\<open>LF_LOCAL\<close>.\<close>

record lw_format =
  lf_text :: "guint32 \<Rightarrow> nat \<Rightarrow> string"
  lf_local :: "nat \<Rightarrow> bool"

definition next_seq :: "lw_format \<Rightarrow> guint32 \<Rightarrow> q_node \<Rightarrow> guint32" where
  "next_seq fm seq node = (if lf_local fm (qn_msg node) then step_sequence_number seq else seq)"

text \<open>A message with an empty text is not given to the client.\<close>

definition lw_post :: "'d proto_ops \<Rightarrow> text_client \<Rightarrow> string \<Rightarrow> 'd \<Rightarrow> (bool \<times> lps \<times> text_client \<times> 'd) option" where
  "lw_post ops proto line d = (if line = [] then Some (False, LPS_SUCCESS, proto, d) else po_post ops proto line d)"

datatype lw_next = Lw_more | Lw_stop | Lw_fail

text \<open>One turn of the loop.\<close>

definition log_writer_turn ::
    "'d proto_ops \<Rightarrow> lw_format \<Rightarrow> bool \<Rightarrow> log_writer \<Rightarrow> text_client \<Rightarrow> 'd \<Rightarrow> (lw_next \<times> log_writer \<times> text_client \<times> 'd) option" where
  "log_writer_turn ops fm ignore_throttle self proto d =
     (case log_queue_fifo_pop_head (lw_queue self) False ignore_throttle of
        None \<Rightarrow> None
      | Some (q, None) \<Rightarrow> Some (Lw_stop, self\<lparr>lw_queue := q\<rparr>, proto, d)
      | Some (q, Some node) \<Rightarrow>
          (case lw_post ops proto (lf_text fm (lw_seq_num self) (qn_msg node)) d of
             None \<Rightarrow> None
           | Some (consumed, status, proto', d') \<Rightarrow>
               if status = LPS_ERROR \<and> \<not> lw_ignore_errors self
               then Some (Lw_fail, self\<lparr>lw_queue := q, lw_lost := lw_lost self @ [node]\<rparr>, proto', d')
               else if consumed \<or> status = LPS_ERROR
               then Some (Lw_more, self\<lparr>lw_queue := q, lw_seq_num := next_seq fm (lw_seq_num self) node,
                      lw_acked := lw_acked self @ [node]\<rparr>, proto', d')
               else map_option (\<lambda>q'. (Lw_stop, self\<lparr>lw_queue := q'\<rparr>, proto', d')) (log_queue_fifo_push_head q node)))"

lemma pop_head_shorter:
  "log_queue_fifo_pop_head s b t = Some (s', Some node) \<Longrightarrow> length (q_content s') < length (q_content s)"
  by (auto simp: log_queue_fifo_pop_head_def fill_output_def q_content_def Let_def split: if_splits list.splits simp flip: length_append)

lemma turn_shorter:
  "log_writer_turn ops fm t self proto d = Some (Lw_more, self', r) \<Longrightarrow> length (q_content (lw_queue self')) < length (q_content (lw_queue self))"
  by (auto simp: log_writer_turn_def split: option.splits prod.splits if_splits dest: pop_head_shorter)

text \<open>The loop with its counter; \<open>quit i\<close> is the answer of \<^verbatim>\<open>main_loop_io_worker_job_quit\<close> in turn \<open>i\<close>.\<close>

function log_writer_loop ::
    "'d proto_ops \<Rightarrow> lw_format \<Rightarrow> flush_mode \<Rightarrow> (nat \<Rightarrow> bool) \<Rightarrow> nat \<Rightarrow> log_writer \<Rightarrow> text_client \<Rightarrow> 'd \<Rightarrow>
     (bool \<times> nat \<times> log_writer \<times> text_client \<times> 'd) option" where
  "log_writer_loop ops fm mode quit cnt self proto d =
     (if quit cnt \<and> mode \<noteq> LW_FLUSH_QUEUE then Some (True, cnt, self, proto, d)
      else case log_writer_turn ops fm (mode = LW_FLUSH_QUEUE) self proto d of
             None \<Rightarrow> None
           | Some (Lw_stop, self', proto', d') \<Rightarrow> Some (True, cnt, self', proto', d')
           | Some (Lw_fail, self', proto', d') \<Rightarrow> Some (False, cnt, self', proto', d')
           | Some (Lw_more, self', proto', d') \<Rightarrow> log_writer_loop ops fm mode quit (Suc cnt) self' proto' d')"
  by pat_completeness auto
termination
  by (relation "measure (\<lambda>(ops, fm, mode, quit, cnt, self, proto, d). length (q_content (lw_queue self)))")
     (auto dest: turn_shorter)

declare log_writer_loop.simps [simp del]

definition log_writer_flush ::
    "'d proto_ops \<Rightarrow> lw_format \<Rightarrow> flush_mode \<Rightarrow> (nat \<Rightarrow> bool) \<Rightarrow> log_writer \<Rightarrow> 'd \<Rightarrow> (bool \<times> log_writer \<times> 'd) option" where
  "log_writer_flush ops fm mode quit self d =
     (case lw_proto self of
        None \<Rightarrow> Some (False, self, d)
      | Some proto \<Rightarrow>
          (case log_writer_loop ops fm mode quit 0 self proto d of
             None \<Rightarrow> None
           | Some (ok, cnt, self', proto', d') \<Rightarrow>
               if \<not> ok then Some (False, self'\<lparr>lw_proto := Some proto'\<rparr>, d')
               else if mode \<noteq> LW_FLUSH_NORMAL \<or> cnt = 0
               then (case po_flush ops proto' d' of (rc, proto2, d2) \<Rightarrow>
                       Some (rc \<noteq> LPS_ERROR, self'\<lparr>lw_proto := Some proto2\<rparr>, d2))
               else Some (True, self'\<lparr>lw_proto := Some proto'\<rparr>, d')))"

text \<open>The two protocols over stream sockets.\<close>

definition text_proto :: "wdesc proto_ops" where
  "text_proto = \<lparr>po_post = log_proto_text_client_post log_transport_stream_socket_write_method,
     po_flush = log_proto_text_client_flush log_transport_stream_socket_write_method\<rparr>"

definition framed_proto :: "wdesc proto_ops" where
  "framed_proto = \<lparr>po_post = log_proto_framed_client_post log_transport_stream_socket_write_method,
     po_flush = log_proto_text_client_flush log_transport_stream_socket_write_method\<rparr>"

definition log_writer_new :: "log_queue \<Rightarrow> bool \<Rightarrow> log_writer" where
  "log_writer_new q ignore_errors =
     \<lparr>lw_queue = q, lw_proto = Some log_proto_text_client_new, lw_ignore_errors = ignore_errors, lw_seq_num = 1, lw_acked = [], lw_lost = []\<rparr>"

subsection \<open>What the writer keeps\<close>

text \<open>The texts of messages that are sent one after the other.\<close>

fun texts :: "lw_format \<Rightarrow> guint32 \<Rightarrow> q_node list \<Rightarrow> string list" where
  "texts fm seq [] = []"
| "texts fm seq (n # ns) = lf_text fm seq (qn_msg n) # texts fm (next_seq fm seq n) ns"

lemma texts_append: "texts fm seq (xs @ ys) = texts fm seq xs @ texts fm (foldl (next_seq fm) seq xs) ys"
  by (induction xs arbitrary: seq) auto

definition lw_head :: "lw_format \<Rightarrow> log_writer \<Rightarrow> string" where
  "lw_head fm self = (case q_content (lw_queue self) of [] \<Rightarrow> [] | n # _ \<Rightarrow> lf_text fm (lw_seq_num self) (qn_msg n))"

lemma lw_head_queue: "q_content q = q_content (lw_queue self) \<Longrightarrow> lw_head fm (self\<lparr>lw_queue := q\<rparr>) = lw_head fm self"
  by (simp add: lw_head_def split: list.split)

definition writer_at :: "lw_format \<Rightarrow> guint32 \<Rightarrow> q_node list \<Rightarrow> log_writer \<Rightarrow> text_client \<Rightarrow> string \<Rightarrow> bool" where
  "writer_at fm seq nodes self proto out \<longleftrightarrow>
     q_wf (lw_queue self) \<and> q_notify_func (lw_queue self) = None \<and> lw_lost self = [] \<and>
     lw_acked self @ q_content (lw_queue self) = nodes \<and> lw_seq_num self = foldl (next_seq fm) seq (lw_acked self) \<and>
     framed_stream (frames (map clip (texts fm seq (lw_acked self)))) (lw_head fm self) proto out \<and>
     (q_content (lw_queue self) = [] \<longrightarrow> state_after proto = LPFCS_FRAME_SEND)"

lemma pop_head_cases:
  assumes "q_wf s" "q_notify_func s = None"
  obtains (none) s' where "log_queue_fifo_pop_head s False t = Some (s', None)" "q_wf s'" "q_notify_func s' = None" "q_content s' = q_content s"
  | (some) s' x where "log_queue_fifo_pop_head s False t = Some (s', Some x)" "q_wf s'" "q_notify_func s' = None" "q_content s = x # q_content s'"
proof (cases "t \<or> q_throttle s = 0 \<or> q_throttle_buckets s \<noteq> 0")
  case True
  from pop_head_spec[OF assms this, of False] show thesis by (cases "q_content s") (auto intro: that)
next
  case False
  then show thesis using assms by (intro none[of s]) (auto simp: log_queue_fifo_pop_head_def)
qed

lemma push_head_content:
  assumes "q_wf s" "q_notify_func s = None"
  obtains s' where "log_queue_fifo_push_head s x = Some s'" "q_wf s'" "q_notify_func s' = None" "q_content s' = x # q_content s"
  using assms by (auto simp: log_queue_fifo_push_head_def q_wf_def q_content_def)

lemma turn_ok:
  assumes "writer_at fm seq nodes self proto (snd d)" "calm_writes d" "\<forall>t \<in> set (texts fm seq nodes). t \<noteq> []"
  obtains nx self' proto' d' where "log_writer_turn framed_proto fm t self proto d = Some (nx, self', proto', d')"
    "nx \<noteq> Lw_fail" "writer_at fm seq nodes self' proto' (snd d')" "calm_writes d'"
proof -
  let ?F = "frames (map clip (texts fm seq (lw_acked self)))"
  have at: "q_wf (lw_queue self)" "q_notify_func (lw_queue self) = None" "framed_stream ?F (lw_head fm self) proto (snd d)"
    "lw_seq_num self = foldl (next_seq fm) seq (lw_acked self)" "lw_acked self @ q_content (lw_queue self) = nodes"
    using assms(1) by (auto simp: writer_at_def)
  from at(1,2) show thesis
  proof (cases rule: pop_head_cases[where t = t])
    case (none s')
    then have "writer_at fm seq nodes (self\<lparr>lw_queue := s'\<rparr>) proto (snd d)" using assms(1) by (simp add: writer_at_def lw_head_queue)
    then show thesis using none(1) assms(2) by (intro that) (auto simp: log_writer_turn_def)
  next
    case (some s' x)
    let ?line = "lf_text fm (lw_seq_num self) (qn_msg x)"
    have head: "lw_head fm self = ?line" using some(4) by (simp add: lw_head_def)
    have tx: "texts fm seq nodes = texts fm seq (lw_acked self) @ ?line # texts fm (next_seq fm (lw_seq_num self) x) (q_content s')"
      using at(4) some(4) by (simp add: texts_append flip: at(5))
    then have ne: "?line \<noteq> []" using assms(3) by auto
    obtain consumed rc proto' d' where p: "log_proto_framed_client_post log_transport_stream_socket_write_method proto ?line d = Some (consumed, rc, proto', d')"
      "if consumed then state_after proto' = LPFCS_FRAME_SEND \<and> (\<forall>m'. framed_stream (?F @ frame (clip ?line)) m' proto' (snd d')) else framed_stream ?F ?line proto' (snd d')"
      using stream_bytes_sink.post_stream[OF at(3)] unfolding head by blast
    have q: "rc = LPS_SUCCESS" "calm_writes d'" using stream_sink.post_calm[OF p(1) assms(2)] by auto
    have post: "lw_post framed_proto proto ?line d = Some (consumed, rc, proto', d')" using p(1) ne by (simp add: lw_post_def framed_proto_def)
    show thesis
    proof (cases consumed)
      case True
      let ?self = "self\<lparr>lw_queue := s', lw_seq_num := next_seq fm (lw_seq_num self) x, lw_acked := lw_acked self @ [x]\<rparr>"
      have "writer_at fm seq nodes ?self proto' (snd d')"
        using assms(1) some p(2) True at(4) by (simp add: writer_at_def texts_append)
      then show thesis using post some(1) q True by (intro that) (auto simp: log_writer_turn_def)
    next
      case False
      obtain q' where q': "log_queue_fifo_push_head s' x = Some q'" "q_wf q'" "q_notify_func q' = None" "q_content q' = x # q_content s'"
        by (rule push_head_content[OF some(2,3)])
      have "writer_at fm seq nodes (self\<lparr>lw_queue := q'\<rparr>) proto' (snd d')"
        using assms(1) some(4) p(2) q' False head by (simp add: writer_at_def lw_head_queue)
      then show thesis using post some(1) q q'(1) False by (intro that) (auto simp: log_writer_turn_def)
    qed
  qed
qed

lemma loop_ok:
  assumes "\<forall>t \<in> set (texts fm seq nodes). t \<noteq> []"
  shows "writer_at fm seq nodes self proto (snd d) \<Longrightarrow> calm_writes d \<Longrightarrow> ops = framed_proto \<Longrightarrow>
    \<exists>cnt' self' proto' d'. log_writer_loop ops fm mode quit cnt self proto d = Some (True, cnt', self', proto', d') \<and>
      writer_at fm seq nodes self' proto' (snd d') \<and> calm_writes d'"
proof (induction "length (q_content (lw_queue self))" arbitrary: cnt self proto d rule: less_induct)
  case less
  obtain nx self' proto' d' where t: "log_writer_turn ops fm (mode = LW_FLUSH_QUEUE) self proto d = Some (nx, self', proto', d')"
    "nx \<noteq> Lw_fail" "writer_at fm seq nodes self' proto' (snd d')" "calm_writes d'"
    using turn_ok[OF less.prems(1,2) assms] less.prems(3) by metis
  show ?case
  proof (cases "nx = Lw_more \<and> \<not> (quit cnt \<and> mode \<noteq> LW_FLUSH_QUEUE)")
    case True
    then have "length (q_content (lw_queue self')) < length (q_content (lw_queue self))" using t(1) turn_shorter[of ops fm _ self proto d self'] by auto
    from less.hyps[OF this t(3,4) less.prems(3), of "Suc cnt"] show ?thesis
      using True t(1) by (subst log_writer_loop.simps) auto
  next
    case False
    then show ?thesis using t less.prems by (cases d, cases d') (subst log_writer_loop.simps, cases nx; auto)
  qed
qed

text \<open>Several calls of the flush function, until one reports an error.\<close>

fun flush_runs :: "'d proto_ops \<Rightarrow> lw_format \<Rightarrow> (flush_mode \<times> (nat \<Rightarrow> bool)) list \<Rightarrow> log_writer \<Rightarrow> 'd \<Rightarrow> (bool \<times> log_writer \<times> 'd) option" where
  "flush_runs ops fm [] self d = Some (True, self, d)"
| "flush_runs ops fm ((mode, quit) # runs) self d =
     (case log_writer_flush ops fm mode quit self d of
        None \<Rightarrow> None
      | Some (ok, self', d') \<Rightarrow> if ok then flush_runs ops fm runs self' d' else Some (False, self', d'))"

lemma writer_at_proto [simp]: "writer_at fm seq nodes (self\<lparr>lw_proto := p\<rparr>) proto out = writer_at fm seq nodes self proto out"
  by (simp add: writer_at_def lw_head_def cong: list.case_cong)

lemma flush_ok:
  assumes "\<forall>t \<in> set (texts fm seq nodes). t \<noteq> []" "lw_proto self = Some proto" "writer_at fm seq nodes self proto (snd d)" "calm_writes d"
  obtains self' proto' d' where "log_writer_flush framed_proto fm mode quit self d = Some (True, self', d')"
    "lw_proto self' = Some proto'" "writer_at fm seq nodes self' proto' (snd d')" "calm_writes d'"
proof -
  obtain cnt self1 proto1 d1 where l: "log_writer_loop framed_proto fm mode quit 0 self proto d = Some (True, cnt, self1, proto1, d1)"
    "writer_at fm seq nodes self1 proto1 (snd d1)" "calm_writes d1" using loop_ok[OF assms(1,3,4) refl, of mode quit 0] by blast
  obtain rc proto2 d2 where f: "log_proto_text_client_flush log_transport_stream_socket_write_method proto1 d1 = (rc, proto2, d2)"
    using prod_cases3 by blast
  note c = stream_sink.flush_calm[OF l(3) f]
  have fs: "framed_stream F m proto1 (snd d1) \<Longrightarrow> framed_stream F m proto2 (snd d2)" for F m using stream_bytes_sink.flush_stream f by blast
  have "state_after proto2 = state_after proto1" using stream_bytes_sink.flush_sends[OF f] by simp
  then have "writer_at fm seq nodes self1 proto2 (snd d2)" using l(2) fs by (simp add: writer_at_def)
  moreover have "po_flush framed_proto = log_proto_text_client_flush log_transport_stream_socket_write_method" by (simp add: framed_proto_def)
  ultimately show thesis using l f c assms(2)
    by (cases "mode \<noteq> LW_FLUSH_NORMAL \<or> cnt = 0")
       (auto simp: log_writer_flush_def intro: that[of _ _ proto2] that[of _ _ proto1])
qed

lemma flush_runs_ok:
  assumes "\<forall>t \<in> set (texts fm seq nodes). t \<noteq> []"
  shows "lw_proto self = Some proto \<Longrightarrow> writer_at fm seq nodes self proto (snd d) \<Longrightarrow> calm_writes d \<Longrightarrow>
    \<exists>self' proto' d'. flush_runs framed_proto fm runs self d = Some (True, self', d') \<and> lw_proto self' = Some proto' \<and>
      writer_at fm seq nodes self' proto' (snd d')"
proof (induction runs arbitrary: self proto d)
  case (Cons r runs)
  obtain mode quit where r: "r = (mode, quit)" by fastforce
  obtain self1 proto1 d1 where f: "log_writer_flush framed_proto fm mode quit self d = Some (True, self1, d1)"
    "lw_proto self1 = Some proto1" "writer_at fm seq nodes self1 proto1 (snd d1)" "calm_writes d1"
    by (rule flush_ok[OF assms Cons.prems])
  with Cons.IH[OF f(2-4)] r show ?case by simp
qed auto

lemma writer_at_new:
  "q_wf q \<Longrightarrow> q_notify_func q = None \<Longrightarrow> writer_at fm 1 (q_content q) (log_writer_new q ie) log_proto_text_client_new []"
  using framed_stream_new by (simp add: writer_at_def log_writer_new_def) (simp add: state_after_def log_proto_text_client_new_def)

text \<open>What is on the wire is an initial part of the frames of all messages, and all of it once nothing is left.\<close>

lemma writer_at_wire:
  assumes "writer_at fm seq nodes self proto out"
  shows "\<exists>rest. out @ rest = frames (map clip (texts fm seq nodes)) \<and>
    (q_content (lw_queue self) = [] \<and> tc_partial proto = None \<longrightarrow> rest = [])"
proof -
  let ?F = "frames (map clip (texts fm seq (lw_acked self)))" and ?c = "q_content (lw_queue self)"
  have at: "framed_stream ?F (lw_head fm self) proto out" "?c = [] \<longrightarrow> state_after proto = LPFCS_FRAME_SEND"
    "texts fm seq nodes = texts fm seq (lw_acked self) @ texts fm (lw_seq_num self) ?c"
    using assms by (auto simp: writer_at_def texts_append)
  show ?thesis
  proof (cases "state_after proto = LPFCS_MESSAGE_SEND")
    case True
    then obtain n ns where c: "?c = n # ns" using at(2) by (cases ?c) auto
    let ?line = "lf_text fm (lw_seq_num self) (qn_msg n)"
    have "out @ unsent proto = ?F @ frame_hdr (length (clip ?line))"
      using at(1) True c by (simp add: framed_stream_def lw_head_def)
    then have "out @ unsent proto @ clip ?line @ frames (map clip (texts fm (next_seq fm (lw_seq_num self) n) ns)) =
        frames (map clip (texts fm seq nodes))"
      using at(3) c by (simp add: frame_hdr_frame flip: append_assoc)
    then show ?thesis using c by auto
  next
    case False
    then have "out @ unsent proto = ?F" using at(1) by (simp add: framed_stream_def)
    then have "out @ unsent proto @ frames (map clip (texts fm (lw_seq_num self) ?c)) = frames (map clip (texts fm seq nodes))"
      using at(3) by (simp flip: append_assoc)
    then show ?thesis by (intro exI conjI) (auto simp: unsent_def)
  qed
qed

subsection \<open>Properties\<close>

definition sample_queue :: log_queue where
  "sample_queue = (log_queue_fifo_new 1 10)\<lparr>qoverflow_output := [\<lparr>qn_msg = 7, qn_ack_needed = True\<rparr>, \<lparr>qn_msg = 8, qn_ack_needed = True\<rparr>],
     qoverflow_output_len := 2, stored_messages := 2\<rparr>"

definition sample_format :: lw_format where
  "sample_format = \<lparr>lf_text = (\<lambda>seq n. if n = 7 then ''ab'' else ''cde''), lf_local = (\<lambda>n. True)\<rparr>"

lemma sample_queue_ok: "q_wf sample_queue" "q_notify_func sample_queue = None" "q_content sample_queue = [\<lparr>qn_msg = 7, qn_ack_needed = True\<rparr>, \<lparr>qn_msg = 8, qn_ack_needed = True\<rparr>]"
  by (auto simp: sample_queue_def q_wf_def q_content_def log_queue_fifo_new_def input_ok_def)



text \<open>A message at the head of the queue whose text is empty, and what is recorded of the others.\<close>

definition blocked :: "lw_format \<Rightarrow> q_node list \<Rightarrow> log_writer \<Rightarrow> log_writer \<Rightarrow> bool" where
  "blocked fm nodes self0 self \<longleftrightarrow> q_wf (lw_queue self) \<and> q_notify_func (lw_queue self) = None \<and>
     q_content (lw_queue self) = nodes \<and> nodes \<noteq> [] \<and> lf_text fm (lw_seq_num self) (qn_msg (hd nodes)) = [] \<and>
     lw_acked self = lw_acked self0 \<and> lw_lost self = lw_lost self0"

lemma blocked_proto [simp]: "blocked fm nodes self0 (self\<lparr>lw_proto := p\<rparr>) = blocked fm nodes self0 self"
  by (simp add: blocked_def)

lemma turn_blocked:
  assumes "blocked fm nodes self0 self"
  shows "\<exists>self'. log_writer_turn ops fm t self proto d = Some (Lw_stop, self', proto, d) \<and> blocked fm nodes self0 self'"
proof -
  have "q_wf (lw_queue self)" "q_notify_func (lw_queue self) = None" using assms by (auto simp: blocked_def)
  then show ?thesis
  proof (cases rule: pop_head_cases[where t = t])
    case (none s')
    then show ?thesis using assms by (auto simp: log_writer_turn_def blocked_def)
  next
    case (some s' y)
    obtain q' where q': "log_queue_fifo_push_head s' y = Some q'" "q_wf q'" "q_notify_func q' = None" "q_content q' = y # q_content s'"
      by (rule push_head_content[OF some(2,3)])
    have y: "nodes = y # q_content s'" using some(4) assms by (simp add: blocked_def)
    then have "lf_text fm (lw_seq_num self) (qn_msg y) = []" using assms by (simp add: blocked_def)
    then have "log_writer_turn ops fm t self proto d = Some (Lw_stop, self\<lparr>lw_queue := q'\<rparr>, proto, d)"
      using some(1) q'(1) by (simp add: log_writer_turn_def lw_post_def)
    moreover have "blocked fm nodes self0 (self\<lparr>lw_queue := q'\<rparr>)" using assms q' y by (simp add: blocked_def)
    ultimately show ?thesis by blast
  qed
qed

lemma flush_blocked:
  assumes "blocked fm nodes self0 self" "log_writer_flush ops fm mode quit self d = Some (ok, self', d')"
  shows "blocked fm nodes self0 self'"
proof (cases "lw_proto self")
  case None
  then show ?thesis using assms by (simp add: log_writer_flush_def)
next
  case (Some proto)
  obtain self1 where "log_writer_turn ops fm (mode = LW_FLUSH_QUEUE) self proto d = Some (Lw_stop, self1, proto, d)" "blocked fm nodes self0 self1"
    using turn_blocked[OF assms(1), of ops "mode = LW_FLUSH_QUEUE" proto d] by blast
  then have "\<exists>self1. log_writer_loop ops fm mode quit 0 self proto d = Some (True, 0, self1, proto, d) \<and> blocked fm nodes self0 self1"
    using assms(1) by (subst log_writer_loop.simps) auto
  moreover obtain rc p2 d2 where "po_flush ops proto d = (rc, p2, d2)" using prod_cases3 by blast
  ultimately show ?thesis using Some assms(2) by (auto simp: log_writer_flush_def)
qed

lemma flush_runs_blocked:
  "blocked fm nodes self0 self \<Longrightarrow> flush_runs ops fm runs self d = Some (ok, self', d') \<Longrightarrow> blocked fm nodes self0 self'"
proof (induction runs arbitrary: self d)
  case (Cons r runs)
  then show ?case by (cases r) (auto split: option.splits if_splits dest: flush_blocked)
qed auto

text \<open>C21: A message whose text is empty blocks its destination. The loop takes it from the queue, has nothing to
  post, and puts it back. So with any protocol, through any number of flushes, it stays at the head of the
  queue, and nothing behind it is ever sent.\<close>

theorem log_writer_blocked_by_empty_text:
  assumes "q_wf (lw_queue self)" "q_notify_func (lw_queue self) = None" "q_content (lw_queue self) = x # xs"
    "lf_text fm (lw_seq_num self) (qn_msg x) = []" "flush_runs ops fm runs self d = Some (ok, self', d')"
  shows "q_content (lw_queue self') = x # xs \<and> lw_acked self' = lw_acked self \<and> lw_lost self' = lw_lost self"
proof -
  have "blocked fm (x # xs) self self" using assms by (simp add: blocked_def)
  from flush_runs_blocked[OF this assms(5)] show ?thesis by (simp add: blocked_def)
qed

theorem log_writer_blocked_by_empty_text_witness:
  "\<exists>ok self' d'. flush_runs text_proto (sample_format\<lparr>lf_text := \<lambda>seq n. []\<rparr>) [(LW_FLUSH_QUEUE, \<lambda>i. False)] (log_writer_new sample_queue False) ([], []) =
     Some (ok, self', d') \<and> q_content (lw_queue self') = q_content sample_queue"
proof -
  let ?fm = "sample_format\<lparr>lf_text := \<lambda>seq n. []\<rparr>" and ?w = "log_writer_new sample_queue False"
  have w: "lw_queue ?w = sample_queue" "lw_proto ?w = Some log_proto_text_client_new" by (simp_all add: log_writer_new_def)
  have b: "blocked ?fm (q_content sample_queue) ?w ?w" using sample_queue_ok by (simp add: blocked_def w)
  obtain self1 where "log_writer_turn text_proto ?fm True ?w log_proto_text_client_new ([], []) = Some (Lw_stop, self1, log_proto_text_client_new, ([], []))"
    using turn_blocked[OF b, of text_proto True log_proto_text_client_new "([], [])"] by blast
  then have "log_writer_loop text_proto ?fm LW_FLUSH_QUEUE (\<lambda>i. False) 0 ?w log_proto_text_client_new ([], []) =
      Some (True, 0, self1, log_proto_text_client_new, ([], []))" by (subst log_writer_loop.simps) simp
  then obtain ok self' d' where f: "flush_runs text_proto ?fm [(LW_FLUSH_QUEUE, \<lambda>i. False)] ?w ([], []) = Some (ok, self', d')"
    using w(2) by (auto simp: log_writer_flush_def text_proto_def log_proto_text_client_flush_def log_proto_text_client_new_def)
  then show ?thesis
    using log_writer_blocked_by_empty_text[of ?w "\<lparr>qn_msg = 7, qn_ack_needed = True\<rparr>" "[\<lparr>qn_msg = 8, qn_ack_needed = True\<rparr>]" ?fm, OF _ _ _ _ f]
      sample_queue_ok w(1) by auto
qed



end
