(* ===== verification/Timer_Wheel.thy ===== *)
theory Timer_Wheel
  imports Prelude "HOL-Library.Multiset"
begin

text \<open>
  The timer wheel of the pattern database (\<^verbatim>\<open>modules/dbparser/timerwheel.c\<close>): four arrays of slots, each
  slot of a level covering all of the level below, and a list for what is further away. An entry has
  a number for its address and one for its callback and argument. The callbacks that were made are
  recorded in the ghost list \<open>tw_fired\<close> with the time they were given; a callback changes the
  wheel itself no further.
\<close>

subsection \<open>The wheel\<close>

record tw_entry =
  te_id :: nat
  te_target :: guint64
  te_data :: nat

record tw_level =
  tl_mask :: guint64
  tl_slot_mask :: guint64
  tl_num :: nat
  tl_shift :: nat
  tl_slots :: "tw_entry list list"

record timer_wheel =
  tw_levels :: "tw_level list"
  tw_future :: "tw_entry list"
  tw_now :: guint64
  tw_base :: guint64
  tw_num_timers :: int
  tw_fired :: "(guint64 \<times> tw_entry) list"

definition tw_level_new :: "nat \<Rightarrow> nat \<Rightarrow> tw_level" where
  "tw_level_new bits shift =
     (let num = 2 ^ bits
      in \<lparr>tl_mask = push_bit shift (of_nat num - 1), tl_slot_mask = push_bit shift 1 - 1, tl_num = num, tl_shift = shift,
          tl_slots = replicate num []\<rparr>)"

definition timer_wheel_new :: timer_wheel where
  "timer_wheel_new =
     \<lparr>tw_levels = [tw_level_new 10 0, tw_level_new 6 10, tw_level_new 6 16, tw_level_new 6 22], tw_future = [],
      tw_now = 0, tw_base = 0, tw_num_timers = 0, tw_fired = []\<rparr>"

text \<open>The slot of a time, and the time of the first slot.\<close>

definition tl_slot :: "tw_level \<Rightarrow> guint64 \<Rightarrow> nat" where
  "tl_slot level t = unat (drop_bit (tl_shift level) (t AND tl_mask level))"

definition tl_base :: "tw_level \<Rightarrow> guint64 \<Rightarrow> guint64" where
  "tl_base level base = base AND NOT (tl_slot_mask level) AND NOT (tl_mask level)"

definition tl_span :: "tw_level \<Rightarrow> guint64" where
  "tl_span level = push_bit (tl_shift level) (of_nat (tl_num level))"

definition tl_prepend :: "tw_level \<Rightarrow> tw_entry \<Rightarrow> tw_level" where
  "tl_prepend level entry =
     (let slot = tl_slot level (te_target entry)
      in level\<lparr>tl_slots := (tl_slots level)[slot := entry # tl_slots level ! slot]\<rparr>)"

text \<open>The level takes the entry, otherwise the next one is tried.\<close>

definition tl_accepts :: "tw_level \<Rightarrow> guint64 \<Rightarrow> guint64 \<Rightarrow> guint64 \<Rightarrow> bool" where
  "tl_accepts level now base target \<longleftrightarrow>
     \<not> target > tl_base level base + tl_span level \<or>
     target < tl_base level base + tl_span level * 2 \<and> (now AND tl_mask level) > (target AND tl_mask level)"

fun add_to_levels :: "guint64 \<Rightarrow> guint64 \<Rightarrow> tw_entry \<Rightarrow> tw_level list \<Rightarrow> tw_level list option" where
  "add_to_levels now base entry [] = None"
| "add_to_levels now base entry (level # levels) =
     (if tl_accepts level now base (te_target entry) then Some (tl_prepend level entry # levels)
      else map_option (Cons level) (add_to_levels now base entry levels))"

definition timer_wheel_add_timer_entry :: "timer_wheel \<Rightarrow> tw_entry \<Rightarrow> timer_wheel" where
  "timer_wheel_add_timer_entry self entry =
     (case add_to_levels (tw_now self) (tw_base self) entry (tw_levels self) of
        Some levels \<Rightarrow> self\<lparr>tw_levels := levels\<rparr>
      | None \<Rightarrow> self\<lparr>tw_future := entry # tw_future self\<rparr>)"

text \<open>The timeout is a \<^verbatim>\<open>gint\<close>.\<close>

definition timer_wheel_add_timer :: "timer_wheel \<Rightarrow> int \<Rightarrow> nat \<Rightarrow> nat \<Rightarrow> timer_wheel" where
  "timer_wheel_add_timer self timeout ident data =
     (let self1 = timer_wheel_add_timer_entry self \<lparr>te_id = ident, te_target = tw_now self + of_int timeout, te_data = data\<rparr>
      in self1\<lparr>tw_num_timers := tw_num_timers self1 + 1\<rparr>)"

text \<open>Unlinking an entry, wherever it is.\<close>

definition tw_entry_unlink :: "nat \<Rightarrow> timer_wheel \<Rightarrow> timer_wheel" where
  "tw_entry_unlink ident self =
     self\<lparr>tw_levels := map (\<lambda>l. l\<lparr>tl_slots := map (filter (\<lambda>e. te_id e \<noteq> ident)) (tl_slots l)\<rparr>) (tw_levels self),
          tw_future := filter (\<lambda>e. te_id e \<noteq> ident) (tw_future self)\<rparr>"

definition timer_wheel_del_timer :: "timer_wheel \<Rightarrow> tw_entry \<Rightarrow> timer_wheel" where
  "timer_wheel_del_timer self entry =
     (let self1 = tw_entry_unlink (te_id entry) self in self1\<lparr>tw_num_timers := tw_num_timers self1 - 1\<rparr>)"

definition timer_wheel_mod_timer :: "timer_wheel \<Rightarrow> tw_entry \<Rightarrow> int \<Rightarrow> timer_wheel" where
  "timer_wheel_mod_timer self entry new_timeout =
     timer_wheel_add_timer_entry (tw_entry_unlink (te_id entry) self) (entry\<lparr>te_target := tw_now self + of_int new_timeout\<rparr>)"

subsection \<open>Cascading\<close>

text \<open>The next slot of a level is emptied into the level below. The result tells whether it was the last slot, in which
  case the level above follows.\<close>

definition next_slot :: "tw_level \<Rightarrow> guint64 \<Rightarrow> nat" where
  "next_slot level now = (let slot = tl_slot level now in if slot = tl_num level - 1 then 0 else slot + 1)"

fun cascade_levels :: "guint64 \<Rightarrow> tw_level \<Rightarrow> tw_level list \<Rightarrow> tw_level list \<times> bool" where
  "cascade_levels now target [] = ([target], True)"
| "cascade_levels now target (source # rest) =
     (let slot = next_slot source now;
          target' = fold (\<lambda>e l. tl_prepend l e) (tl_slots source ! slot) target;
          source' = source\<lparr>tl_slots := (tl_slots source)[slot := []]\<rparr>
      in if slot < tl_num source - 1 then (target' # source' # rest, False)
         else case cascade_levels now source' rest of (levels, wrapped) \<Rightarrow> (target' # levels, wrapped))"

text \<open>What is near enough comes from the far list to the top level.\<close>

definition cascade_future :: "timer_wheel \<Rightarrow> timer_wheel" where
  "cascade_future self =
     (let top = last (tw_levels self);
          near = (\<lambda>e. te_target e < tl_base top (tw_base self) + 2 * tl_span top)
      in self\<lparr>tw_levels := butlast (tw_levels self) @ [fold (\<lambda>e l. tl_prepend l e) (filter near (tw_future self)) top],
              tw_future := filter (\<lambda>e. \<not> near e) (tw_future self)\<rparr>)"

definition timer_wheel_cascade :: "timer_wheel \<Rightarrow> timer_wheel" where
  "timer_wheel_cascade self =
     (case cascade_levels (tw_now self) (hd (tw_levels self)) (tl (tw_levels self)) of (levels, wrapped) \<Rightarrow>
        let self1 = self\<lparr>tw_levels := levels\<rparr>;
            self2 = (if wrapped then cascade_future self1 else self1)
        in self2\<lparr>tw_base := tw_base self2 + of_nat (tl_num (hd (tw_levels self2)))\<rparr>)"

subsection \<open>The clock\<close>

definition tw_jump :: "timer_wheel \<Rightarrow> guint64 \<Rightarrow> timer_wheel" where
  "tw_jump self new_now = self\<lparr>tw_now := new_now, tw_base := new_now AND NOT (tl_mask (hd (tw_levels self)))\<rparr>"

text \<open>The callbacks of the current slot.\<close>

definition tw_fire :: "timer_wheel \<Rightarrow> timer_wheel" where
  "tw_fire self =
     (let level = hd (tw_levels self); slot = tl_slot level (tw_now self); due = tl_slots level ! slot
      in self\<lparr>tw_levels := level\<lparr>tl_slots := (tl_slots level)[slot := []]\<rparr> # tl (tw_levels self),
              tw_num_timers := tw_num_timers self - int (length due),
              tw_fired := tw_fired self @ map (Pair (tw_now self)) due\<rparr>)"

text \<open>The step to the next second.\<close>

definition tw_tick :: "timer_wheel \<Rightarrow> timer_wheel" where
  "tw_tick self =
     (let level = hd (tw_levels self)
      in (\<lambda>s. s\<lparr>tw_now := tw_now s + 1\<rparr>)
           (if tl_slot level (tw_now self) = tl_num level - 1 then timer_wheel_cascade self else self))"

lemma tw_now_keep [simp]: "tw_now (tw_fire self) = tw_now self" "tw_now (timer_wheel_cascade self) = tw_now self"
  by (simp_all add: tw_fire_def timer_wheel_cascade_def cascade_future_def Let_def split: prod.split)

function tw_run :: "timer_wheel \<Rightarrow> guint64 \<Rightarrow> timer_wheel" where
  "tw_run self new_now =
     (if tw_now self < new_now then
        (let self1 = tw_fire self
         in if tw_num_timers self1 = 0 then tw_jump self1 new_now else tw_run (tw_tick self1) new_now)
      else self)"
  by pat_completeness auto
termination
proof (relation "measure (\<lambda>(self, new_now). unat new_now - unat (tw_now self))")
  fix self :: timer_wheel and new_now x
  assume less: "tw_now self < new_now" and x: "x = tw_fire self"
  have "unat (tw_now self + 1) = Suc (unat (tw_now self))"
  proof -
    have "unat new_now < 2 ^ LENGTH(64)" by (rule unsigned_less)
    then show ?thesis using less by (simp add: word_less_nat_alt unat_word_ariths(1))
  qed
  then show "((tw_tick x, new_now), self, new_now) \<in> measure (\<lambda>(self, new_now). unat new_now - unat (tw_now self))"
    using less x by (simp add: tw_tick_def Let_def word_less_nat_alt)
qed simp

declare tw_run.simps [simp del]

definition timer_wheel_set_time :: "timer_wheel \<Rightarrow> guint64 \<Rightarrow> timer_wheel" where
  "timer_wheel_set_time self new_now =
     (if tw_now self \<ge> new_now then self
      else if tw_num_timers self = 0 then tw_jump self new_now
      else tw_run self new_now)"

definition timer_wheel_expire_all :: "timer_wheel \<Rightarrow> timer_wheel" where
  "timer_wheel_expire_all self = (timer_wheel_set_time self (- 1))\<lparr>tw_now := tw_now self\<rparr>"

subsection \<open>Slots as arithmetic\<close>

definition level_ok :: "nat \<Rightarrow> nat \<Rightarrow> tw_level \<Rightarrow> bool" where
  "level_ok b s l \<longleftrightarrow> tl_mask l = push_bit s (mask b) \<and> tl_slot_mask l = mask s \<and> tl_num l = 2 ^ b \<and> tl_shift l = s \<and>
     length (tl_slots l) = 2 ^ b \<and> s + b < 64"

lemma and_field: "(w :: guint64) AND push_bit s (mask b) = push_bit s (take_bit b (drop_bit s w))"
  by (rule bit_word_eqI) (auto simp: bit_simps)

lemma and_not_low: "(w :: guint64) AND NOT (mask s) AND NOT (push_bit s (mask b)) = push_bit (s + b) (drop_bit (s + b) w)"
  by (rule bit_word_eqI) (auto simp: bit_simps)

lemma drop_push: "s + b < 64 \<Longrightarrow> drop_bit s (push_bit s (take_bit b v)) = take_bit b (v :: guint64)"
  by (rule bit_word_eqI) (auto simp: bit_simps)

lemma unat_push: "unat v * 2 ^ s < 2 ^ 64 \<Longrightarrow> unat (push_bit s (v :: guint64)) = unat v * 2 ^ s"
  by (simp only: unsigned_push_bit_eq) (simp add: push_bit_eq_mult take_bit_nat_eq_self)

lemma unat_drop: "unat (drop_bit n (t :: guint64)) = unat t div 2 ^ n"
  by (simp only: unat_drop_bit_eq) (simp only: drop_bit_eq_div)

lemma unat_field: "unat (take_bit b (drop_bit s (t :: guint64))) = unat t div 2 ^ s mod 2 ^ b"
  by (simp only: unsigned_take_bit_eq unat_drop_bit_eq) (simp add: take_bit_eq_mod drop_bit_eq_div)

lemma unat64_less: "unat (w :: guint64) < 2 ^ 64"
proof -
  have "unat w < 2 ^ LENGTH(64)" by (rule unsigned_less)
  then show ?thesis by simp
qed

lemma level_slot: "level_ok b s l \<Longrightarrow> tl_slot l t = unat t div 2 ^ s mod 2 ^ b"
  by (simp add: tl_slot_def level_ok_def and_field drop_push unat_field)

lemma level_slot_less: "level_ok b s l \<Longrightarrow> tl_slot l t < length (tl_slots l)"
  by (simp add: level_slot) (simp add: level_ok_def)

lemma level_and: "level_ok b s l \<Longrightarrow> unat (t AND tl_mask l) = unat t div 2 ^ s mod 2 ^ b * 2 ^ s"
proof -
  assume l: "level_ok b s l"
  have "unat t div 2 ^ s mod 2 ^ b * 2 ^ s \<le> unat t"
    by (metis div_times_less_eq_dividend le_trans mod_less_eq_dividend mult_le_mono1)
  then have "unat (take_bit b (drop_bit s t)) * 2 ^ s < 2 ^ 64" using unat64_less[of t] by (simp only: unat_field)
  from unat_push[OF this] show ?thesis using l by (simp add: level_ok_def and_field unat_field)
qed

lemma level_base: "level_ok b s l \<Longrightarrow> unat (tl_base l t) = unat t div 2 ^ (s + b) * 2 ^ (s + b)"
proof -
  assume l: "level_ok b s l"
  have "unat t div 2 ^ (s + b) * 2 ^ (s + b) < 2 ^ 64" using unat64_less[of t] by (rule le_less_trans[OF div_times_less_eq_dividend])
  then have "unat (push_bit (s + b) (drop_bit (s + b) t)) = unat t div 2 ^ (s + b) * 2 ^ (s + b)"
    using unat_push[of "drop_bit (s + b) t" "s + b"] unat_drop by simp
  then show ?thesis using l by (simp add: tl_base_def level_ok_def and_not_low)
qed

lemma level_span: "level_ok b s l \<Longrightarrow> unat (tl_span l) = 2 ^ (s + b)"
proof -
  assume l: "level_ok b s l"
  then have "b < 64" "b + s < 64" by (simp_all add: level_ok_def)
  then have e: "(2 :: nat) ^ b < 2 ^ 64" "(2 :: nat) ^ b * 2 ^ s < 2 ^ 64"
    unfolding power_add[symmetric] by (intro power_strict_increasing; simp)+
  then have "unat (of_nat (2 ^ b) :: guint64) = 2 ^ b" by (simp only: unat_of_nat mod_less) simp
  then show ?thesis using l e unat_push[of "of_nat (2 ^ b)" s] by (simp add: tl_span_def level_ok_def power_add mult.commute)
qed

subsection \<open>Where entries are\<close>

lemma near_level0:
  assumes "n \<le> t" "t \<noteq> n + 1024 \<or> n mod 1024 \<noteq> (0 :: nat)"
    "t \<le> n div 1024 * 1024 + 1024 \<or> t < n div 1024 * 1024 + 2048 \<and> t mod 1024 < n mod 1024"
  shows "t < n + 1024"
proof -
  have e: "n = n div 1024 * 1024 + n mod 1024" "t = t div 1024 * 1024 + t mod 1024" "n mod 1024 < 1024" "t mod 1024 < 1024" by simp_all
  have "t div 1024 \<le> n div 1024 + 1" if "t < n div 1024 * 1024 + 2048" using that e by linarith
  then show ?thesis using assms e by linarith
qed

lemma far_level0:
  assumes "\<not> (t \<le> n div 1024 * 1024 + 1024)"
  shows "n div 1024 < t div (1024 :: nat)"
proof -
  have "t = t div 1024 * 1024 + t mod 1024" "t mod 1024 < 1024" by simp_all
  then show ?thesis using assms by linarith
qed

lemma near_level1:
  assumes "n \<le> t" "t \<le> n + 64512"
  shows "t div 1024 \<le> n div 1024 + (63 :: nat)"
    "t \<le> n div 65536 * 65536 + 65536 \<or>
     t < n div 65536 * 65536 + 131072 \<and> t div 1024 mod 64 * 1024 < n div 1024 mod 64 * 1024"
proof -
  have e: "n = n div 1024 * 1024 + n mod 1024" "t = t div 1024 * 1024 + t mod 1024" "n mod 1024 < 1024" "t mod 1024 < 1024" by simp_all
  show b: "t div 1024 \<le> n div 1024 + 63" using assms e by linarith
  have d: "n div 65536 = n div 1024 div 64" "t div 65536 = t div 1024 div 64" by (simp_all add: div_mult2_eq[symmetric])
  have f: "n div 1024 = n div 1024 div 64 * 64 + n div 1024 mod 64" "t div 1024 = t div 1024 div 64 * 64 + t div 1024 mod 64"
    "n div 1024 mod 64 < 64" "t div 1024 mod 64 < 64" by simp_all
  show "t \<le> n div 65536 * 65536 + 65536 \<or>
     t < n div 65536 * 65536 + 131072 \<and> t div 1024 mod 64 * 1024 < n div 1024 mod 64 * 1024"
  proof (cases "t \<le> n div 65536 * 65536 + 65536")
    case False
    have "n < n div 65536 * 65536 + 65536" using e f d by linarith
    then have "t < n div 65536 * 65536 + 131072" using assms by linarith
    moreover have "n div 1024 div 64 < t div 1024 div 64" using False e f d by linarith
    then have "t div 1024 mod 64 < n div 1024 mod 64" using b f by linarith
    ultimately show ?thesis by simp
  qed simp
qed

definition near0 :: "nat \<Rightarrow> nat \<Rightarrow> tw_entry \<Rightarrow> bool" where
  "near0 n j e \<longleftrightarrow> unat (te_target e) mod 1024 = j \<and> n \<le> unat (te_target e) \<and> unat (te_target e) < n + 1024"

definition near1 :: "nat \<Rightarrow> nat \<Rightarrow> tw_entry \<Rightarrow> bool" where
  "near1 n j e \<longleftrightarrow> unat (te_target e) div 1024 mod 64 = j \<and> n div 1024 < unat (te_target e) div 1024 \<and>
     unat (te_target e) div 1024 \<le> n div 1024 + 63"

definition slots_all :: "(nat \<Rightarrow> tw_entry \<Rightarrow> bool) \<Rightarrow> tw_level \<Rightarrow> bool" where
  "slots_all P l \<longleftrightarrow> (\<forall>j < length (tl_slots l). \<forall>e \<in> set (tl_slots l ! j). P j e)"

definition level_contents :: "tw_level \<Rightarrow> tw_entry multiset" where
  "level_contents l = mset (concat (tl_slots l))"

definition contents :: "timer_wheel \<Rightarrow> tw_entry multiset" where
  "contents self = sum_list (map level_contents (tw_levels self)) + mset (tw_future self)"

definition tw_at :: "timer_wheel \<Rightarrow> tw_level \<Rightarrow> tw_level \<Rightarrow> tw_level \<Rightarrow> tw_level \<Rightarrow> bool" where
  "tw_at self l0 l1 l2 l3 \<longleftrightarrow> tw_levels self = [l0, l1, l2, l3] \<and>
     level_ok 10 0 l0 \<and> level_ok 6 10 l1 \<and> level_ok 6 16 l2 \<and> level_ok 6 22 l3 \<and>
     slots_all (near0 (unat (tw_now self))) l0 \<and> slots_all (near1 (unat (tw_now self))) l1 \<and>
     tl_slots l2 = replicate 64 [] \<and> tl_slots l3 = replicate 64 [] \<and> tw_future self = [] \<and>
     unat (tw_base self) = unat (tw_now self) div 1024 * 1024 \<and>
     tw_num_timers self = int (size (level_contents l0 + level_contents l1))"

definition tw_ok :: "timer_wheel \<Rightarrow> bool" where
  "tw_ok self \<longleftrightarrow> (\<exists>l0 l1 l2 l3. tw_at self l0 l1 l2 l3)"

lemma contents_at: "tw_at self l0 l1 l2 l3 \<Longrightarrow> contents self = level_contents l0 + level_contents l1"
  by (simp add: tw_at_def contents_def) (simp add: level_contents_def)

lemma prepend_contents: "tl_slot l (te_target e) < length (tl_slots l) \<Longrightarrow> level_contents (tl_prepend l e) = add_mset e (level_contents l)"
proof -
  let ?j = "tl_slot l (te_target e)"
  assume j: "?j < length (tl_slots l)"
  from mset_concat_update[OF this, of "e # tl_slots l ! ?j"] show ?thesis
    by (simp add: level_contents_def tl_prepend_def Let_def)
qed

lemma prepend_level_ok [simp]: "level_ok b s (tl_prepend l e) = level_ok b s l"
  by (simp add: level_ok_def tl_prepend_def Let_def)

lemma prepend_slots_all:
  "slots_all P l \<Longrightarrow> P (tl_slot l (te_target e)) e \<Longrightarrow> tl_slot l (te_target e) < length (tl_slots l) \<Longrightarrow> slots_all P (tl_prepend l e)"
  by (auto simp: slots_all_def tl_prepend_def Let_def nth_list_update split: if_splits)

text \<open>When a level takes an entry, as arithmetic on the times.\<close>

lemma accepts_arith:
  assumes "level_ok b s l" "unat base div 2 ^ (s + b) = unat now div 2 ^ (s + b)" "unat now + 2 * 2 ^ (s + b) < 2 ^ 64"
  shows "tl_accepts l now base t \<longleftrightarrow> unat t \<le> unat now div 2 ^ (s + b) * 2 ^ (s + b) + 2 ^ (s + b) \<or>
    unat t < unat now div 2 ^ (s + b) * 2 ^ (s + b) + 2 * 2 ^ (s + b) \<and>
    unat t div 2 ^ s mod 2 ^ b * 2 ^ s < unat now div 2 ^ s mod 2 ^ b * 2 ^ s"
proof -
  let ?B = "unat now div 2 ^ (s + b) * 2 ^ (s + b)" and ?S = "(2 :: nat) ^ (s + b)"
  have B: "unat (tl_base l base) = ?B" "unat (tl_span l) = ?S" using level_base[OF assms(1)] level_span[OF assms(1)] assms(2) by auto
  have le: "?B \<le> unat now" by (rule div_times_less_eq_dividend)
  then have lt: "?B + ?S < 2 ^ 64" "?B + ?S * 2 < 2 ^ 64" "?S * 2 < 2 ^ 64" using assms(3) by linarith+
  have "unat (tl_base l base + tl_span l) = ?B + ?S" using B lt(1) by (simp add: unat_word_ariths(1))
  moreover have two: "unat (tl_span l * 2) = ?S * 2" using B lt(3) by (simp add: unat_word_ariths(2))
  have "unat (tl_base l base + tl_span l * 2) = ?B + 2 * ?S"
    using lt(2) by (simp only: unat_word_ariths(1) B(1) two) (simp add: mult.commute)
  ultimately show ?thesis
    unfolding tl_accepts_def word_less_nat_alt level_and[OF assms(1)] by auto
qed

lemma add_timer_ok:
  assumes at: "tw_at self l0 l1 l2 l3" and now: "unat (tw_now self) + 131072 < 2 ^ 64"
    and t: "unat (tw_now self) \<le> unat (te_target e)" "unat (te_target e) \<le> unat (tw_now self) + 64512"
      "unat (te_target e) \<noteq> unat (tw_now self) + 1024 \<or> unat (tw_now self) mod 1024 \<noteq> 0"
    and self': "self' = (timer_wheel_add_timer_entry self e)\<lparr>tw_num_timers := tw_num_timers self + 1\<rparr>"
  shows "tw_ok self' \<and> contents self' = add_mset e (contents self) \<and> tw_now self' = tw_now self \<and> tw_fired self' = tw_fired self"
proof -
  let ?n = "unat (tw_now self)" and ?t = "unat (te_target e)"
  have l: "level_ok 10 0 l0" "level_ok 6 10 l1" "tw_levels self = [l0, l1, l2, l3]" "unat (tw_base self) = ?n div 1024 * 1024"
    using at by (auto simp: tw_at_def)
  have b: "unat (tw_base self) div 1024 = ?n div 1024" "unat (tw_base self) div 65536 = ?n div 65536"
    using l(4) by (simp_all add: div_mult2_eq[of _ 1024 64, simplified])
  have a0: "tl_accepts l0 (tw_now self) (tw_base self) (te_target e) \<longleftrightarrow>
      ?t \<le> ?n div 1024 * 1024 + 1024 \<or> ?t < ?n div 1024 * 1024 + 2048 \<and> ?t mod 1024 < ?n mod 1024"
    using accepts_arith[OF l(1), of "tw_base self" "tw_now self" "te_target e"] b(1) now by simp
  have a1: "tl_accepts l1 (tw_now self) (tw_base self) (te_target e) \<longleftrightarrow>
      ?t \<le> ?n div 65536 * 65536 + 65536 \<or> ?t < ?n div 65536 * 65536 + 131072 \<and> ?t div 1024 mod 64 * 1024 < ?n div 1024 mod 64 * 1024"
    using accepts_arith[OF l(2), of "tw_base self" "tw_now self" "te_target e"] b(2) now by simp
  note sl = level_slot_less[OF l(1), of "te_target e"] level_slot_less[OF l(2), of "te_target e"]
  note c = prepend_contents[OF sl(1)] prepend_contents[OF sl(2)]
  show ?thesis
  proof (cases "tl_accepts l0 (tw_now self) (tw_base self) (te_target e)")
    case True
    then have lev: "timer_wheel_add_timer_entry self e = self\<lparr>tw_levels := [tl_prepend l0 e, l1, l2, l3]\<rparr>"
      using l(3) by (simp add: timer_wheel_add_timer_entry_def)
    have "near0 ?n (tl_slot l0 (te_target e)) e"
      using near_level0[OF t(1,3)] True a0 t(1) by (simp add: near0_def level_slot[OF l(1)])
    then have "tw_at self' (tl_prepend l0 e) l1 l2 l3"
      using at sl(1) by (simp add: self' lev tw_at_def prepend_slots_all c)
    then show ?thesis using contents_at[OF at] contents_at[of self'] c self' lev by (auto simp: tw_ok_def)
  next
    case False
    then have lev: "timer_wheel_add_timer_entry self e = self\<lparr>tw_levels := [l0, tl_prepend l1 e, l2, l3]\<rparr>"
      using l(3) near_level1(2)[OF t(1,2)] a1 by (simp add: timer_wheel_add_timer_entry_def)
    have "near1 ?n (tl_slot l1 (te_target e)) e"
      using near_level1(1)[OF t(1,2)] far_level0[of ?t ?n] False a0 by (simp add: near1_def level_slot[OF l(2)])
    then have "tw_at self' l0 (tl_prepend l1 e) l2 l3"
      using at sl(2) by (simp add: self' lev tw_at_def prepend_slots_all c)
    then show ?thesis using contents_at[OF at] contents_at[of self'] c self' lev by (auto simp: tw_ok_def)
  qed
qed

subsection \<open>One second\<close>

lemma clear_slot:
  assumes "level_ok b s l" "j < length (tl_slots l)" "l' = l\<lparr>tl_slots := (tl_slots l)[j := []]\<rparr>"
  shows "level_ok b s l'" "level_contents l = level_contents l' + mset (tl_slots l ! j)"
    "slots_all P l \<Longrightarrow> slots_all (\<lambda>i e. P i e \<and> i \<noteq> j) l'"
  using assms mset_concat_update[OF assms(2), of "[]"]
  by (auto simp: level_ok_def level_contents_def slots_all_def nth_list_update split: if_splits)

lemma slots_all_contents:
  assumes "slots_all P l" "e \<in># level_contents l"
  shows "\<exists>j. P j e"
proof -
  obtain x where "x \<in> set (tl_slots l)" "e \<in> set x" using assms(2) by (auto simp: level_contents_def)
  moreover then obtain j where "j < length (tl_slots l)" "tl_slots l ! j = x" by (auto simp: in_set_conv_nth)
  ultimately show ?thesis using assms(1) by (auto simp: slots_all_def)
qed

lemma slots_all_mono:
  assumes "slots_all P l" "\<And>j e. P j e \<Longrightarrow> e \<in># level_contents l \<Longrightarrow> Q j e"
  shows "slots_all Q l"
  unfolding slots_all_def
proof (intro allI impI ballI)
  fix j e
  assume j: "j < length (tl_slots l)" "e \<in> set (tl_slots l ! j)"
  then have "e \<in># level_contents l" using nth_mem[OF j(1)] by (auto simp: level_contents_def)
  then show "Q j e" using assms j by (auto simp: slots_all_def)
qed

lemma same_slot: "n \<le> t \<Longrightarrow> t < n + 1024 \<Longrightarrow> t mod 1024 = n mod 1024 \<Longrightarrow> t = (n :: nat)"
proof -
  assume *: "n \<le> t" "t < n + 1024" "t mod 1024 = n mod 1024"
  have "t = t div 1024 * 1024 + t mod 1024" "n = n div 1024 * 1024 + n mod 1024" by simp_all
  moreover from this have "t div 1024 = n div 1024" using * by linarith
  ultimately show ?thesis using *(3) by linarith
qed

lemma fire_ok:
  assumes at: "tw_at self l0 l1 l2 l3"
  shows "\<exists>l0' due. tw_at (tw_fire self) l0' l1 l2 l3 \<and> tw_fired (tw_fire self) = tw_fired self @ map (Pair (tw_now self)) due \<and>
    (\<forall>e \<in> set due. te_target e = tw_now self) \<and> contents self = contents (tw_fire self) + mset due \<and>
    (\<forall>e \<in># contents (tw_fire self). unat (tw_now self) < unat (te_target e))"
proof -
  let ?n = "unat (tw_now self)"
  define j where "j = tl_slot l0 (tw_now self)"
  define due where "due = tl_slots l0 ! j"
  define l0' where "l0' = l0\<lparr>tl_slots := (tl_slots l0)[j := []]\<rparr>"
  have l: "level_ok 10 0 l0" "tw_levels self = [l0, l1, l2, l3]" "slots_all (near0 ?n) l0" "slots_all (near1 ?n) l1"
    using at by (auto simp: tw_at_def)
  have j: "j < length (tl_slots l0)" "j = ?n mod 1024" using level_slot_less[OF l(1)] level_slot[OF l(1)] by (auto simp: j_def)
  note c = clear_slot[OF l(1) j(1) l0'_def, folded due_def]
  have fire: "tw_fire self = self\<lparr>tw_levels := [l0', l1, l2, l3], tw_num_timers := tw_num_timers self - int (length due),
      tw_fired := tw_fired self @ map (Pair (tw_now self)) due\<rparr>"
    using l(2) by (simp add: tw_fire_def Let_def j_def due_def l0'_def)
  have at': "tw_at (tw_fire self) l0' l1 l2 l3"
    using at c(1,2) slots_all_mono[OF c(3)[OF l(3)]] by (auto simp: fire tw_at_def)
  have due: "te_target e = tw_now self" if "e \<in> set due" for e
  proof -
    have "near0 ?n j e" using that l(3) j(1) by (auto simp: slots_all_def due_def)
    then have "unat (te_target e) = ?n" using j(2) same_slot unfolding near0_def by blast
    then show ?thesis by (simp add: word_unat_eq_iff)
  qed
  have later: "?n < unat (te_target e)" if "e \<in># contents (tw_fire self)" for e
  proof -
    have "e \<in># level_contents l0' \<or> e \<in># level_contents l1" using that contents_at[OF at'] by auto
    then show ?thesis
    proof
      assume "e \<in># level_contents l0'"
      from slots_all_contents[OF c(3)[OF l(3)] this] obtain i where "near0 ?n i e" "i \<noteq> j" by blast
      then show ?thesis using j(2) by (cases "unat (te_target e) = ?n") (auto simp: near0_def)
    next
      assume "e \<in># level_contents l1"
      from slots_all_contents[OF l(4) this] have "?n div 1024 < unat (te_target e) div 1024" by (auto simp: near1_def)
      then show ?thesis by (metis div_le_mono leD not_le)
    qed
  qed
  have "contents self = contents (tw_fire self) + mset due" using contents_at[OF at] contents_at[OF at'] c(2) by simp
  moreover have "tw_fired (tw_fire self) = tw_fired self @ map (Pair (tw_now self)) due" by (simp add: fire)
  ultimately show ?thesis using at' due later by blast
qed

lemma fold_prepend:
  assumes "level_ok b s l" "slots_all P l" "\<forall>e \<in> set es. P (unat (te_target e) div 2 ^ s mod 2 ^ b) e"
  shows "level_ok b s (fold (\<lambda>e l. tl_prepend l e) es l)" "slots_all P (fold (\<lambda>e l. tl_prepend l e) es l)"
    "level_contents (fold (\<lambda>e l. tl_prepend l e) es l) = level_contents l + mset es"
proof -
  have "level_ok b s (fold (\<lambda>e l. tl_prepend l e) es l) \<and> slots_all P (fold (\<lambda>e l. tl_prepend l e) es l) \<and>
    level_contents (fold (\<lambda>e l. tl_prepend l e) es l) = level_contents l + mset es"
    using assms
  proof (induction es arbitrary: l)
    case (Cons e es)
    note sl = level_slot_less[OF Cons.prems(1), of "te_target e"]
    have "slots_all P (tl_prepend l e)" using Cons.prems sl by (simp add: prepend_slots_all level_slot[OF Cons.prems(1)])
    then show ?case using Cons.IH[of "tl_prepend l e"] Cons.prems prepend_contents[OF sl] by simp
  qed simp
  then show "level_ok b s (fold (\<lambda>e l. tl_prepend l e) es l)" "slots_all P (fold (\<lambda>e l. tl_prepend l e) es l)"
    "level_contents (fold (\<lambda>e l. tl_prepend l e) es l) = level_contents l + mset es" by simp_all
qed

text \<open>Levels without entries do not change.\<close>

lemma empty_level:
  assumes "level_ok 6 s l" "tl_slots l = replicate 64 []"
  shows "tl_slots l ! next_slot l now = []" "l\<lparr>tl_slots := (tl_slots l)[next_slot l now := []]\<rparr> = l"
proof -
  have "tl_slot l now < 64" using level_slot_less[OF assms(1)] assms(2) by simp
  then have n: "next_slot l now < 64" using assms(1) by (auto simp: next_slot_def Let_def level_ok_def)
  then show "tl_slots l ! next_slot l now = []" using assms(2) by simp
  have "(replicate 64 [])[next_slot l now := []] = replicate 64 ([] :: tw_entry list)"
    using list_update_id[of "replicate 64 ([] :: tw_entry list)" "next_slot l now"] n by simp
  then show "l\<lparr>tl_slots := (tl_slots l)[next_slot l now := []]\<rparr> = l" using assms(2) by simp
qed

lemma cascade_eq:
  assumes "tw_at self l0 l1 l2 l3"
  shows "timer_wheel_cascade self = self\<lparr>tw_levels := [fold (\<lambda>e l. tl_prepend l e) (tl_slots l1 ! next_slot l1 (tw_now self)) l0,
      l1\<lparr>tl_slots := (tl_slots l1)[next_slot l1 (tw_now self) := []]\<rparr>, l2, l3],
    tw_base := tw_base self + 1024\<rparr>"
proof -
  have l: "level_ok 6 16 l2" "level_ok 6 22 l3" "tl_slots l2 = replicate 64 []" "tl_slots l3 = replicate 64 []"
    "tw_levels self = [l0, l1, l2, l3]" "tw_future self = []" "level_ok 10 0 l0"
    using assms by (auto simp: tw_at_def)
  note e = empty_level[OF l(1,3)] empty_level[OF l(2,4)]
  have num: "tl_num (fold (\<lambda>e l. tl_prepend l e) es l0) = 1024" for es
  proof -
    have "level_ok 10 0 (fold (\<lambda>e l. tl_prepend l e) es l0)" using fold_prepend(1)[OF l(7), of "\<lambda>j e. True" es] by (simp add: slots_all_def)
    then show ?thesis by (simp add: level_ok_def)
  qed
  show ?thesis
    using l(5,6) e num by (simp add: timer_wheel_cascade_def cascade_future_def Let_def split: prod.split)
qed

lemma div_less_mono_imp: "n div 1024 < t div 1024 \<Longrightarrow> n \<le> (t :: nat)"
  by (metis div_le_mono leD nat_le_linear)

lemma tick_arith:
  fixes n :: nat
  shows "n mod 1024 \<noteq> 1023 \<Longrightarrow> Suc n div 1024 = n div 1024"
    "n mod 1024 = 1023 \<Longrightarrow> Suc n div 1024 = Suc (n div 1024) \<and> Suc n = Suc (n div 1024) * 1024"
proof -
  have e: "n = 1024 * (n div 1024) + n mod 1024" "n mod 1024 < 1024" by simp_all
  show "Suc n div 1024 = n div 1024" if "n mod 1024 \<noteq> 1023"
  proof (rule div_nat_eqI)
    show "1024 * (n div 1024) \<le> Suc n" using e by linarith
    have "n mod 1024 < 1023" using e(2) that by linarith
    then show "Suc n < 1024 * Suc (n div 1024)" unfolding mult_Suc_right using e(1) by linarith
  qed
  show "Suc n div 1024 = Suc (n div 1024) \<and> Suc n = Suc (n div 1024) * 1024" if "n mod 1024 = 1023"
  proof
    show "Suc n = Suc (n div 1024) * 1024" unfolding mult_Suc using e that by linarith
    then show "Suc n div 1024 = Suc (n div 1024)" by (metis nonzero_mult_div_cancel_right zero_neq_numeral)
  qed
qed

text \<open>The block of a time among those that the second level distinguishes.\<close>

lemma next_block:
  fixes n tb :: nat
  assumes "n div 1024 < tb" "tb \<le> n div 1024 + 63" "tb mod 64 = (if n div 1024 mod 64 = 63 then 0 else n div 1024 mod 64 + 1)"
  shows "tb = Suc (n div 1024)"
proof -
  let ?b = "n div 1024"
  have e: "?b = ?b div 64 * 64 + ?b mod 64" "tb = tb div 64 * 64 + tb mod 64" "?b mod 64 < 64" "tb mod 64 < 64" by simp_all
  show ?thesis
  proof (cases "?b mod 64 = 63")
    case True
    then have "tb mod 64 = 0" using assms(3) by simp
    moreover have "tb div 64 = ?b div 64 + 1" using True e assms(1,2) \<open>tb mod 64 = 0\<close> by linarith
    ultimately show ?thesis using e True by linarith
  next
    case False
    then have m: "tb mod 64 = ?b mod 64 + 1" using assms(3) by simp
    then have "tb div 64 = ?b div 64" using e assms(1,2) by linarith
    then show ?thesis using e m by linarith
  qed
qed

lemma tick_ok:
  assumes at: "tw_at self l0 l1 l2 l3" and later: "\<forall>e \<in># contents self. unat (tw_now self) < unat (te_target e)"
    and now: "unat (tw_now self) + 1024 < 2 ^ 64"
  shows "tw_ok (tw_tick self) \<and> contents (tw_tick self) = contents self \<and> unat (tw_now (tw_tick self)) = Suc (unat (tw_now self)) \<and>
    tw_fired (tw_tick self) = tw_fired self"
proof -
  let ?n = "unat (tw_now self)"
  have l: "level_ok 10 0 l0" "level_ok 6 10 l1" "tw_levels self = [l0, l1, l2, l3]" "slots_all (near0 ?n) l0" "slots_all (near1 ?n) l1"
    "unat (tw_base self) = ?n div 1024 * 1024" using at by (auto simp: tw_at_def)
  have suc: "unat (tw_now self + 1) = Suc ?n" using now by (simp add: unat_word_ariths(1))
  have in0: "e \<in># contents self" if "e \<in># level_contents l0" for e using that contents_at[OF at] by simp
  have near: "slots_all (near0 (Suc ?n)) l0"
    using later in0 by (intro slots_all_mono[OF l(4)]) (auto simp: near0_def Suc_le_eq)
  have slot: "tl_slot l0 (tw_now self) = ?n mod 1024" "tl_num l0 = 1024" using level_slot[OF l(1)] l(1) by (auto simp: level_ok_def)
  show ?thesis
  proof (cases "?n mod 1024 = 1023")
    case False
    then have "tw_tick self = self\<lparr>tw_now := tw_now self + 1\<rparr>" using slot l(3) by (simp add: tw_tick_def)
    moreover have "near1 (Suc ?n) = near1 ?n" by (intro ext) (simp add: near1_def tick_arith(1)[OF False])
    then have "tw_at (self\<lparr>tw_now := tw_now self + 1\<rparr>) l0 l1 l2 l3"
      using at near tick_arith(1)[OF False] by (simp add: tw_at_def suc)
    ultimately show ?thesis using contents_at[OF at] contents_at suc by (auto simp: tw_ok_def)
  next
    case True
    define j where "j = next_slot l1 (tw_now self)"
    define l1' where "l1' = l1\<lparr>tl_slots := (tl_slots l1)[j := []]\<rparr>"
    define es where "es = tl_slots l1 ! j"
    let ?l0 = "fold (\<lambda>e l. tl_prepend l e) es l0"
    note b = tick_arith(2)[OF True]
    have jj: "j = (if ?n div 1024 mod 64 = 63 then 0 else ?n div 1024 mod 64 + 1)"
      using l(2) by (simp add: j_def next_slot_def Let_def level_slot[OF l(2)]) (simp add: level_ok_def)
    then have jl: "j < length (tl_slots l1)" using l(2) by (auto simp: level_ok_def)
    note c = clear_slot[OF l(2) jl l1'_def, folded es_def]
    have block: "unat (te_target e) div 1024 = Suc (?n div 1024)" if "near1 ?n j e" for e
      using that next_block jj by (auto simp: near1_def)
    have es: "near0 (Suc ?n) (unat (te_target e) mod 1024) e" if "e \<in> set es" for e
    proof -
      have "near1 ?n j e" using that l(5) jl by (auto simp: slots_all_def es_def)
      from block[OF this] have "unat (te_target e) = Suc (?n div 1024) * 1024 + unat (te_target e) mod 1024"
        by (metis div_mult_mod_eq)
      then have "unat (te_target e) = Suc ?n + unat (te_target e) mod 1024" using b by linarith
      moreover have "unat (te_target e) mod 1024 < 1024" by simp
      ultimately show ?thesis unfolding near0_def by linarith
    qed
    have p: "level_ok 10 0 ?l0" "slots_all (near0 (Suc ?n)) ?l0" "level_contents ?l0 = level_contents l0 + mset es"
      using fold_prepend[OF l(1) near, of es] es by auto
    have n1: "slots_all (near1 (Suc ?n)) l1'"
    proof (rule slots_all_mono[OF c(3)[OF l(5)]])
      fix i e
      assume "near1 ?n i e \<and> i \<noteq> j"
      moreover then have "unat (te_target e) div 1024 \<noteq> Suc (?n div 1024)" using jj by (auto simp: near1_def mod_Suc split: if_splits)
      ultimately show "near1 (Suc ?n) i e" using b by (auto simp: near1_def)
    qed
    have "unat (tw_base self + 1024) = Suc ?n" using l(6) b now by (simp add: unat_word_ariths(1))
    then have base: "unat (tw_base self + 1024) = Suc ?n div 1024 * 1024" using b by linarith
    then have "tw_at (tw_tick self) ?l0 l1' l2 l3"
      using at p n1 c(1,2) slot True l(3) cascade_eq[OF at] suc
      by (simp add: tw_tick_def tw_at_def Let_def flip: j_def es_def l1'_def)
    moreover have "tw_fired (tw_tick self) = tw_fired self" "tw_now (tw_tick self) = tw_now self + 1"
      using slot True l(3) cascade_eq[OF at] by (simp_all add: tw_tick_def Let_def)
    ultimately show ?thesis using contents_at[OF at] contents_at p(3) c(2) suc by (auto simp: tw_ok_def)
  qed
qed

subsection \<open>Setting the time\<close>

lemma jump_ok:
  assumes "tw_at self l0 l1 l2 l3" "tw_num_timers self = 0"
  shows "tw_ok (tw_jump self new_now) \<and> contents (tw_jump self new_now) = {#} \<and> contents self = {#}"
proof -
  have l: "level_ok 10 0 l0" "tw_levels self = [l0, l1, l2, l3]" using assms(1) by (auto simp: tw_at_def)
  have "int (size (level_contents l0)) + int (size (level_contents l1)) = 0" using assms by (simp add: tw_at_def)
  then have "size (level_contents l0) = 0" "size (level_contents l1) = 0" by linarith+
  then have e: "level_contents l0 = {#}" "level_contents l1 = {#}" by simp_all
  have none: "slots_all P l" if "level_contents l = {#}" "slots_all Q l" for P Q l
    using slots_all_mono[OF that(2), of P] that(1) by simp
  have "unat (new_now AND NOT (tl_mask l0)) = unat new_now div 1024 * 1024"
    using level_base[OF l(1), of new_now] l(1) by (simp add: tl_base_def level_ok_def)
  then have "tw_at (tw_jump self new_now) l0 l1 l2 l3"
    using assms(1) none[OF e(1)] none[OF e(2)] l(2) e assms(2) by (auto simp: tw_jump_def tw_at_def)
  then show ?thesis using contents_at[OF assms(1)] contents_at[of "tw_jump self new_now"] e by (auto simp: tw_ok_def)
qed

lemma not_early:
  assumes "tw_ok self" "e \<in># contents self"
  shows "tw_now self \<le> te_target e"
proof -
  obtain l0 l1 l2 l3 where at: "tw_at self l0 l1 l2 l3" using assms(1) by (auto simp: tw_ok_def)
  have "e \<in># level_contents l0 \<or> e \<in># level_contents l1" using assms(2) contents_at[OF at] by auto
  then have "(\<exists>j. near0 (unat (tw_now self)) j e) \<or> (\<exists>j. near1 (unat (tw_now self)) j e)"
    using at slots_all_contents by (fastforce simp: tw_at_def)
  then show ?thesis by (auto simp: near0_def near1_def word_le_nat_alt dest: div_less_mono_imp)
qed

text \<open>What happens when the time goes from \<open>n\<close> to \<open>m\<close>, by the callbacks that were made.\<close>

definition expired :: "guint64 \<Rightarrow> tw_entry multiset \<Rightarrow> (guint64 \<times> tw_entry) list \<Rightarrow> bool" where
  "expired new_now es fired \<longleftrightarrow> sorted (map fst fired) \<and> (\<forall>(t, e) \<in> set fired. t = te_target e) \<and>
     mset (map snd fired) = filter_mset (\<lambda>e. te_target e < new_now) es"

lemma expired_step:
  assumes "expired new_now es' fired" "\<forall>e \<in> set due. te_target e = now" "es = es' + mset due" "now < new_now"
    "\<forall>e \<in># es'. now \<le> te_target e"
  shows "expired new_now es (map (Pair now) due @ fired)"
proof -
  have "now \<le> t" if "(t, e) \<in> set fired" for t e
  proof -
    have "e \<in># mset (map snd fired)" using that by (force simp: image_iff)
    then have "e \<in># es'" using assms(1) by (simp only: expired_def) simp
    moreover have "t = te_target e" using assms(1) that by (auto simp: expired_def)
    ultimately show ?thesis using assms(5) by simp
  qed
  then have "sorted (map fst (map (Pair now) due @ fired))"
    using assms(1) by (auto simp: expired_def sorted_append comp_def map_replicate_const)
  moreover have "filter_mset (\<lambda>e. te_target e < new_now) (mset due) = mset due"
    using assms(2,4) by (intro filter_mset_eq_conv[THEN iffD2]) auto
  ultimately show ?thesis using assms(1-3) by (auto simp: expired_def comp_def add.commute)
qed

lemma run_ok:
  "tw_ok self \<Longrightarrow> tw_now self \<le> new_now \<Longrightarrow> unat new_now + 1024 < 2 ^ 64 \<Longrightarrow>
   \<exists>fired. tw_ok (tw_run self new_now) \<and> tw_now (tw_run self new_now) = new_now \<and> tw_fired (tw_run self new_now) = tw_fired self @ fired \<and>
     expired new_now (contents self) fired \<and> contents (tw_run self new_now) = filter_mset (\<lambda>e. \<not> te_target e < new_now) (contents self)"
proof (induction self new_now rule: tw_run.induct)
  case (1 self new_now)
  obtain l0 l1 l2 l3 where at: "tw_at self l0 l1 l2 l3" using "1.prems"(1) by (auto simp: tw_ok_def)
  have early: "unat (tw_now self) \<le> unat (te_target e)" if "e \<in># contents self" for e
    using not_early[OF "1.prems"(1) that] by (simp add: word_le_nat_alt)
  show ?case
  proof (cases "tw_now self < new_now")
    case False
    then have "new_now = tw_now self" using "1.prems"(2) by simp
    moreover have "filter_mset (\<lambda>e. te_target e < tw_now self) (contents self) = {#}"
      by (auto simp: word_less_nat_alt dest: early)
    moreover have "filter_mset (\<lambda>e. \<not> te_target e < tw_now self) (contents self) = contents self"
      by (intro filter_mset_eq_conv[THEN iffD2]) (auto simp: word_less_nat_alt dest: early)
    ultimately show ?thesis using "1.prems"(1) by (subst (1 2 3 4) tw_run.simps) (auto simp: expired_def)
  next
    case True
    let ?f = "tw_fire self"
    obtain l0' due where f: "tw_at ?f l0' l1 l2 l3" "tw_fired ?f = tw_fired self @ map (Pair (tw_now self)) due"
      "\<forall>e \<in> set due. te_target e = tw_now self" "contents self = contents ?f + mset due"
      "\<forall>e \<in># contents ?f. unat (tw_now self) < unat (te_target e)" using fire_ok[OF at] by blast
    have le: "\<forall>e \<in># contents ?f. tw_now self \<le> te_target e" using f(5) by (auto simp: word_le_nat_alt)
    note step = expired_step[OF _ f(3,4) True le]
    have rest: "filter_mset (\<lambda>e. \<not> te_target e < new_now) (mset due) = {#}" using f(3) True by auto
    show ?thesis
    proof (cases "tw_num_timers ?f = 0")
      case none: True
      note j = jump_ok[OF f(1) none, of new_now]
      have "expired new_now (contents ?f) []" using j by (simp add: expired_def)
      then show ?thesis using True none j step[of "[]"] f(2,4) rest
        by (subst (1 2 3 4) tw_run.simps) (auto simp: Let_def tw_jump_def)
    next
      case False
      have now: "unat (tw_now ?f) + 1024 < 2 ^ 64" using "1.prems"(3) True by (simp add: word_less_nat_alt)
      note t = tick_ok[OF f(1) _ now]
      have t: "tw_ok (tw_tick ?f)" "contents (tw_tick ?f) = contents ?f" "unat (tw_now (tw_tick ?f)) = Suc (unat (tw_now self))"
        "tw_fired (tw_tick ?f) = tw_fired ?f" using tick_ok[OF f(1) _ now] f(5) by auto
      have "tw_now (tw_tick ?f) \<le> new_now" using t(3) True by (simp add: word_le_nat_alt word_less_nat_alt)
      from "1.IH"[OF True refl False t(1) this "1.prems"(3)] obtain fired where
        r: "tw_ok (tw_run (tw_tick ?f) new_now)" "tw_now (tw_run (tw_tick ?f) new_now) = new_now"
        "tw_fired (tw_run (tw_tick ?f) new_now) = tw_fired ?f @ fired" "expired new_now (contents ?f) fired"
        "contents (tw_run (tw_tick ?f) new_now) = filter_mset (\<lambda>e. \<not> te_target e < new_now) (contents ?f)"
        using t(2,4) by auto
      have "tw_run self new_now = tw_run (tw_tick ?f) new_now" using True False by (subst tw_run.simps) (simp add: Let_def)
      then show ?thesis using r step[OF r(4)] f(2,4) rest by (intro exI[of _ "map (Pair (tw_now self)) due @ fired"]) auto
    qed
  qed
qed

subsection \<open>The wheel implements a set of timers\<close>

lemma unlink_at:
  assumes "tw_at self l0 l1 l2 l3" "size (filter_mset (\<lambda>e. te_id e = ident) (contents self)) = 1"
    "self' = (tw_entry_unlink ident self)\<lparr>tw_num_timers := tw_num_timers self - 1\<rparr>"
  shows "\<exists>k0 k1. tw_at self' k0 k1 l2 l3" "contents self' = filter_mset (\<lambda>e. te_id e \<noteq> ident) (contents self)"
proof -
  let ?cut = "\<lambda>l. l\<lparr>tl_slots := map (filter (\<lambda>e. te_id e \<noteq> ident)) (tl_slots l)\<rparr>"
  have ok: "level_ok b s (?cut l) = level_ok b s l" for b s l by (simp add: level_ok_def)
  have sl: "slots_all P l \<Longrightarrow> slots_all P (?cut l)" for P l by (auto simp: slots_all_def)
  have c: "level_contents (?cut l) = filter_mset (\<lambda>e. te_id e \<noteq> ident) (level_contents l)" for l
    by (simp add: level_contents_def flip: mset_filter filter_concat)
  have e: "?cut l2 = l2" "?cut l3 = l3" using assms(1) by (simp_all add: tw_at_def)
  have all: "contents self = level_contents l0 + level_contents l1" using contents_at[OF assms(1)] .
  have "size (contents self) = size (filter_mset (\<lambda>e. te_id e = ident) (contents self)) + size (filter_mset (\<lambda>e. te_id e \<noteq> ident) (contents self))"
    by (simp flip: size_union multiset_partition)
  then have "int (size (filter_mset (\<lambda>e. te_id e \<noteq> ident) (contents self))) = tw_num_timers self - 1"
    using assms(1,2) all by (simp add: tw_at_def)
  then have at: "tw_at self' (?cut l0) (?cut l1) l2 l3"
    using assms(1,3) ok sl c e all by (simp add: tw_at_def tw_entry_unlink_def)
  then show "\<exists>k0 k1. tw_at self' k0 k1 l2 l3" by blast
  show "contents self' = filter_mset (\<lambda>e. te_id e \<noteq> ident) (contents self)" using contents_at[OF at] all c by simp
qed

datatype tw_op = Tw_add int nat nat | Tw_del tw_entry | Tw_mod tw_entry int | Tw_set guint64

fun tw_step :: "tw_op \<Rightarrow> timer_wheel \<Rightarrow> timer_wheel" where
  "tw_step (Tw_add timeout ident data) self = timer_wheel_add_timer self timeout ident data"
| "tw_step (Tw_del entry) self = timer_wheel_del_timer self entry"
| "tw_step (Tw_mod entry timeout) self = timer_wheel_mod_timer self entry timeout"
| "tw_step (Tw_set t) self = timer_wheel_set_time self t"

text \<open>The specification: the time, the pending timers and those that have fired.\<close>

type_synonym tw_spec = "guint64 \<times> tw_entry multiset \<times> tw_entry multiset"

fun spec_step :: "tw_op \<Rightarrow> tw_spec \<Rightarrow> tw_spec" where
  "spec_step (Tw_add timeout ident data) (now, pending, fired) =
     (now, add_mset \<lparr>te_id = ident, te_target = now + of_int timeout, te_data = data\<rparr> pending, fired)"
| "spec_step (Tw_del entry) (now, pending, fired) = (now, filter_mset (\<lambda>e. te_id e \<noteq> te_id entry) pending, fired)"
| "spec_step (Tw_mod entry timeout) (now, pending, fired) =
     (now, add_mset (entry\<lparr>te_target := now + of_int timeout\<rparr>) (filter_mset (\<lambda>e. te_id e \<noteq> te_id entry) pending), fired)"
| "spec_step (Tw_set t) (now, pending, fired) =
     (if now < t then (t, filter_mset (\<lambda>e. \<not> te_target e < t) pending, fired + filter_mset (\<lambda>e. te_target e < t) pending)
      else (now, pending, fired))"

text \<open>What the caller has to observe. The wheel is exact for timeouts up to 18 hours; a timeout of 1024
  seconds must not be set at a multiple of 1024 seconds.\<close>

definition timeout_ok :: "guint64 \<Rightarrow> int \<Rightarrow> bool" where
  "timeout_ok now timeout \<longleftrightarrow> 0 \<le> timeout \<and> timeout \<le> 64512 \<and> (timeout = 1024 \<longrightarrow> unat now mod 1024 \<noteq> 0)"

fun spec_ok :: "tw_op \<Rightarrow> tw_spec \<Rightarrow> bool" where
  "spec_ok (Tw_add timeout ident data) (now, pending, fired) \<longleftrightarrow> timeout_ok now timeout"
| "spec_ok (Tw_del entry) (now, pending, fired) \<longleftrightarrow> size (filter_mset (\<lambda>e. te_id e = te_id entry) pending) = 1"
| "spec_ok (Tw_mod entry timeout) (now, pending, fired) \<longleftrightarrow>
     size (filter_mset (\<lambda>e. te_id e = te_id entry) pending) = 1 \<and> timeout_ok now timeout"
| "spec_ok (Tw_set t) (now, pending, fired) \<longleftrightarrow> unat t < 2 ^ 63"

fun spec_run_ok :: "tw_op list \<Rightarrow> tw_spec \<Rightarrow> bool" where
  "spec_run_ok [] s = True"
| "spec_run_ok (x # xs) s = (spec_ok x s \<and> spec_run_ok xs (spec_step x s))"

definition tw_view :: "timer_wheel \<Rightarrow> tw_spec" where
  "tw_view self = (tw_now self, contents self, mset (map snd (tw_fired self)))"

definition tw_inv :: "timer_wheel \<Rightarrow> bool" where
  "tw_inv self \<longleftrightarrow> tw_ok self \<and> unat (tw_now self) < 2 ^ 63 \<and> sorted (map fst (tw_fired self)) \<and>
     (\<forall>(t, e) \<in> set (tw_fired self). t = te_target e \<and> t < tw_now self)"

lemma target_arith:
  assumes "timeout_ok now timeout" "unat now < 2 ^ 63"
  shows "unat (now + of_int timeout) = unat now + nat timeout"
    "unat now \<le> unat (now + of_int timeout)" "unat (now + of_int timeout) \<le> unat now + 64512"
    "unat (now + of_int timeout) \<noteq> unat now + 1024 \<or> unat now mod 1024 \<noteq> 0" "unat now + 131072 < 2 ^ 64"
proof -
  have t: "0 \<le> timeout" "nat timeout \<le> 64512" using assms(1) by (auto simp: timeout_ok_def)
  have "(of_int timeout :: guint64) = of_nat (nat timeout)" using t(1) by simp
  then show u: "unat (now + of_int timeout) = unat now + nat timeout"
    using t(2) assms(2) by (simp add: unat_word_ariths(1) unat_of_nat)
  show "unat now \<le> unat (now + of_int timeout)" "unat (now + of_int timeout) \<le> unat now + 64512" using u t by simp_all
  show "unat (now + of_int timeout) \<noteq> unat now + 1024 \<or> unat now mod 1024 \<noteq> 0"
    using u assms(1) t(1) by (auto simp: timeout_ok_def)
  show "unat now + 131072 < 2 ^ 64" using assms(2) by simp
qed

text \<open>Each operation keeps the invariant and does what the specification says.\<close>

lemma add_step:
  assumes "tw_inv self" "timeout_ok (tw_now self) timeout"
    "self' = (timer_wheel_add_timer_entry self e)\<lparr>tw_num_timers := tw_num_timers self + 1\<rparr>" "te_target e = tw_now self + of_int timeout"
  shows "tw_inv self'" "tw_view self' = (tw_now self, add_mset e (contents self), mset (map snd (tw_fired self)))"
proof -
  obtain l0 l1 l2 l3 where at: "tw_at self l0 l1 l2 l3" using assms(1) by (auto simp: tw_inv_def tw_ok_def)
  have now: "unat (tw_now self) < 2 ^ 63" using assms(1) by (simp add: tw_inv_def)
  note t = target_arith[OF assms(2) now, folded assms(4)]
  from add_timer_ok[OF at t(5,2,3,4) assms(3)] assms(1)
  show "tw_inv self'" "tw_view self' = (tw_now self, add_mset e (contents self), mset (map snd (tw_fired self)))"
    by (simp_all add: tw_inv_def tw_view_def)
qed

lemma unlink_step:
  assumes "tw_inv self" "size (filter_mset (\<lambda>e. te_id e = ident) (contents self)) = 1"
    "self' = (tw_entry_unlink ident self)\<lparr>tw_num_timers := tw_num_timers self - 1\<rparr>"
  shows "tw_inv self'" "tw_view self' = (tw_now self, filter_mset (\<lambda>e. te_id e \<noteq> ident) (contents self), mset (map snd (tw_fired self)))"
proof -
  obtain l0 l1 l2 l3 where at: "tw_at self l0 l1 l2 l3" using assms(1) by (auto simp: tw_inv_def tw_ok_def)
  have "tw_now self' = tw_now self" "tw_fired self' = tw_fired self" by (simp_all add: assms(3) tw_entry_unlink_def)
  then show "tw_inv self'" "tw_view self' = (tw_now self, filter_mset (\<lambda>e. te_id e \<noteq> ident) (contents self), mset (map snd (tw_fired self)))"
    using unlink_at[OF at assms(2,3)] assms(1) by (auto simp: tw_inv_def tw_view_def tw_ok_def)
qed

lemma set_step:
  assumes "tw_inv self" "unat t < 2 ^ 63" "tw_now self < t"
  shows "tw_inv (timer_wheel_set_time self t)"
    "tw_view (timer_wheel_set_time self t) = (t, filter_mset (\<lambda>e. \<not> te_target e < t) (contents self),
      mset (map snd (tw_fired self)) + filter_mset (\<lambda>e. te_target e < t) (contents self))"
proof -
  let ?s = "timer_wheel_set_time self t"
  have inv: "tw_ok self" "sorted (map fst (tw_fired self))" "\<forall>(t, e) \<in> set (tw_fired self). t = te_target e \<and> t < tw_now self"
    using assms(1) by (auto simp: tw_inv_def)
  obtain l0 l1 l2 l3 where at: "tw_at self l0 l1 l2 l3" using inv(1) by (auto simp: tw_ok_def)
  have "\<exists>fired. tw_ok ?s \<and> tw_now ?s = t \<and> tw_fired ?s = tw_fired self @ fired \<and> expired t (contents self) fired \<and>
      contents ?s = filter_mset (\<lambda>e. \<not> te_target e < t) (contents self)"
  proof (cases "tw_num_timers self = 0")
    case True
    then show ?thesis using jump_ok[OF at True, of t] assms(3) by (intro exI[of _ "[]"]) (auto simp: timer_wheel_set_time_def expired_def tw_jump_def)
  next
    case False
    then show ?thesis using run_ok[OF inv(1), of t] assms(2,3) by (auto simp: timer_wheel_set_time_def)
  qed
  then obtain fired where r: "tw_ok ?s" "tw_now ?s = t" "tw_fired ?s = tw_fired self @ fired" "expired t (contents self) fired"
    "contents ?s = filter_mset (\<lambda>e. \<not> te_target e < t) (contents self)" by blast
  have f: "e \<in># contents self \<and> u = te_target e \<and> u < t" if "(u, e) \<in> set fired" for u e
  proof -
    have "e \<in># mset (map snd fired)" using that by (force simp: image_iff)
    then have "e \<in># filter_mset (\<lambda>e. te_target e < t) (contents self)" using r(4) by (simp only: expired_def)
    then show ?thesis using r(4) that by (auto simp: expired_def)
  qed
  have "tw_now self \<le> u" if "(u, e) \<in> set fired" for u e using f[OF that] not_early[OF inv(1)] by auto
  then have "sorted (map fst (tw_fired ?s))"
    using r(3,4) inv(2,3) by (fastforce simp: sorted_append expired_def)
  then show "tw_inv ?s" using r assms f inv(3) by (fastforce simp: tw_inv_def)
  show "tw_view ?s = (t, filter_mset (\<lambda>e. \<not> te_target e < t) (contents self),
      mset (map snd (tw_fired self)) + filter_mset (\<lambda>e. te_target e < t) (contents self))"
    using r by (simp add: tw_view_def expired_def)
qed

lemma step_ok:
  assumes "tw_inv self" "spec_ok x (tw_view self)"
  shows "tw_inv (tw_step x self)" "tw_view (tw_step x self) = spec_step x (tw_view self)"
proof -
  have "tw_inv (tw_step x self) \<and> tw_view (tw_step x self) = spec_step x (tw_view self)"
  proof (cases x)
    case (Tw_add timeout ident data)
    have "timer_wheel_add_timer self timeout ident data = (timer_wheel_add_timer_entry self \<lparr>te_id = ident, te_target = tw_now self + of_int timeout, te_data = data\<rparr>)
        \<lparr>tw_num_timers := tw_num_timers self + 1\<rparr>"
      by (simp add: timer_wheel_add_timer_def Let_def timer_wheel_add_timer_entry_def split: option.split)
    from add_step[OF assms(1) _ this, of timeout] show ?thesis using assms(2) Tw_add by (simp add: tw_view_def)
  next
    case (Tw_del entry)
    have "timer_wheel_del_timer self entry = (tw_entry_unlink (te_id entry) self)\<lparr>tw_num_timers := tw_num_timers self - 1\<rparr>"
      by (simp add: timer_wheel_del_timer_def Let_def tw_entry_unlink_def)
    from unlink_step[OF assms(1) _ this] show ?thesis using assms(2) Tw_del by (simp add: tw_view_def)
  next
    case (Tw_mod entry timeout)
    define mid where "mid = (tw_entry_unlink (te_id entry) self)\<lparr>tw_num_timers := tw_num_timers self - 1\<rparr>"
    have m: "tw_inv mid" "tw_view mid = (tw_now self, filter_mset (\<lambda>e. te_id e \<noteq> te_id entry) (contents self), mset (map snd (tw_fired self)))"
      using unlink_step[OF assms(1) _ mid_def] assms(2) Tw_mod by (auto simp: tw_view_def)
    have "timer_wheel_mod_timer self entry timeout = (timer_wheel_add_timer_entry mid (entry\<lparr>te_target := tw_now mid + of_int timeout\<rparr>))
        \<lparr>tw_num_timers := tw_num_timers mid + 1\<rparr>"
      by (simp add: timer_wheel_mod_timer_def mid_def timer_wheel_add_timer_entry_def tw_entry_unlink_def split: option.split)
    from add_step[OF m(1) _ this, of timeout] show ?thesis using assms(2) Tw_mod m(2) by (auto simp: tw_view_def)
  next
    case (Tw_set t)
    then show ?thesis using set_step[OF assms(1), of t] assms by (cases "tw_now self < t") (auto simp: tw_view_def timer_wheel_set_time_def not_less)
  qed
  then show "tw_inv (tw_step x self)" "tw_view (tw_step x self) = spec_step x (tw_view self)" by simp_all
qed

lemma steps_ok:
  "tw_inv self \<Longrightarrow> spec_run_ok xs (tw_view self) \<Longrightarrow> tw_inv (fold tw_step xs self) \<and> tw_view (fold tw_step xs self) = fold spec_step xs (tw_view self)"
proof (induction xs arbitrary: self)
  case (Cons x xs)
  then show ?case using Cons.IH[of "tw_step x self"] step_ok[OF Cons.prems(1), of x] by simp
qed simp

lemma new_level:
  assumes "s + b < 64"
  shows "level_ok b s (tw_level_new b s)" "tl_slots (tw_level_new b s) = replicate (2 ^ b) []"
  using assms by (simp_all add: level_ok_def tw_level_new_def Let_def mask_eq_exp_minus_1 push_bit_eq_mult)

lemma new_inv: "tw_inv timer_wheel_new" "tw_view timer_wheel_new = (0, {#}, {#})"
proof -
  have s: "slots_all P l" "level_contents l = {#}" if "tl_slots l = replicate n []" for P l n
    using that by (auto simp: slots_all_def level_contents_def)
  have at: "tw_at timer_wheel_new (tw_level_new 10 0) (tw_level_new 6 10) (tw_level_new 6 16) (tw_level_new 6 22)"
    using new_level[of 0 10] new_level[of 10 6] new_level[of 16 6] new_level[of 22 6] s
    by (simp add: tw_at_def timer_wheel_new_def)
  have c: "contents timer_wheel_new = {#}"
    using contents_at[OF at] s(2) new_level(2)[of 0 10] new_level(2)[of 10 6] by simp
  show "tw_inv timer_wheel_new" "tw_view timer_wheel_new = (0, {#}, {#})"
    using at c by (auto simp: tw_inv_def tw_ok_def tw_view_def timer_wheel_new_def)
qed

subsection \<open>Properties\<close>

text \<open>C13: The wheel implements a set of timers. For every sequence of adding, deleting and changing timers
  and setting the time, with timeouts as the specification permits them, the pending timers and those that fired
  are exactly the ones that the specification computes from the targets alone. Every callback
  is made with the time of its target, callbacks come in the order of their targets, and the counter of
  timers is right.\<close>

theorem timer_wheel_refines_timer_set:
  assumes "spec_run_ok ops (0, {#}, {#})" "self = fold tw_step ops timer_wheel_new"
  shows "(tw_now self, contents self, mset (map snd (tw_fired self))) = fold spec_step ops (0, {#}, {#}) \<and>
    (\<forall>(t, e) \<in> set (tw_fired self). t = te_target e) \<and> sorted (map fst (tw_fired self)) \<and>
    tw_num_timers self = int (size (contents self))"
proof -
  have r: "tw_inv self" "tw_view self = fold spec_step ops (0, {#}, {#})"
    using steps_ok[OF new_inv(1), of ops] assms new_inv(2) by auto
  obtain l0 l1 l2 l3 where at: "tw_at self l0 l1 l2 l3" using r(1) by (auto simp: tw_inv_def tw_ok_def)
  have "tw_num_timers self = int (size (contents self))" using contents_at[OF at] at by (simp add: tw_at_def)
  then show ?thesis using r by (auto simp: tw_inv_def tw_view_def)
qed

theorem timer_wheel_refines_timer_set_witness:
  "let self = fold tw_step [Tw_set 1340000000, Tw_add 30 1 7, Tw_add 5000 2 8, Tw_mod \<lparr>te_id = 1, te_target = 1340000030, te_data = 7\<rparr> 40, Tw_set 1340001000] timer_wheel_new
   in tw_now self = 1340001000 \<and> contents self = {#\<lparr>te_id = 2, te_target = 1340005000, te_data = 8\<rparr>#} \<and>
      mset (map snd (tw_fired self)) = {#\<lparr>te_id = 1, te_target = 1340000040, te_data = 7\<rparr>#}"
proof -
  let ?ops = "[Tw_set 1340000000, Tw_add 30 1 7, Tw_add 5000 2 8, Tw_mod \<lparr>te_id = 1, te_target = 1340000030, te_data = 7\<rparr> 40, Tw_set 1340001000]"
  have "spec_run_ok ?ops (0, {#}, {#})" by (simp add: timeout_ok_def)
  from timer_wheel_refines_timer_set[OF this refl] show ?thesis by (simp add: Let_def)
qed

text \<open>C14: A timer that is set for 1024 seconds when the time is a multiple of 1024 fires at once. Its target is the first
  second that the lowest level does not cover, but the test lets it in, and its slot is the
  current one: the callback is made a full turn of the level too early.\<close>

theorem timer_wheel_fires_early:
  assumes "tw_inv self" "unat (tw_now self) mod 1024 = 0"
  shows "(tw_now self, \<lparr>te_id = ident, te_target = tw_now self + 1024, te_data = data\<rparr>) \<in>
    set (tw_fired (timer_wheel_set_time (timer_wheel_add_timer self 1024 ident data) (tw_now self + 1)))"
proof -
  let ?n = "unat (tw_now self)" and ?e = "\<lparr>te_id = ident, te_target = tw_now self + 1024, te_data = data\<rparr>"
  obtain l0 l1 l2 l3 where at: "tw_at self l0 l1 l2 l3" using assms(1) by (auto simp: tw_inv_def tw_ok_def)
  have l: "level_ok 10 0 l0" "tw_levels self = [l0, l1, l2, l3]" "unat (tw_base self) = ?n div 1024 * 1024" "?n < 2 ^ 63"
    "0 \<le> tw_num_timers self" using at assms(1) by (auto simp: tw_at_def tw_inv_def)
  have t: "unat (tw_now self + 1024) = ?n + 1024" "unat (tw_now self + 1) = ?n + 1" "?n = ?n div 1024 * 1024"
    using l(4) assms(2) by (auto simp: unat_word_ariths(1))
  have "tl_accepts l0 (tw_now self) (tw_base self) (tw_now self + 1024)"
    using accepts_arith[OF l(1), of "tw_base self" "tw_now self" "tw_now self + 1024"] l(3,4) t(1,3) by simp
  then have add: "timer_wheel_add_timer self 1024 ident data = self\<lparr>tw_levels := [tl_prepend l0 ?e, l1, l2, l3], tw_num_timers := tw_num_timers self + 1\<rparr>"
    (is "_ = ?s") using l(2) by (simp add: timer_wheel_add_timer_def timer_wheel_add_timer_entry_def Let_def)
  have slot: "tl_slot (tl_prepend l0 ?e) (tw_now self) = 0" "tl_slot l0 (tw_now self + 1024) = 0"
    using level_slot[of 10 0 "tl_prepend l0 ?e" "tw_now self"] level_slot[OF l(1), of "tw_now self + 1024"] l(1) assms(2) t(1) by simp_all
  have "?e \<in> set (tl_slots (tl_prepend l0 ?e) ! 0)"
    using slot(2) l(1) by (simp add: tl_prepend_def Let_def level_ok_def)
  then have f: "(tw_now self, ?e) \<in> set (tw_fired (tw_fire ?s))" using slot(1) by (simp add: tw_fire_def Let_def)
  have less: "tw_now self < tw_now self + 1" using t(2) by (simp add: word_less_nat_alt)
  have tick: "tw_fired (tw_tick s) = tw_fired s" "tw_now (tw_tick s) = tw_now s + 1" for s
    by (simp_all add: tw_tick_def timer_wheel_cascade_def cascade_future_def Let_def split: prod.split)
  have stop: "tw_run s (tw_now s) = s" for s by (subst tw_run.simps) simp
  have "tw_fired (tw_run ?s (tw_now self + 1)) = tw_fired (tw_fire ?s)"
    using less tick stop[of "tw_tick (tw_fire ?s)"] by (subst tw_run.simps) (simp add: Let_def tw_jump_def)
  moreover have "\<not> tw_now self + 1 \<le> tw_now self" using less by (simp only: not_le)
  ultimately show ?thesis using f l(5) by (simp only: add timer_wheel_set_time_def) (simp add: Let_def)
qed

theorem timer_wheel_fires_early_witness:
  "(0, \<lparr>te_id = 1, te_target = 1024, te_data = 7\<rparr>) \<in> set (tw_fired (timer_wheel_set_time (timer_wheel_add_timer timer_wheel_new 1024 1 7) 1))"
  using timer_wheel_fires_early[OF new_inv(1), of 1 7] by (simp add: timer_wheel_new_def)

end
