(* ===== verification/Find_Eom.thy ===== *)
theory Find_Eom
  imports Find_Crlf
begin

text \<open>
  \<^verbatim>\<open>find_eom\<close> of \<^verbatim>\<open>lib/logproto-server.c\<close>: the end of a message in a buffer, a line feed or a NUL. It has the
  structure of \<^verbatim>\<open>find_cr_or_lf\<close>, but a NUL is a hit here, and the carry trick is applied twice.
\<close>

subsection \<open>The search\<close>

abbreviation is_eom :: "char \<Rightarrow> bool" where
  "is_eom c \<equiv> c = CHR 0x0A \<or> c = NUL"

fun eom_bytes :: "nat \<Rightarrow> string \<Rightarrow> nat option" where
  "eom_bytes i [] = None"
| "eom_bytes i (c # cs) = (if is_eom c then Some i else eom_bytes (Suc i) cs)"

definition eom_test :: "guint64 \<Rightarrow> bool" where
  "eom_test longword \<longleftrightarrow> zero_byte_test longword \<or> zero_byte_test (longword XOR le_word (replicate 8 CHR 0x0A))"

function eom_loop :: "nat \<Rightarrow> string \<Rightarrow> nat option" where
  "eom_loop i s =
     (if length s > 8 then
        (if eom_test (le_word (take 8 s)) then
           (case eom_bytes i (take 8 s) of
              Some j \<Rightarrow> Some j
            | None \<Rightarrow> eom_loop (i + 8) (drop 8 s))
         else eom_loop (i + 8) (drop 8 s))
      else eom_bytes i s)"
  by pat_completeness auto
termination
  by (relation "measure (\<lambda>(i, s). length s)") auto

declare eom_loop.simps [simp del]

definition find_eom :: "nat \<Rightarrow> string \<Rightarrow> nat option" where
  "find_eom addr s =
     (let k = min (length s) ((8 - addr mod 8) mod 8)
      in case eom_bytes 0 (take k s) of
           Some i \<Rightarrow> Some i
         | None \<Rightarrow> eom_loop k (drop k s))"

subsection \<open>What it finds\<close>

lemma eom_bytes_append:
  "eom_bytes i (u @ v) = (case eom_bytes i u of None \<Rightarrow> eom_bytes (i + length u) v | r \<Rightarrow> r)"
  by (induction u arbitrary: i) (auto split: option.split)

lemma eom_bytes_None: "(\<forall>c \<in> set s. \<not> is_eom c) \<Longrightarrow> eom_bytes i s = None"
  by (induction s arbitrary: i) auto

lemma eom_test_complete:
  assumes "length s = 8" "c \<in> set s" "is_eom c"
  shows "eom_test (le_word s)"
proof -
  obtain i where i: "i < 8" "s ! i = c" using assms(1,2) by (metis in_set_conv_nth)
  have b: "byte_of i (le_word s) = of_nat (code c)" using i assms(1) by (simp add: byte_of_le_word)
  have "byte_of i (le_word (replicate 8 CHR 0x0A)) = of_nat (code (CHR 0x0A))"
    using i(1) by (subst byte_of_le_word) (simp_all only: length_replicate nth_replicate)
  then have "byte_of i (le_word s) = 0 \<or> byte_of i (le_word s XOR le_word (replicate 8 CHR 0x0A)) = 0"
    using assms(3) b by (auto simp only: byte_of_xor) simp_all
  then show ?thesis unfolding eom_test_def using zero_byte_test_byte[OF _ i(1)] by blast
qed

lemma eom_loop_bytes: "eom_loop i s = eom_bytes i s"
proof (induction i s rule: eom_loop.induct)
  case (1 i s)
  show ?case
  proof (cases "length s > 8")
    case True
    have split: "eom_bytes i s = (case eom_bytes i (take 8 s) of None \<Rightarrow> eom_bytes (i + 8) (drop 8 s) | r \<Rightarrow> r)"
      using eom_bytes_append[of i "take 8 s" "drop 8 s"] True by (simp split: option.split)
    have clean: "eom_bytes i (take 8 s) = None" if "\<not> eom_test (le_word (take 8 s))"
      using eom_test_complete[of "take 8 s"] that True by (intro eom_bytes_None) auto
    show ?thesis
      using True 1 clean by (subst eom_loop.simps) (auto simp: split split: option.splits)
  qed (subst eom_loop.simps, simp)
qed

lemma find_eom_bytes: "find_eom addr s = eom_bytes 0 s"
proof -
  define k where "k = min (length s) ((8 - addr mod 8) mod 8)"
  have "eom_bytes 0 s = (case eom_bytes 0 (take k s) of None \<Rightarrow> eom_bytes k (drop k s) | r \<Rightarrow> r)"
    using eom_bytes_append[of 0 "take k s" "drop k s"] by (simp add: k_def split: option.split)
  then show ?thesis
    unfolding find_eom_def Let_def k_def[symmetric] by (simp add: eom_loop_bytes split: option.splits)
qed

lemma eom_bytes_hit: "\<forall>c \<in> set l. \<not> is_eom c \<Longrightarrow> is_eom e \<Longrightarrow> eom_bytes i (l @ e # rest) = Some (i + length l)"
  by (simp add: eom_bytes_append eom_bytes_None)

lemma eom_bytes_less: "eom_bytes j s = Some i \<Longrightarrow> i < j + length s"
  by (induction s arbitrary: j) (fastforce split: if_splits)+

lemma eom_bytes_shift: "eom_bytes (k + j) s = map_option (\<lambda>i. k + i) (eom_bytes j s)"
  by (induction s arbitrary: j) (auto simp flip: add_Suc_right)

end
