(* ===== verification/Log_Proto_Buffered.thy ===== *)
theory Log_Proto_Buffered
  imports Log_Proto Find_Eom
begin

text \<open>
  The servers that share a buffer: \<^verbatim>\<open>lib/logproto-buffered-server.c\<close> with the text, datagram and record servers on top of
  it (\<^verbatim>\<open>logproto-text-server.c\<close>, \<^verbatim>\<open>logproto-dgram-server.c\<close>, \<^verbatim>\<open>logproto-record-server.c\<close>). The two virtual methods of the base
  class are the record \<open>buffered_ops\<close>. As in \<open>Log_Proto\<close> the buffer is explicit memory and an access outside of it, or a
  failed assertion, is the result \<open>None\<close>; a message is given by its text, not as a pointer into the buffer.

  Character conversion belongs to libraries and is an argument: \<open>cv_iconv\<close> takes the input and the free space and gives
  the result, the number of bytes it has consumed and what it has written; \<open>cv_reverse\<close> is the length of the
  text converted back, if it can be. The positions in the raw stream are integers. Their
  32-bit counter is used only where the position is tracked, and there it is bounded by the size of
  the buffer. Socket addresses are left out.
\<close>

subsection \<open>State\<close>

record buffered_state =
  st_buffer_pos :: guint32
  st_pending_buffer_end :: guint32
  st_buffer_size :: guint32
  st_buffer_cached_eol :: guint32
  st_pending_buffer_pos :: guint32
  st_raw_stream_pos :: int
  st_pending_raw_stream_pos :: int
  st_raw_buffer_size :: int
  st_pending_raw_buffer_size :: int
  st_raw_buffer_leftover :: string
  st_file_size :: int
  st_file_inode :: int

definition empty_state :: buffered_state where
  "empty_state =
     \<lparr>st_buffer_pos = 0, st_pending_buffer_end = 0, st_buffer_size = 0, st_buffer_cached_eol = 0, st_pending_buffer_pos = 0,
      st_raw_stream_pos = 0, st_pending_raw_stream_pos = 0, st_raw_buffer_size = 0, st_pending_raw_buffer_size = 0,
      st_raw_buffer_leftover = [], st_file_size = 0, st_file_inode = 0\<rparr>"

datatype iconv_rc = Iconv_ok | Iconv_EINVAL | Iconv_E2BIG | Iconv_EILSEQ

record conv =
  cv_iconv :: "string \<Rightarrow> nat \<Rightarrow> iconv_rc \<times> nat \<times> string"
  cv_reverse :: "string \<Rightarrow> nat option"
  cv_utf8_strlen :: "string \<Rightarrow> nat"

record buffered_server =
  bs_buffer :: "string option"
  bs_status :: lps
  bs_pos_tracking :: bool
  bs_stream_based :: bool
  bs_no_multi_read :: bool
  bs_convert :: "conv option"
  bs_state :: buffered_state

text \<open>\<^verbatim>\<open>fetch_from_buf\<close> looks at the pending part of the buffer and gives a message or none; \<^verbatim>\<open>read_data\<close> reads from the
  transport.\<close>

record 'w buffered_ops =
  bo_fetch_from_buf :: "lps_options \<Rightarrow> bool \<Rightarrow> buffered_server \<Rightarrow> (string option \<times> buffered_server) option"
  bo_read_data :: "'w \<Rightarrow> nat \<Rightarrow> (read_rc \<times> 'w) option"

definition bs_mem :: "buffered_server \<Rightarrow> string" where
  "bs_mem self = (case bs_buffer self of Some mem \<Rightarrow> mem | None \<Rightarrow> [])"

text \<open>\<open>open_conv\<close> is \<^verbatim>\<open>g_iconv_open\<close>; \<open>None\<close> is \<^verbatim>\<open>(GIConv) -1\<close>.\<close>

definition log_proto_buffered_server_init :: "(string \<Rightarrow> conv option) \<Rightarrow> lps_options \<Rightarrow> buffered_server" where
  "log_proto_buffered_server_init open_conv options =
     \<lparr>bs_buffer = None, bs_status = LPS_SUCCESS, bs_pos_tracking = False, bs_stream_based = True, bs_no_multi_read = False,
      bs_convert = Option.bind (po_encoding options) open_conv, bs_state = empty_state\<rparr>"

subsection \<open>Conversion\<close>

text \<open>One call of \<^verbatim>\<open>iconv\<close> behind the data in the buffer: the result, the server with the written bytes and what is left of the
  input. Where the end of the data moves is decided by the result.\<close>

definition convert_step :: "conv \<Rightarrow> string \<Rightarrow> buffered_server \<Rightarrow> (iconv_rc \<times> buffered_server \<times> string) option" where
  "convert_step cv raw self =
     (let st = bs_state self;
          avail_out = st_buffer_size st - st_pending_buffer_end st
      in case cv_iconv cv raw (unat avail_out) of (rc, consumed, out) \<Rightarrow>
           map_option (\<lambda>mem. (rc,
               self\<lparr>bs_buffer := Some mem,
                    bs_state := (if rc = Iconv_EILSEQ \<or> rc = Iconv_EINVAL \<and> \<not> bs_stream_based self then st
                      else st\<lparr>st_pending_buffer_end := st_buffer_size st - (avail_out - of_nat (length out))\<rparr>)\<rparr>,
               drop consumed raw))
             (mem_write (bs_mem self) (unat (st_pending_buffer_end st)) out))"

definition convert_grow :: "lps_options \<Rightarrow> buffered_server \<Rightarrow> buffered_server" where
  "convert_grow options self =
     (let n = st_buffer_size (bs_state self) * 2;
          n = (if n > po_max_buffer_size options then po_max_buffer_size options else n)
      in self\<lparr>bs_state := (bs_state self)\<lparr>st_buffer_size := n\<rparr>, bs_buffer := Some (mem_realloc (bs_mem self) (unat n))\<rparr>)"

partial_function (option) log_proto_buffered_server_convert_from_raw ::
    "lps_options \<Rightarrow> conv \<Rightarrow> string \<Rightarrow> buffered_server \<Rightarrow> (bool \<times> buffered_server) option" where
  "log_proto_buffered_server_convert_from_raw options cv raw self =
     (case convert_step cv raw self of
        None \<Rightarrow> None
      | Some (rc, self', raw') \<Rightarrow>
          (case rc of
             Iconv_EINVAL \<Rightarrow>
               if bs_stream_based self' then
                 (if raw' = [] then Some (True, self')
                  else if length raw' > 8 then Some (False, self')
                  else Some (True, self'\<lparr>bs_state := (bs_state self')\<lparr>st_raw_buffer_leftover := raw',
                         st_raw_buffer_size := st_raw_buffer_size (bs_state self') - int (length raw')\<rparr>\<rparr>))
               else Some (False, self')
           | Iconv_E2BIG \<Rightarrow>
               if st_buffer_size (bs_state self') < po_max_buffer_size options
               then (let self2 = convert_grow options self'
                     in if raw' = [] then Some (True, self2) else log_proto_buffered_server_convert_from_raw options cv raw' self2)
               else Some (False, self')
           | Iconv_EILSEQ \<Rightarrow> Some (False, self')
           | Iconv_ok \<Rightarrow> if raw' = [] then Some (True, self') else log_proto_buffered_server_convert_from_raw options cv raw' self'))"

subsection \<open>Fetching\<close>

definition log_proto_buffered_server_fetch_from_buf ::
    "'w buffered_ops \<Rightarrow> lps_options \<Rightarrow> bool \<Rightarrow> buffered_server \<Rightarrow> (string option \<times> buffered_server) option" where
  "log_proto_buffered_server_fetch_from_buf ops options flush_the_rest self =
     (let st = bs_state self in
      if st_pending_buffer_end st - st_pending_buffer_pos st = 0 then
        (let st1 = (if bs_pos_tracking self
                    then st\<lparr>st_pending_raw_stream_pos := st_pending_raw_stream_pos st + st_pending_raw_buffer_size st,
                            st_pending_raw_buffer_size := 0\<rparr>
                    else st)
         in Some (None, self\<lparr>bs_state := st1\<lparr>st_pending_buffer_pos := 0, st_pending_buffer_end := 0\<rparr>\<rparr>))
      else bo_fetch_from_buf ops options flush_the_rest self)"

definition bs_alloc :: "lps_options \<Rightarrow> buffered_server \<Rightarrow> buffered_server" where
  "bs_alloc options self =
     (if bs_buffer self = None
      then self\<lparr>bs_state := (bs_state self)\<lparr>st_buffer_size := po_init_buffer_size options\<rparr>,
                bs_buffer := Some (replicate (unat (po_init_buffer_size options)) NUL)\<rparr>
      else self)"

text \<open>A fetch gives a status, a message or none, whether another read is permitted, the server and the transport.\<close>

type_synonym 'w bs_fetched = "lps \<times> string option \<times> bool \<times> buffered_server \<times> 'w"

text \<open>The stream has ended with the status \<open>st\<close>: what is in the buffer is the last message, and the status
  is reported by the next call.\<close>

definition bs_flush ::
    "'w buffered_ops \<Rightarrow> lps_options \<Rightarrow> lps \<Rightarrow> lps \<Rightarrow> bool \<Rightarrow> buffered_server \<Rightarrow> 'w \<Rightarrow> 'w bs_fetched option" where
  "bs_flush ops options st result may_read self w =
     map_option (\<lambda>(r, self'). (case r of Some _ \<Rightarrow> result | None \<Rightarrow> bs_status self', r, may_read, self', w))
       (log_proto_buffered_server_fetch_from_buf ops options True (self\<lparr>bs_status := st\<rparr>))"

text \<open>New data are put into the buffer, with what the last conversion left over in front; the result tells whether
  they could be converted.\<close>

definition bs_store :: "lps_options \<Rightarrow> string \<Rightarrow> buffered_server \<Rightarrow> (bool \<times> buffered_server) option" where
  "bs_store options s self =
     (let st = bs_state self;
          left = st_raw_buffer_leftover st;
          st1 = st\<lparr>st_pending_raw_buffer_size := st_pending_raw_buffer_size st + int (length s), st_raw_buffer_leftover := []\<rparr>
      in case bs_convert self of
           None \<Rightarrow>
             map_option (\<lambda>mem. (True, self\<lparr>bs_buffer := Some mem,
                 bs_state := st1\<lparr>st_pending_buffer_end := st_pending_buffer_end st + of_nat (length s + length left)\<rparr>\<rparr>))
               (mem_write (bs_mem self) (unat (st_pending_buffer_end st) + length left) s)
         | Some cv \<Rightarrow> log_proto_buffered_server_convert_from_raw options cv (left @ s) (self\<lparr>bs_state := st1\<rparr>))"

partial_function (option) bs_fetch_loop ::
    "'w buffered_ops \<Rightarrow> lps_options \<Rightarrow> lps \<Rightarrow> bool \<Rightarrow> buffered_server \<Rightarrow> 'w \<Rightarrow> 'w bs_fetched option" where
  "bs_fetch_loop ops options result may_read self w =
     (if \<not> may_read then Some (result, None, may_read, self, w)
      else
        let may_read = \<not> bs_no_multi_read self;
            st = bs_state self;
            avail = (case bs_convert self of
                       None \<Rightarrow> st_buffer_size st - st_pending_buffer_end st
                     | Some _ \<Rightarrow> po_init_buffer_size options)
        in case bo_read_data ops w (unat avail) of
             None \<Rightarrow> None
           | Some (Rfail e, w') \<Rightarrow>
               if e = EAGAIN then Some (result, None, may_read, self, w')
               else bs_flush ops options LPS_ERROR result may_read self w'
           | Some (Got s, w') \<Rightarrow>
               if s = [] then
                 (if st_raw_buffer_leftover st \<noteq> [] then Some (LPS_EOF, None, may_read, self, w')
                  else bs_flush ops options LPS_EOF result may_read self w')
               else
                 (case bs_store options s self of
                    None \<Rightarrow> None
                  | Some (ok, self1) \<Rightarrow>
                      if \<not> ok then Some (LPS_ERROR, None, may_read, self1, w')
                      else (case log_proto_buffered_server_fetch_from_buf ops options False self1 of
                         None \<Rightarrow> None
                       | Some (Some msg, self2) \<Rightarrow> Some (result, Some msg, may_read, self2, w')
                       | Some (None, self2) \<Rightarrow> bs_fetch_loop ops options result may_read self2 w')))"

text \<open>The end of the function: an error stays.\<close>

definition bs_exit :: "'w bs_fetched \<Rightarrow> 'w bs_fetched" where
  "bs_exit = (\<lambda>(result, r, may_read, self, w).
     (result, r, may_read, if result \<noteq> LPS_SUCCESS then self\<lparr>bs_status := result\<rparr> else self, w))"

definition log_proto_buffered_server_fetch ::
    "'w buffered_ops \<Rightarrow> lps_options \<Rightarrow> bool \<Rightarrow> buffered_server \<Rightarrow> 'w \<Rightarrow> 'w bs_fetched option" where
  "log_proto_buffered_server_fetch ops options may_read self w =
     (let result = bs_status self;
          self1 = bs_alloc options self
      in map_option bs_exit
           (case log_proto_buffered_server_fetch_from_buf ops options False self1 of
              None \<Rightarrow> None
            | Some (Some msg, self2) \<Rightarrow> Some (result, Some msg, may_read, self2, w)
            | Some (None, self2) \<Rightarrow> bs_fetch_loop ops options result may_read self2 w))"

definition log_proto_buffered_server_queued :: "buffered_server \<Rightarrow> buffered_server" where
  "log_proto_buffered_server_queued self =
     (let st = bs_state self;
          st1 = st\<lparr>st_buffer_pos := st_pending_buffer_pos st, st_raw_stream_pos := st_pending_raw_stream_pos st,
                   st_raw_buffer_size := st_pending_raw_buffer_size st\<rparr>;
          st2 = (if st_pending_buffer_pos st1 = st_pending_buffer_end st1
                 then st1\<lparr>st_pending_buffer_end := 0, st_buffer_pos := 0, st_pending_buffer_pos := 0\<rparr> else st1);
          st3 = (if bs_pos_tracking self \<and> st_buffer_pos st2 = st_pending_buffer_end st2
                 then st2\<lparr>st_raw_stream_pos := st_raw_stream_pos st2 + st_raw_buffer_size st2, st_raw_buffer_size := 0\<rparr> else st2)
      in self\<lparr>bs_state := st3\<rparr>)"

subsection \<open>Continuing a file\<close>

text \<open>The state that a former run has stored is applied to the file that is open now: \<open>st_ino\<close> and \<open>st_size\<close> are those of the
  file, \<open>seek\<close> positions it. \<open>reread\<close> fills the buffer again; its result tells whether the code goes on or jumps
  to the label \<^verbatim>\<open>error\<close>.\<close>

definition reread ::
    "('w \<Rightarrow> nat \<Rightarrow> read_rc \<times> 'w) \<Rightarrow> lps_options \<Rightarrow> buffered_server \<Rightarrow> 'w \<Rightarrow> (bool \<times> buffered_server \<times> 'w) option" where
  "reread rd options self w =
     (let st = bs_state self; n = st_raw_buffer_size st in
      if (if po_encoding options = None then n mod 2 ^ 32 > uint (st_buffer_size st) else n > sint (po_max_buffer_size options))
      then Some (False, self, w)
      else if n < 0 then None
      else case rd w (nat n) of
             (Rfail e, w') \<Rightarrow> Some (False, self, w')
           | (Got s, w') \<Rightarrow>
               if int (length s) \<noteq> n then Some (False, self, w')
               else
                 (case (if po_encoding options = None
                        then map_option (\<lambda>mem. (True, self\<lparr>bs_buffer := Some mem, bs_state := st\<lparr>st_pending_buffer_end := of_nat (length s)\<rparr>\<rparr>))
                               (mem_write (bs_mem self) 0 s)
                        else case bs_convert self of
                               None \<Rightarrow> Some (False, self)
                             | Some cv \<Rightarrow>
                                 log_proto_buffered_server_convert_from_raw options cv s (self\<lparr>bs_state := st\<lparr>st_pending_buffer_end := 0\<rparr>\<rparr>)) of
                    None \<Rightarrow> None
                  | Some (ok, self1) \<Rightarrow>
                      (let st1 = bs_state self1 in
                       if ok \<and> (st_buffer_pos st1 > st_pending_buffer_end st1 \<or> st_buffer_cached_eol st1 > st_pending_buffer_end st1)
                       then Some (True, self1\<lparr>bs_state := st1\<lparr>st_buffer_pos := 0, st_pending_buffer_pos := 0, st_buffer_cached_eol := 0\<rparr>\<rparr>, w')
                       else Some (ok, self1, w'))))"

text \<open>The labels \<^verbatim>\<open>error\<close>, where the file starts from the beginning, and \<^verbatim>\<open>exit\<close>.\<close>

definition apply_error :: "buffered_server \<Rightarrow> buffered_server" where
  "apply_error self =
     self\<lparr>bs_state := (bs_state self)\<lparr>st_buffer_pos := 0, st_pending_buffer_end := 0, st_buffer_cached_eol := 0, st_raw_stream_pos := 0,
            st_raw_buffer_size := 0, st_raw_buffer_leftover := []\<rparr>\<rparr>"

definition apply_exit :: "int \<Rightarrow> int \<Rightarrow> int \<Rightarrow> buffered_server \<Rightarrow> buffered_server" where
  "apply_exit st_ino st_size ofs self =
     (let st = bs_state self
      in self\<lparr>bs_state := st\<lparr>st_file_inode := st_ino, st_file_size := st_size, st_raw_stream_pos := ofs,
                st_pending_buffer_pos := st_buffer_pos st, st_pending_raw_stream_pos := ofs,
                st_pending_raw_buffer_size := st_raw_buffer_size st\<rparr>\<rparr>)"

text \<open>\<open>g_malloc\<close> of no bytes gives no buffer.\<close>

definition log_proto_buffered_server_apply_state ::
    "('w \<Rightarrow> nat \<Rightarrow> read_rc \<times> 'w) \<Rightarrow> (int \<Rightarrow> 'w \<Rightarrow> 'w) \<Rightarrow> (int \<times> int) option \<Rightarrow> lps_options \<Rightarrow> buffered_server \<Rightarrow> 'w \<Rightarrow>
      (buffered_server \<times> 'w) option" where
  "log_proto_buffered_server_apply_state rd seek fstat options self w =
     (case fstat of
        None \<Rightarrow> Some (self, w)
      | Some (st_ino, st_size) \<Rightarrow>
          let st = bs_state self;
              self1 = self\<lparr>bs_buffer := (if bs_buffer self = None \<and> st_buffer_size st \<noteq> 0
                             then Some (replicate (unat (st_buffer_size st)) NUL) else bs_buffer self),
                           bs_state := st\<lparr>st_pending_buffer_end := 0\<rparr>\<rparr>;
              fail = (\<lambda>self w. (apply_exit st_ino st_size 0 (apply_error self), seek 0 w));
              ofs = st_raw_stream_pos st
          in if \<not> (st_file_inode st \<noteq> 0 \<and> st_file_inode st = st_ino \<and> st_file_size st \<le> st_size \<and> ofs \<le> st_size) then Some (fail self1 w)
             else if st_raw_buffer_size st \<noteq> 0 then
               (case reread rd options self1 (seek ofs w) of
                  None \<Rightarrow> None
                | Some (ok, self2, w2) \<Rightarrow> Some (if ok then (apply_exit st_ino st_size ofs self2, w2) else fail self2 w2))
             else Some (apply_exit st_ino st_size ofs
                    (self1\<lparr>bs_state := (bs_state self1)\<lparr>st_raw_buffer_size := 0, st_buffer_pos := 0, st_pending_buffer_end := 0\<rparr>\<rparr>), seek ofs w))"

subsection \<open>The text server\<close>

definition fixed_encodings :: "(string \<times> nat) list" where
  "fixed_encodings =
     [(''ascii'', 1), (''us-ascii'', 1), (''iso-8859'', 1), (''iso8859'', 1), (''latin'', 1), (''ucs2'', 2), (''ucs-2'', 2), (''ucs4'', 4),
      (''ucs-4'', 4), (''koi'', 1), (''unicode'', 2), (''windows'', 1), (''wchar_t'', 4)]"

definition log_proto_get_char_size_for_fixed_encoding :: "string \<Rightarrow> nat" where
  "log_proto_get_char_size_for_fixed_encoding encoding =
     (case find (\<lambda>(prefix, scale). strcasecmp_eq (take (length prefix) encoding) prefix) fixed_encodings of
        Some (prefix, scale) \<Rightarrow> scale
      | None \<Rightarrow> 0)"

text \<open>The scale and the reverse converter, which the code keeps once it has them, depend on the encoding alone.\<close>

definition log_proto_text_server_get_raw_size_of_buffer :: "conv \<Rightarrow> string \<Rightarrow> string \<Rightarrow> nat" where
  "log_proto_text_server_get_raw_size_of_buffer cv encoding buffer =
     (let scale = log_proto_get_char_size_for_fixed_encoding encoding
      in if scale \<noteq> 0 then cv_utf8_strlen cv buffer * scale
         else case cv_reverse cv buffer of Some n \<Rightarrow> n | None \<Rightarrow> 0)"

definition log_proto_text_server_is_preemptable :: "buffered_server \<Rightarrow> bool" where
  "log_proto_text_server_is_preemptable self \<longleftrightarrow> st_buffer_cached_eol (bs_state self) = 0"

definition log_proto_text_server_prepare :: "buffered_server \<Rightarrow> bool" where
  "log_proto_text_server_prepare self \<longleftrightarrow> st_buffer_cached_eol (bs_state self) \<noteq> 0"

text \<open>The loop that takes the line end off a message.\<close>

definition strip_eol :: "string \<Rightarrow> string" where
  "strip_eol s = rev (dropWhile (\<lambda>c. c = CHR 0x0D \<or> c = CHR 0x0A \<or> c = NUL) (rev s))"

text \<open>No line end was found: the partial line moves to the beginning of the buffer. Options that are valid have a converter for
  their encoding.\<close>

definition text_split :: "lps_options \<Rightarrow> buffered_server \<Rightarrow> (string option \<times> buffered_server) option" where
  "text_split options self =
     (let st = bs_state self;
          pos = unat (st_pending_buffer_pos st);
          bytes = st_pending_buffer_end st - st_pending_buffer_pos st
      in case (mem_slice (bs_mem self) pos (unat bytes), move_front (bs_mem self) pos (unat bytes)) of
           (Some part, Some mem) \<Rightarrow>
             (let raw = (case (po_encoding options, bs_convert self) of
                           (Some encoding, Some cv) \<Rightarrow> int (log_proto_text_server_get_raw_size_of_buffer cv encoding part)
                         | _ \<Rightarrow> int (length part));
                  st1 = st\<lparr>st_pending_buffer_pos := 0, st_pending_buffer_end := bytes\<rparr>;
                  st2 = (if bs_pos_tracking self
                         then st1\<lparr>st_pending_raw_stream_pos := st_pending_raw_stream_pos st + (st_pending_raw_buffer_size st - raw),
                                  st_pending_raw_buffer_size := raw\<rparr>
                         else st1)
              in Some (None, self\<lparr>bs_buffer := Some mem, bs_state := st2\<rparr>))
         | _ \<Rightarrow> None)"

text \<open>A line end is known: the message before it is taken, and the next line end is looked up.\<close>

definition text_line :: "guint32 \<Rightarrow> buffered_server \<Rightarrow> (string option \<times> buffered_server) option" where
  "text_line eol self =
     (let st = bs_state self;
          pos = eol + 1;
          stop = st_pending_buffer_end st
      in case mem_slice (bs_mem self) (unat (st_pending_buffer_pos st)) (unat (eol - st_pending_buffer_pos st)) of
           None \<Rightarrow> None
         | Some line \<Rightarrow>
             if stop = pos then Some (Some (strip_eol line), self\<lparr>bs_state := st\<lparr>st_pending_buffer_pos := stop\<rparr>\<rparr>)
             else map_option (\<lambda>rest. (Some (strip_eol line),
                      self\<lparr>bs_state := st\<lparr>st_pending_buffer_pos := pos,
                        st_buffer_cached_eol := (case find_eom (unat pos) rest of Some i \<Rightarrow> pos + of_nat i | None \<Rightarrow> 0)\<rparr>\<rparr>))
                    (mem_slice (bs_mem self) (unat pos) (unat (stop - pos))))"

text \<open>All that is in the buffer becomes the message.\<close>

definition take_all :: "buffered_server \<Rightarrow> (string option \<times> buffered_server) option" where
  "take_all self =
     (let st = bs_state self
      in map_option (\<lambda>msg. (Some msg, self\<lparr>bs_state := st\<lparr>st_pending_buffer_pos := st_pending_buffer_end st\<rparr>\<rparr>))
           (mem_slice (bs_mem self) (unat (st_pending_buffer_pos st)) (unat (st_pending_buffer_end st - st_pending_buffer_pos st))))"

definition log_proto_text_server_fetch_from_buf ::
    "lps_options \<Rightarrow> bool \<Rightarrow> buffered_server \<Rightarrow> (string option \<times> buffered_server) option" where
  "log_proto_text_server_fetch_from_buf options flush_the_rest self =
     (let st = bs_state self;
          bytes = st_pending_buffer_end st - st_pending_buffer_pos st
      in if flush_the_rest then take_all self
         else if st_buffer_cached_eol st \<noteq> 0
         then text_line (st_buffer_cached_eol st) (self\<lparr>bs_state := st\<lparr>st_buffer_cached_eol := 0\<rparr>\<rparr>)
         else case mem_slice (bs_mem self) (unat (st_pending_buffer_pos st)) (unat bytes) of
                None \<Rightarrow> None
              | Some part \<Rightarrow>
                  (case find_eom (unat (st_pending_buffer_pos st)) part of
                     Some i \<Rightarrow> text_line (st_pending_buffer_pos st + of_nat i) self
                   | None \<Rightarrow> if bytes = st_buffer_size st then take_all self else text_split options self))"

definition text_ops :: "('w \<Rightarrow> nat \<Rightarrow> read_rc \<times> 'w) \<Rightarrow> 'w buffered_ops" where
  "text_ops rd = \<lparr>bo_fetch_from_buf = log_proto_text_server_fetch_from_buf, bo_read_data = (\<lambda>w n. Some (rd w n))\<rparr>"

subsection \<open>Datagrams and records\<close>

definition log_proto_dgram_server_fetch_from_buf ::
    "lps_options \<Rightarrow> bool \<Rightarrow> buffered_server \<Rightarrow> (string option \<times> buffered_server) option" where
  "log_proto_dgram_server_fetch_from_buf options flush_the_rest self = take_all self"

definition dgram_ops :: "('w \<Rightarrow> nat \<Rightarrow> read_rc \<times> 'w) \<Rightarrow> 'w buffered_ops" where
  "dgram_ops rd = \<lparr>bo_fetch_from_buf = log_proto_dgram_server_fetch_from_buf, bo_read_data = (\<lambda>w n. Some (rd w n))\<rparr>"

text \<open>\<open>open_conv\<close> as above; the options are refused when their encoding is not known.\<close>

definition log_proto_server_options_validate :: "(string \<Rightarrow> conv option) \<Rightarrow> lps_options \<Rightarrow> bool" where
  "log_proto_server_options_validate open_conv options \<longleftrightarrow> \<not> (po_encoding options \<noteq> None \<and> Option.bind (po_encoding options) open_conv = None)"

definition log_proto_record_server_validate_options :: "(string \<Rightarrow> conv option) \<Rightarrow> guint32 \<Rightarrow> lps_options \<Rightarrow> bool" where
  "log_proto_record_server_validate_options open_conv record_size options \<longleftrightarrow>
     (if sint (po_max_buffer_size options) < sint record_size then False else log_proto_server_options_validate open_conv options)"

text \<open>The assertion compares as unsigned 64-bit numbers; a short read is an error.\<close>

definition log_proto_record_server_read_data ::
    "('w \<Rightarrow> nat \<Rightarrow> read_rc \<times> 'w) \<Rightarrow> nat \<Rightarrow> 'w \<Rightarrow> nat \<Rightarrow> (read_rc \<times> 'w) option" where
  "log_proto_record_server_read_data rd record_size w len =
     (if len \<ge> record_size
      then Some (case rd w record_size of
                   (Got s, w') \<Rightarrow> (if s \<noteq> [] \<and> length s \<noteq> record_size then Rfail EIO else Got s, w')
                 | (Rfail e, w') \<Rightarrow> (Rfail e, w'))
      else None)"

definition log_proto_binary_record_server_fetch_from_buf ::
    "lps_options \<Rightarrow> bool \<Rightarrow> buffered_server \<Rightarrow> (string option \<times> buffered_server) option" where
  "log_proto_binary_record_server_fetch_from_buf options flush_the_rest self = take_all self"

definition log_proto_padded_record_server_fetch_from_buf ::
    "lps_options \<Rightarrow> bool \<Rightarrow> buffered_server \<Rightarrow> (string option \<times> buffered_server) option" where
  "log_proto_padded_record_server_fetch_from_buf options flush_the_rest self =
     map_option (\<lambda>(r, self').
         (map_option (\<lambda>msg. case find_eom (unat (st_pending_buffer_pos (bs_state self))) msg of Some i \<Rightarrow> take i msg | None \<Rightarrow> msg) r, self'))
       (take_all self)"

definition binary_record_ops :: "('w \<Rightarrow> nat \<Rightarrow> read_rc \<times> 'w) \<Rightarrow> nat \<Rightarrow> 'w buffered_ops" where
  "binary_record_ops rd record_size =
     \<lparr>bo_fetch_from_buf = log_proto_binary_record_server_fetch_from_buf, bo_read_data = log_proto_record_server_read_data rd record_size\<rparr>"

definition padded_record_ops :: "('w \<Rightarrow> nat \<Rightarrow> read_rc \<times> 'w) \<Rightarrow> nat \<Rightarrow> 'w buffered_ops" where
  "padded_record_ops rd record_size =
     \<lparr>bo_fetch_from_buf = log_proto_padded_record_server_fetch_from_buf, bo_read_data = log_proto_record_server_read_data rd record_size\<rparr>"

end
