(* ===== verification/Log_Proto_Text.thy ===== *)
theory Log_Proto_Text
  imports Log_Proto_Buffered Log_Proto_Framed
begin

text \<open>
  Correctness of the text server without a character conversion: the lines of a stream are delivered in order however it is cut
  into pieces (over the contract \<open>byte_stream\<close>), and a file is continued after a restart where its reading was
  confirmed.
\<close>

subsection \<open>The buffer\<close>

definition bs_pending :: "buffered_server \<Rightarrow> string" where
  "bs_pending self = span (bs_mem self) (st_pending_buffer_pos (bs_state self)) (st_pending_buffer_end (bs_state self))"

abbreviation cached_ok :: "buffered_server \<Rightarrow> bool" where
  "cached_ok self \<equiv> st_buffer_cached_eol (bs_state self) \<noteq> 0 \<longrightarrow>
     eom_bytes (unat (st_pending_buffer_pos (bs_state self))) (bs_pending self) = Some (unat (st_buffer_cached_eol (bs_state self)))"

definition bs_sound :: "nat \<Rightarrow> buffered_server \<Rightarrow> bool" where
  "bs_sound B self \<longleftrightarrow> 0 < B \<and> B < 2 ^ 31 \<and> bs_buffer self \<noteq> None \<and> length (bs_mem self) = B \<and>
     unat (st_buffer_size (bs_state self)) = B \<and>
     st_pending_buffer_pos (bs_state self) \<le> st_pending_buffer_end (bs_state self) \<and> unat (st_pending_buffer_end (bs_state self)) \<le> B \<and>
     bs_status self = LPS_SUCCESS \<and> \<not> bs_no_multi_read self \<and> bs_convert self = None \<and> st_raw_buffer_leftover (bs_state self) = []"

definition bs_ok :: "nat \<Rightarrow> buffered_server \<Rightarrow> bool" where
  "bs_ok B self \<longleftrightarrow> bs_sound B self \<and> cached_ok self"

text \<open>The position in the stream after \<open>c\<close> bytes were read, and what only a confirmation changes.\<close>

definition bs_track :: "nat \<Rightarrow> buffered_server \<Rightarrow> bool" where
  "bs_track c self \<longleftrightarrow> (bs_pos_tracking self \<longrightarrow> 0 \<le> st_pending_raw_stream_pos (bs_state self) \<and>
     st_pending_raw_stream_pos (bs_state self) + st_pending_raw_buffer_size (bs_state self) = int c \<and>
     (bs_pending self = [] \<or> st_pending_raw_buffer_size (bs_state self) = int (unat (st_pending_buffer_end (bs_state self)))))"

definition bs_commit :: "buffered_server \<Rightarrow> guint32 \<times> int \<times> int \<times> int \<times> int \<times> bool" where
  "bs_commit self =
     (let st = bs_state self
      in (st_buffer_pos st, st_raw_stream_pos st, st_raw_buffer_size st, st_file_inode st, st_file_size st, bs_pos_tracking self))"

lemma pending_length: "bs_sound B self \<Longrightarrow>
    length (bs_pending self) = unat (st_pending_buffer_end (bs_state self)) - unat (st_pending_buffer_pos (bs_state self))"
  by (auto simp: bs_sound_def bs_pending_def)

lemma pending_bytes: "bs_sound B self \<Longrightarrow>
    unat (st_pending_buffer_end (bs_state self) - st_pending_buffer_pos (bs_state self)) = length (bs_pending self)"
  using pending_length[of B self] by (simp add: unat_sub bs_sound_def)

lemma pending_slice: "bs_sound B self \<Longrightarrow>
    mem_slice (bs_mem self) (unat (st_pending_buffer_pos (bs_state self))) (length (bs_pending self)) = Some (bs_pending self)"
  by (auto simp: mem_slice_def pending_length bs_sound_def bs_pending_def word_le_nat_alt)

lemma text_line_ok:
  assumes "bs_sound B self" "bs_pending self = l @ e # rest" "unat eol = unat (st_pending_buffer_pos (bs_state self)) + length l"
    "st_buffer_cached_eol (bs_state self) = 0"
  shows "\<exists>self'. text_line eol self = Some (Some (strip_eol l), self') \<and> bs_ok B self' \<and> bs_pending self' = rest \<and>
    bs_commit self' = bs_commit self \<and> (bs_track c self \<longrightarrow> bs_track c self')"
proof -
  let ?st = "bs_state self" and ?mem = "bs_mem self"
  let ?pos = "st_pending_buffer_pos ?st" and ?stop = "st_pending_buffer_end ?st"
  have len: "unat ?pos + Suc (length l + length rest) = unat ?stop" "unat ?stop \<le> B" "B < 2 ^ 31" "length ?mem = B"
    using assms(1,2) pending_length[OF assms(1)] by (auto simp: bs_sound_def word_le_nat_alt)
  have span: "take (unat ?stop - unat ?pos) (drop (unat ?pos) ?mem) = l @ e # rest" using assms(2) by (simp add: bs_pending_def)
  have pos: "unat (eol + 1) = unat ?pos + Suc (length l)" using assms(3) len by (simp add: unat_word_ariths(1))
  have le: "?pos \<le> eol" "eol + 1 \<le> ?stop" using assms(3) len pos by (simp_all add: word_le_nat_alt)
  have u: "unat (eol - ?pos) = length l" "unat (?stop - (eol + 1)) = length rest"
    using le assms(3) pos len by (simp_all add: unat_sub)
  have l: "mem_slice ?mem (unat ?pos) (length l) = Some l"
  proof -
    have "take (length l) (drop (unat ?pos) ?mem) = take (length l) (take (unat ?stop - unat ?pos) (drop (unat ?pos) ?mem))"
      using len(1) by (simp add: min_def)
    then show ?thesis using len unfolding span by (simp add: mem_slice_def)
  qed
  have r: "take (length rest) (drop (unat ?pos + Suc (length l)) ?mem) = rest"
  proof -
    have "drop (Suc (length l)) (take (unat ?stop - unat ?pos) (drop (unat ?pos) ?mem)) = rest" unfolding span by simp
    moreover have "unat ?stop - unat ?pos - Suc (length l) = length rest" using len(1) by simp
    ultimately show ?thesis by (simp add: drop_take add.commute)
  qed
  have m: "mem_slice ?mem (unat (eol + 1)) (length rest) = Some rest" using r len pos by (simp add: mem_slice_def)
  show ?thesis
  proof (cases "?stop = eol + 1")
    case True
    then have "rest = []" using pos len(1) by simp
    then show ?thesis
      using True assms(1,4) l u(1) by (auto simp: text_line_def bs_ok_def bs_sound_def bs_pending_def bs_commit_def bs_track_def bs_mem_def Let_def)
  next
    case False
    let ?cached = "case find_eom (unat (eol + 1)) rest of Some i \<Rightarrow> eol + 1 + of_nat i | None \<Rightarrow> 0"
    let ?self = "self\<lparr>bs_state := ?st\<lparr>st_pending_buffer_pos := eol + 1, st_buffer_cached_eol := ?cached\<rparr>\<rparr>"
    have eq: "text_line eol self = Some (Some (strip_eol l), ?self)"
      using False l u m by (simp add: text_line_def Let_def)
    have "unat ?stop - unat (eol + 1) = length rest" using pos len(1) by simp
    then have p: "bs_pending ?self = rest" using r pos by (simp add: bs_pending_def bs_mem_def)
    have "cached_ok ?self"
    proof (cases "eom_bytes 0 rest")
      case (Some i)
      then have i: "i < length rest" using eom_bytes_less[of 0] by simp
      have "unat (of_nat i :: guint32) = i" using i len by (simp add: unat_of_nat)
      then have "unat (eol + 1 + of_nat i) = unat (eol + 1) + i" using i len pos by (subst unat_word_ariths(1)) simp
      then show ?thesis using Some eom_bytes_shift[of "unat (eol + 1)" 0 rest] p by (simp add: find_eom_bytes)
    qed (simp add: find_eom_bytes)
    moreover have "bs_sound B ?self" using assms(1) le(2) by (simp add: bs_sound_def bs_mem_def)
    moreover have "bs_track c self \<longrightarrow> bs_track c ?self" using assms(2) by (auto simp: bs_track_def)
    moreover have "bs_commit ?self = bs_commit self" by (simp add: bs_commit_def Let_def)
    ultimately show ?thesis using eq p unfolding bs_ok_def by blast
  qed
qed

lemma fetch_from_buf_line:
  assumes "bs_ok B self" "bs_pending self = l @ e # rest" "\<forall>c \<in> set l. \<not> is_eom c" "is_eom e"
  shows "\<exists>self'. log_proto_text_server_fetch_from_buf options False self = Some (Some (strip_eol l), self') \<and> bs_ok B self' \<and>
    bs_pending self' = rest \<and> bs_commit self' = bs_commit self \<and> (bs_track c self \<longrightarrow> bs_track c self')"
proof -
  let ?st = "bs_state self"
  have s: "bs_sound B self" using assms(1) by (simp add: bs_ok_def)
  note hit = eom_bytes_hit[OF assms(3,4), of _ rest]
  show ?thesis
  proof (cases "st_buffer_cached_eol ?st = 0")
    case True
    have small: "length l < 2 ^ 31" "unat (st_pending_buffer_pos ?st) + length l < 2 ^ 31"
      using pending_length[OF s] assms(2) s by (auto simp: bs_sound_def)
    then have "unat (st_pending_buffer_pos ?st + of_nat (length l)) = unat (st_pending_buffer_pos ?st) + length l"
      by (simp add: unat_word_ariths(1) unat_of_nat)
    from text_line_ok[OF s assms(2) this True, of c] show ?thesis
      using True pending_bytes[OF s] pending_slice[OF s] hit[of 0] assms(2)
      by (simp add: log_proto_text_server_fetch_from_buf_def find_eom_bytes)
  next
    case False
    let ?self = "self\<lparr>bs_state := ?st\<lparr>st_buffer_cached_eol := 0\<rparr>\<rparr>"
    have p: "bs_pending ?self = bs_pending self" "bs_mem ?self = bs_mem self" by (simp_all add: bs_pending_def bs_mem_def)
    have "unat (st_buffer_cached_eol ?st) = unat (st_pending_buffer_pos ?st) + length l"
      using assms(1,2) False hit by (simp add: bs_ok_def)
    moreover have "bs_sound B ?self" using s p by (simp add: bs_sound_def)
    ultimately show ?thesis
      using text_line_ok[of B ?self l e rest "st_buffer_cached_eol ?st" c] False assms(2) p
      by (simp add: log_proto_text_server_fetch_from_buf_def bs_commit_def bs_track_def Let_def)
  qed
qed

lemma move_front_ok:
  assumes "i + n \<le> length mem"
  shows "move_front mem i n = Some (take n (drop i mem) @ drop n mem)"
  using assms by (simp add: move_front_def mem_slice_def mem_write_def)

lemma fetch_from_buf_part:
  assumes "bs_ok B self" "bs_pending self \<noteq> []" "\<forall>c \<in> set (bs_pending self). \<not> is_eom c" "length (bs_pending self) < B" "po_encoding options = None"
  shows "\<exists>self'. log_proto_text_server_fetch_from_buf options False self = Some (None, self') \<and> bs_ok B self' \<and>
    bs_pending self' = bs_pending self \<and> bs_commit self' = bs_commit self \<and> (bs_track c self \<longrightarrow> bs_track c self') \<and>
    unat (st_pending_buffer_end (bs_state self')) = length (bs_pending self) \<and> st_buffer_cached_eol (bs_state self') = 0"
proof -
  let ?st = "bs_state self"
  let ?bytes = "st_pending_buffer_end ?st - st_pending_buffer_pos ?st"
  have s: "bs_sound B self" and cached: "st_buffer_cached_eol ?st = 0"
    using assms(1,3) by (auto simp: bs_ok_def eom_bytes_None)
  note len = pending_length[OF s] and bytes = pending_bytes[OF s] and slice = pending_slice[OF s]
  have ok: "unat (st_pending_buffer_pos ?st) + length (bs_pending self) \<le> length (bs_mem self)" "length (bs_mem self) = B"
    using slice s by (auto simp: mem_slice_def bs_sound_def split: if_splits)
  have part: "take (length (bs_pending self)) (drop (unat (st_pending_buffer_pos ?st)) (bs_mem self)) = bs_pending self"
    using slice by (simp add: mem_slice_def split: if_splits)
  note mf = move_front_ok[OF ok(1), unfolded part]
  have "?bytes \<noteq> st_buffer_size ?st" using assms(4) bytes s by (auto simp: bs_sound_def)
  then have eq: "log_proto_text_server_fetch_from_buf options False self = text_split options self"
    using cached bytes slice assms(3) by (simp add: log_proto_text_server_fetch_from_buf_def find_eom_bytes eom_bytes_None)
  obtain self' where t: "text_split options self = Some (None, self')"
    "bs_state self' = (if bs_pos_tracking self then ?st\<lparr>st_pending_buffer_pos := 0, st_pending_buffer_end := ?bytes,
        st_pending_raw_stream_pos := st_pending_raw_stream_pos ?st + (st_pending_raw_buffer_size ?st - int (length (bs_pending self))),
        st_pending_raw_buffer_size := int (length (bs_pending self))\<rparr> else ?st\<lparr>st_pending_buffer_pos := 0, st_pending_buffer_end := ?bytes\<rparr>)"
    "bs_buffer self' = Some (bs_pending self @ drop (length (bs_pending self)) (bs_mem self))"
    "bs_status self' = bs_status self" "bs_pos_tracking self' = bs_pos_tracking self" "bs_no_multi_read self' = bs_no_multi_read self"
    "bs_convert self' = bs_convert self"
    using mf slice bytes assms(5) by (simp add: text_split_def Let_def)
  have p: "bs_pending self' = bs_pending self" using t(2,3) bytes by (simp add: bs_pending_def bs_mem_def)
  moreover have "bs_ok B self'" using s t cached bytes ok p assms(4) by (simp add: bs_ok_def bs_sound_def bs_mem_def)
  moreover have "int (length (bs_pending self)) \<le> int (unat (st_pending_buffer_end ?st))" using len by (simp del: of_nat_unat)
  then have "bs_track c self \<longrightarrow> bs_track c self'" using t(2,5) bytes assms(2) by (auto simp: bs_track_def)
  ultimately show ?thesis using eq t bytes cached by (auto simp: bs_commit_def Let_def)
qed

subsection \<open>Texts\<close>

text \<open>A text is a list of lines with their terminators and a last line that is not complete.\<close>

definition text_of :: "(string \<times> char) list \<Rightarrow> string \<Rightarrow> string" where
  "text_of ls part = concat (map (\<lambda>(l, e). l @ [e]) ls) @ part"

definition text_ok :: "nat \<Rightarrow> (string \<times> char) list \<Rightarrow> string \<Rightarrow> bool" where
  "text_ok B ls part \<longleftrightarrow> (\<forall>(l, e) \<in> set ls. (\<forall>c \<in> set l. \<not> is_eom c) \<and> is_eom e \<and> length l < B) \<and>
     (\<forall>c \<in> set part. \<not> is_eom c) \<and> length part < B"

lemma text_of_Cons: "text_of ((l, e) # ls) part = l @ e # text_of ls part"
  by (simp add: text_of_def)

lemma text_cases:
  assumes "u @ v = text_of ls part" "text_ok B ls part"
  obtains (line) l e ls' rest where "ls = (l, e) # ls'" "u = l @ e # rest" "rest @ v = text_of ls' part"
      "\<forall>c \<in> set l. \<not> is_eom c" "is_eom e" "text_ok B ls' part"
  | (part) "\<forall>c \<in> set u. \<not> is_eom c" "length u < B" "v = [] \<Longrightarrow> ls = []"
proof (cases ls)
  case Nil
  then have "part = u @ v" using assms(1) by (simp add: text_of_def)
  then show thesis using Nil assms(2) by (intro that(2)) (auto simp: text_ok_def)
next
  case (Cons le ls')
  obtain l e where le: "le = (l, e)" by fastforce
  have eq: "u @ v = l @ e # text_of ls' part" using assms(1) Cons le by (simp add: text_of_Cons)
  have ok: "\<forall>c \<in> set l. \<not> is_eom c" "is_eom e" "length l < B" "text_ok B ls' part" using assms(2) Cons le by (auto simp: text_ok_def)
  show thesis
  proof (cases "length u \<le> length l")
    case True
    then have "u = take (length u) l" using eq by (metis append_eq_append_conv_if append_eq_conv_conj)
    then have "set u \<subseteq> set l" by (metis set_take_subset)
    moreover have "v \<noteq> []" using eq True by (auto dest: arg_cong[where f = length])
    ultimately show thesis using ok True by (intro that(2)) auto
  next
    case False
    then obtain us where u: "u = l @ us" "us @ v = e # text_of ls' part" "us \<noteq> []"
      using eq by (auto simp: append_eq_append_conv2)
    then obtain rest where "us = e # rest" by (cases us) auto
    then show thesis using Cons le ok u by (intro that(1)[of l e ls' rest]) auto
  qed
qed

subsection \<open>Waiting for data\<close>

definition bs_waiting :: "nat \<Rightarrow> nat \<Rightarrow> buffered_server \<Rightarrow> bool" where
  "bs_waiting B c self \<longleftrightarrow> bs_ok B self \<and> st_buffer_cached_eol (bs_state self) = 0 \<and> (\<forall>c \<in> set (bs_pending self). \<not> is_eom c) \<and>
     unat (st_pending_buffer_end (bs_state self)) = length (bs_pending self) \<and> length (bs_pending self) < B \<and>
     (bs_pos_tracking self \<longrightarrow> 0 \<le> st_pending_raw_stream_pos (bs_state self) \<and>
        st_pending_raw_stream_pos (bs_state self) + st_pending_raw_buffer_size (bs_state self) = int c \<and>
        st_pending_raw_buffer_size (bs_state self) = int (length (bs_pending self)))"

text \<open>What one look into the buffer gives: the first line, if it is complete.\<close>

lemma fetch_from_buf_ok:
  assumes "bs_ok B self" "bs_track c self" "bs_pending self @ later = text_of ls part" "text_ok B ls part" "po_encoding options = None"
  obtains (line) l e ls' self' where "log_proto_buffered_server_fetch_from_buf (text_ops rd) options False self = Some (Some (strip_eol l), self')"
      "ls = (l, e) # ls'" "bs_ok B self'" "bs_track c self'" "bs_pending self' @ later = text_of ls' part" "text_ok B ls' part"
      "bs_commit self' = bs_commit self"
  | (part) self' where "log_proto_buffered_server_fetch_from_buf (text_ops rd) options False self = Some (None, self')"
      "bs_waiting B c self'" "bs_pending self' @ later = text_of ls part" "later = [] \<Longrightarrow> ls = []" "bs_commit self' = bs_commit self"
proof -
  let ?st = "bs_state self"
  have s: "bs_sound B self" using assms(1) by (simp add: bs_ok_def)
  have ops: "bo_fetch_from_buf (text_ops rd) = log_proto_text_server_fetch_from_buf" by (simp add: text_ops_def)
  have bytes: "st_pending_buffer_end ?st = st_pending_buffer_pos ?st \<longleftrightarrow> bs_pending self = []"
    using pending_bytes[OF s] by (metis eq_iff_diff_eq_0 length_0_conv unat_eq_zero)
  note unf = log_proto_buffered_server_fetch_from_buf_def bytes ops Let_def
  from assms(3,4) show thesis
  proof (cases rule: text_cases)
    case (line l e ls' rest)
    from fetch_from_buf_line[OF assms(1) line(2,4,5), of options c] assms(2) obtain self'
      where f: "log_proto_text_server_fetch_from_buf options False self = Some (Some (strip_eol l), self')" "bs_ok B self'" "bs_pending self' = rest"
        "bs_commit self' = bs_commit self" "bs_track c self'" by blast
    have "log_proto_buffered_server_fetch_from_buf (text_ops rd) options False self = Some (Some (strip_eol l), self')"
      using line(2) f(1) by (simp add: unf)
    then show thesis by (rule that(1)) (use line f in simp_all)
  next
    case part
    show thesis
    proof (cases "bs_pending self = []")
      case True
      have "st_buffer_cached_eol ?st = 0" using assms(1) True by (auto simp: bs_ok_def)
      then have "\<exists>self'. log_proto_buffered_server_fetch_from_buf (text_ops rd) options False self = Some (None, self') \<and> bs_waiting B c self' \<and>
          bs_pending self' = [] \<and> bs_commit self' = bs_commit self"
        using True s assms(2)
        by (simp add: unf bs_waiting_def bs_ok_def bs_sound_def bs_pending_def bs_mem_def bs_commit_def bs_track_def)
      then obtain self' where f: "log_proto_buffered_server_fetch_from_buf (text_ops rd) options False self = Some (None, self')"
        "bs_waiting B c self'" "bs_pending self' = []" "bs_commit self' = bs_commit self" by blast
      from f(1) show thesis by (rule that(2)) (use f part(3) assms(3) True in simp_all)
    next
      case False
      from fetch_from_buf_part[OF assms(1) False part(1,2) assms(5), of c] obtain self'
        where f: "log_proto_text_server_fetch_from_buf options False self = Some (None, self')" "bs_ok B self'" "bs_pending self' = bs_pending self"
          "bs_commit self' = bs_commit self" "bs_track c self'" "unat (st_pending_buffer_end (bs_state self')) = length (bs_pending self)"
          "st_buffer_cached_eol (bs_state self') = 0" using assms(2) by auto
      have "bs_waiting B c self'" using f(2,3,5,6,7) part(1,2) False
        by (cases "bs_pos_tracking self'") (simp_all add: bs_waiting_def bs_track_def del: of_nat_unat)
      moreover have "log_proto_buffered_server_fetch_from_buf (text_ops rd) options False self = Some (None, self')"
        using f(1) False by (simp add: unf)
      ultimately show thesis using f part(3) assms(3) by (intro that(2)[of self']) simp_all
    qed
  qed
qed

lemma bs_store_ok:
  assumes "bs_waiting B c self" "s \<noteq> []" "length (bs_pending self) + length s \<le> B"
  shows "\<exists>self'. bs_store options s self = Some (True, self') \<and> bs_ok B self' \<and> bs_track (c + length s) self' \<and>
    bs_pending self' = bs_pending self @ s \<and> bs_commit self' = bs_commit self"
proof -
  let ?st = "bs_state self" and ?mem = "bs_mem self"
  let ?pos = "unat (st_pending_buffer_pos ?st)" and ?stop = "unat (st_pending_buffer_end ?st)"
  have w: "bs_sound B self" "st_buffer_cached_eol ?st = 0" "?stop = length (bs_pending self)" "length ?mem = B" "B < 2 ^ 31"
    "st_raw_buffer_leftover ?st = []" "bs_convert self = None"
    using assms(1) by (auto simp: bs_waiting_def bs_ok_def bs_sound_def)
  have pos: "?pos = 0" using pending_length[OF w(1)] w(1,3) by (cases "bs_pending self") (auto simp: bs_sound_def word_le_nat_alt)
  have mem: "mem_write ?mem ?stop s = Some (take ?stop ?mem @ s @ drop (?stop + length s) ?mem)" (is "_ = Some ?mem'")
    using assms(3) w(3,4) by (simp add: mem_write_def)
  have e: "unat (st_pending_buffer_end ?st + of_nat (length s)) = ?stop + length s"
    using assms(3) w(3,5) by (simp add: unat_word_ariths(1) unat_of_nat)
  have p: "take ?stop ?mem = bs_pending self" using pos by (simp add: bs_pending_def)
  let ?self = "self\<lparr>bs_buffer := Some ?mem', bs_state := ?st\<lparr>st_pending_raw_buffer_size := st_pending_raw_buffer_size ?st + int (length s),
      st_raw_buffer_leftover := [], st_pending_buffer_end := st_pending_buffer_end ?st + of_nat (length s)\<rparr>\<rparr>"
  have eq: "bs_store options s self = Some (True, ?self)" using w(6,7) mem by (simp add: bs_store_def Let_def)
  have "?stop \<le> length ?mem" using w(1) by (simp add: bs_sound_def)
  then have "bs_pending ?self = take ?stop ?mem @ s" using pos e by (simp add: bs_pending_def bs_mem_def)
  then have p': "bs_pending ?self = bs_pending self @ s" using p by simp
  have room: "?stop + length s \<le> B" using assms(3) w(3) by simp
  then have "bs_sound B ?self"
    using w(1,7) e pos by (auto simp: bs_sound_def bs_mem_def word_le_nat_alt)
  then have "bs_ok B ?self" using w(2) by (simp add: bs_ok_def)
  moreover have "bs_track (c + length s) ?self"
  proof (cases "bs_pos_tracking self")
    case True
    then have "0 \<le> st_pending_raw_stream_pos ?st" "st_pending_raw_stream_pos ?st + st_pending_raw_buffer_size ?st = int c" "st_pending_raw_buffer_size ?st = int ?stop"
      using assms(1) unfolding bs_waiting_def w(3) by blast+
    then show ?thesis using e by (simp add: bs_track_def del: of_nat_unat)
  qed (simp add: bs_track_def)
  moreover have "bs_commit ?self = bs_commit self" by (simp add: bs_commit_def Let_def)
  ultimately show ?thesis using eq p' by blast
qed

subsection \<open>A call of the server\<close>

text \<open>The outcome of a call: the next line, or the server waits and the stream has come closer to its end. \<open>N\<close> is the
  length of the whole stream.\<close>

context byte_stream
begin

definition line_or_wait ::
    "nat \<Rightarrow> nat \<Rightarrow> (string \<times> char) list \<Rightarrow> string \<Rightarrow> 'w \<Rightarrow> buffered_server \<Rightarrow> string option \<Rightarrow> buffered_server \<Rightarrow> 'w \<Rightarrow> bool" where
  "line_or_wait B N ls part w self r self' w' \<longleftrightarrow> alive w' \<and> length (to_come w') \<le> N \<and> bs_commit self' = bs_commit self \<and>
     (case r of
        Some m \<Rightarrow> (\<exists>l e ls'. ls = (l, e) # ls' \<and> m = strip_eol l \<and> bs_ok B self' \<and> bs_track (N - length (to_come w')) self' \<and>
            bs_pending self' @ to_come w' = text_of ls' part \<and> text_ok B ls' part \<and> ahead w' \<le> ahead w)
      | None \<Rightarrow> bs_waiting B (N - length (to_come w')) self' \<and> bs_pending self' @ to_come w' = text_of ls part \<and>
            (ls = [] \<or> ahead w' < ahead w))"

lemma fetch_loop_ok:
  assumes "po_encoding options = None" "text_ok B ls part"
  shows "bs_waiting B (N - length (to_come w)) self \<Longrightarrow> length (to_come w) \<le> N \<Longrightarrow> alive w \<Longrightarrow> bs_pending self @ to_come w = text_of ls part \<Longrightarrow>
    (to_come w = [] \<Longrightarrow> ls = []) \<Longrightarrow>
    \<exists>r self' w'. bs_fetch_loop (text_ops rd) options LPS_SUCCESS True self w = Some (LPS_SUCCESS, r, True, self', w') \<and>
      line_or_wait B N ls part w self r self' w'"
proof (induction "ahead w" arbitrary: w self rule: less_induct)
  case less
  let ?st = "bs_state self"
  have wait: "\<not> bs_no_multi_read self" "bs_convert self = None" "length (bs_pending self) < B"
    "unat (st_buffer_size ?st - st_pending_buffer_end ?st) = B - length (bs_pending self)"
    using less.prems(1) by (auto simp: bs_waiting_def bs_ok_def bs_sound_def unat_sub word_le_nat_alt)
  have rd: "bo_read_data (text_ops rd) = (\<lambda>w n. Some (rd w n))" by (simp add: text_ops_def)
  have room: "0 < B - length (bs_pending self)" using wait(3) by simp
  from less.prems(3) room show ?case
  proof (cases rule: read_cases[of w "B - length (bs_pending self)"])
    case (nothing w')
    note idle = this
    have "bs_fetch_loop (text_ops rd) options LPS_SUCCESS True self w = Some (LPS_SUCCESS, None, True, self, w')"
      using idle(1) wait rd by (subst bs_fetch_loop.simps) (simp add: Let_def)
    moreover have "line_or_wait B N ls part w self None self w'"
      using idle less.prems by (auto simp: line_or_wait_def)
    ultimately show ?thesis by blast
  next
    case (piece s w')
    have n: "N - length (to_come w) + length s = N - length (to_come w')" "length (to_come w') \<le> N"
      using piece(5) less.prems(2) by auto
    have "length (bs_pending self) + length s \<le> B" using piece(3) wait(3) by simp
    from bs_store_ok[OF less.prems(1) piece(2) this, of options] obtain self1
      where st: "bs_store options s self = Some (True, self1)" "bs_ok B self1" "bs_track (N - length (to_come w')) self1"
        "bs_pending self1 = bs_pending self @ s" "bs_commit self1 = bs_commit self" unfolding n(1) by blast
    have t: "bs_pending self1 @ to_come w' = text_of ls part" using st(4) piece(5) less.prems(4) by simp
    have step: "bs_fetch_loop (text_ops rd) options LPS_SUCCESS True self w =
        (case log_proto_buffered_server_fetch_from_buf (text_ops rd) options False self1 of
           None \<Rightarrow> None | Some (Some msg, self2) \<Rightarrow> Some (LPS_SUCCESS, Some msg, True, self2, w')
         | Some (None, self2) \<Rightarrow> bs_fetch_loop (text_ops rd) options LPS_SUCCESS True self2 w')"
      using piece(1,2) wait rd st(1) by (subst bs_fetch_loop.simps) (simp add: Let_def)
    have ahead: "ahead w' < ahead w" using piece(2,5,6) by (cases s) auto
    from st(2,3) t assms(2,1) show ?thesis
    proof (cases rule: fetch_from_buf_ok[where rd = rd])
      case (line l e ls' self2)
      then have "line_or_wait B N ls part w self (Some (strip_eol l)) self2 w'"
        using piece(4) n(2) ahead st(5) by (simp add: line_or_wait_def)
      then show ?thesis using step line(1) by auto
    next
      case (part self2)
      from less.hyps[OF ahead part(2) n(2) piece(4) part(3,4)] obtain r self' w''
        where r: "bs_fetch_loop (text_ops rd) options LPS_SUCCESS True self2 w' = Some (LPS_SUCCESS, r, True, self', w'')"
          "line_or_wait B N ls part w' self2 r self' w''" by blast
      have "line_or_wait B N ls part w self r self' w''"
        using r(2) ahead part(5) st(5) by (auto simp: line_or_wait_def split: option.splits)
      then show ?thesis using step part(1) r(1) by auto
    qed
  qed
qed

lemma bs_fetch_ok:
  assumes "po_encoding options = None" "text_ok B ls part" "bs_ok B self" "bs_track (N - length (to_come w)) self" "length (to_come w) \<le> N"
    "alive w" "bs_pending self @ to_come w = text_of ls part"
  shows "\<exists>r self' w'. log_proto_buffered_server_fetch (text_ops rd) options True self w = Some (LPS_SUCCESS, r, True, self', w') \<and>
    line_or_wait B N ls part w self r self' w'"
proof -
  have s: "bs_alloc options self = self" "bs_status self = LPS_SUCCESS" using assms(3) by (auto simp: bs_alloc_def bs_ok_def bs_sound_def)
  note unf = log_proto_buffered_server_fetch_def s Let_def bs_exit_def
  from assms(3,4,7,2,1) show ?thesis
  proof (cases rule: fetch_from_buf_ok[where rd = rd])
    case (line l e ls' self')
    then have "line_or_wait B N ls part w self (Some (strip_eol l)) self' w" using assms(5,6) by (simp add: line_or_wait_def)
    then show ?thesis using line(1) by (auto simp: unf)
  next
    case (part self2)
    from fetch_loop_ok[OF assms(1,2) part(2) assms(5,6) part(3,4)] obtain r self' w'
      where r: "bs_fetch_loop (text_ops rd) options LPS_SUCCESS True self2 w = Some (LPS_SUCCESS, r, True, self', w')"
        "line_or_wait B N ls part w self2 r self' w'" by blast
    moreover have "line_or_wait B N ls part w self r self' w'" using r(2) part(5) by (simp add: line_or_wait_def)
    ultimately show ?thesis using part(1) by (auto simp: unf)
  qed
qed

end

subsection \<open>Confirmed positions\<close>

text \<open>What was confirmed ends at offset \<open>off\<close> of a stream of \<open>N\<close> bytes, and the window of the stream that has to be read again for that
  lies within it. A line end that is remembered belongs to the confirmed position.\<close>

definition bs_committed :: "nat \<Rightarrow> nat \<Rightarrow> int \<Rightarrow> buffered_server \<Rightarrow> bool" where
  "bs_committed B N off self \<longleftrightarrow> (bs_pos_tracking self \<longrightarrow>
     (let st = bs_state self in
      0 \<le> st_raw_stream_pos st \<and> st_raw_stream_pos st + int (unat (st_buffer_pos st)) = off \<and>
      int (unat (st_buffer_pos st)) \<le> st_raw_buffer_size st \<and> st_raw_buffer_size st \<le> int B \<and>
      st_raw_stream_pos st + st_raw_buffer_size st \<le> int N \<and>
      (st_buffer_cached_eol st \<noteq> 0 \<longrightarrow> st_buffer_pos st = st_pending_buffer_pos st \<and>
         st_raw_buffer_size st = int (unat (st_pending_buffer_end st)) \<and> st_pending_raw_stream_pos st = st_raw_stream_pos st)))"

lemma waiting_ok: "bs_waiting B c self \<Longrightarrow> bs_ok B self \<and> bs_track c self"
  by (cases "bs_pos_tracking self") (simp_all add: bs_waiting_def bs_track_def del: of_nat_unat)

lemma committed_waiting:
  assumes "bs_committed B N off self" "bs_commit self' = bs_commit self" "bs_waiting B c self'"
  shows "bs_committed B N off self'"
  using assms by (simp add: bs_committed_def bs_commit_def bs_waiting_def Let_def)

lemma queued_eq:
  fixes self
  defines "st \<equiv> bs_state self"
  shows "st_pending_buffer_pos st = st_pending_buffer_end st \<Longrightarrow> log_proto_buffered_server_queued self =
      self\<lparr>bs_state := st\<lparr>st_buffer_pos := 0, st_pending_buffer_end := 0, st_pending_buffer_pos := 0,
        st_raw_stream_pos := st_pending_raw_stream_pos st + (if bs_pos_tracking self then st_pending_raw_buffer_size st else 0),
        st_raw_buffer_size := if bs_pos_tracking self then 0 else st_pending_raw_buffer_size st\<rparr>\<rparr>"
    "st_pending_buffer_pos st \<noteq> st_pending_buffer_end st \<Longrightarrow> log_proto_buffered_server_queued self =
      self\<lparr>bs_state := st\<lparr>st_buffer_pos := st_pending_buffer_pos st, st_raw_stream_pos := st_pending_raw_stream_pos st,
        st_raw_buffer_size := st_pending_raw_buffer_size st\<rparr>\<rparr>"
  by (simp_all add: log_proto_buffered_server_queued_def st_def Let_def)

lemma queued_ok:
  assumes "bs_ok B self" "bs_track c self" "c \<le> N"
  shows "bs_ok B (log_proto_buffered_server_queued self)" "bs_track c (log_proto_buffered_server_queued self)"
    "bs_pending (log_proto_buffered_server_queued self) = bs_pending self"
    "bs_committed B N (int c - int (length (bs_pending self))) (log_proto_buffered_server_queued self)"
proof -
  let ?st = "bs_state self" and ?self = "log_proto_buffered_server_queued self"
  let ?pos = "st_pending_buffer_pos ?st" and ?stop = "st_pending_buffer_end ?st"
  have s: "bs_sound B self" and c: "cached_ok self" using assms(1) by (auto simp: bs_ok_def)
  have le: "unat ?pos \<le> unat ?stop" "unat ?stop \<le> B" using s by (auto simp: bs_sound_def word_le_nat_alt)
  note len = pending_length[OF s]
  have "bs_ok B ?self \<and> bs_track c ?self \<and> bs_pending ?self = bs_pending self \<and> bs_committed B N (int c - int (length (bs_pending self))) ?self"
  proof (cases "?pos = ?stop")
    case True
    note eq = queued_eq(1)[OF True]
    have p: "bs_pending self = []" "st_buffer_cached_eol ?st = 0" using True len c by auto
    have q: "bs_pending ?self = []" "bs_mem ?self = bs_mem self" "bs_buffer ?self = bs_buffer self"
      by (auto simp: eq bs_pending_def bs_mem_def Let_def)
    have "bs_ok B ?self"
      using s p(2) q by (simp add: eq bs_ok_def bs_sound_def bs_mem_def Let_def)
    moreover have "bs_track c ?self"
      using assms(2) unfolding bs_track_def q(1) by (simp add: eq)
    moreover have "bs_committed B N (int c) ?self"
      using assms(2,3) p by (simp add: eq bs_committed_def bs_track_def Let_def)
    ultimately show ?thesis using q(1) p(1) by simp
  next
    case False
    note eq = queued_eq(2)[OF False]
    have "unat ?pos < unat ?stop" using False le(1) by (metis le_neq_implies_less word_unat_eq_iff)
    then have p: "bs_pending self \<noteq> []" using len by auto
    have q: "bs_pending ?self = bs_pending self" "bs_mem ?self = bs_mem self" "bs_buffer ?self = bs_buffer self"
      by (auto simp: eq bs_pending_def bs_mem_def Let_def)
    have "bs_ok B ?self"
      using s c q by (simp add: eq bs_ok_def bs_sound_def bs_mem_def Let_def)
    moreover have "bs_track c ?self"
      using assms(2) unfolding bs_track_def q(1) by (simp add: eq)
    moreover have "bs_committed B N (int c - int (length (bs_pending self))) ?self"
    proof (cases "bs_pos_tracking self")
      case True
      then have t: "0 \<le> st_pending_raw_stream_pos ?st" "st_pending_raw_stream_pos ?st + int (unat ?stop) = int c"
        "st_pending_raw_buffer_size ?st = int (unat ?stop)"
        using assms(2) p by (auto simp: bs_track_def)
      have "int (length (bs_pending self)) = int (unat ?stop) - int (unat ?pos)" using len le(1) by (simp del: of_nat_unat)
      then show ?thesis
        using t le assms(3) by (simp add: eq bs_committed_def Let_def del: of_nat_unat)
    next
      case untracked: False
      then show ?thesis by (simp add: eq bs_committed_def Let_def)
    qed
    ultimately show ?thesis using q(1) by simp
  qed
  then show "bs_ok B ?self" "bs_track c ?self" "bs_pending ?self = bs_pending self"
    "bs_committed B N (int c - int (length (bs_pending self))) ?self" by auto
qed

end
