(* ===== verification/Log_Reader.thy ===== *)
theory Log_Reader
  imports Log_Proto_Text
begin

text \<open>
  The reading side of a source: \<^verbatim>\<open>log_reader_fetch_log\<close> of \<^verbatim>\<open>lib/logreader.c\<close> over a buffered server, with the window of
  \<^verbatim>\<open>lib/logsource.c\<close>. Of the message that \<^verbatim>\<open>log_reader_handle_line\<close> makes and sends down the pipeline its text is kept, in the ghost
  list \<open>lr_received\<close>. The window shrinks by one with every message and grows with acknowledgements, which other threads may
  give at any time: \<open>acks i\<close> is their number while message \<open>i\<close> is handled. The assertion in \<^verbatim>\<open>log_source_queue\<close> that
  the window is not used up is the result \<open>None\<close> when it fails.
\<close>

subsection \<open>The reader\<close>

datatype notify_code = NC_NONE | NC_CLOSE | NC_READ_ERROR

record lr_options =
  lo_fetch_limit :: int
  lo_empty_lines :: bool
  lo_preempt :: bool

record log_reader =
  lr_proto :: buffered_server
  lr_window_size :: int
  lr_immediate_check :: bool
  lr_waiting_for_preemption :: bool
  lr_file_skips :: nat
  lr_received :: "string list"

definition log_reader_new :: "int \<Rightarrow> buffered_server \<Rightarrow> log_reader" where
  "log_reader_new init_window_size proto =
     \<lparr>lr_proto = proto, lr_window_size = init_window_size, lr_immediate_check = False, lr_waiting_for_preemption = False, lr_file_skips = 0,
      lr_received = []\<rparr>"

definition log_source_free_to_send :: "log_reader \<Rightarrow> bool" where
  "log_source_free_to_send self \<longleftrightarrow> lr_window_size self > 0"

text \<open>Handling a line gives whether more messages may be sent.\<close>

definition log_reader_handle_line :: "(nat \<Rightarrow> nat) \<Rightarrow> string \<Rightarrow> log_reader \<Rightarrow> (bool \<times> log_reader) option" where
  "log_reader_handle_line acks line self =
     (if lr_window_size self > 0
      then let self' = self\<lparr>lr_window_size := lr_window_size self - 1 + int (acks (length (lr_received self))),
                            lr_received := lr_received self @ [line]\<rparr>
           in Some (log_source_free_to_send self', self')
      else None)"

text \<open>\<^verbatim>\<open>log_proto_server_fetch\<close> for this kind of server.\<close>

definition buffered_fetch ::
    "'w buffered_ops \<Rightarrow> lps_options \<Rightarrow> bool \<Rightarrow> buffered_server \<Rightarrow> 'w \<Rightarrow> 'w bs_fetched option" where
  "buffered_fetch ops options may_read self w =
     (if bs_status self = LPS_SUCCESS then log_proto_buffered_server_fetch ops options may_read self w
      else Some (bs_status self, None, may_read, self, w))"

abbreviation queued_proto :: "log_reader \<Rightarrow> log_reader" where
  "queued_proto self \<equiv> self\<lparr>lr_proto := log_proto_buffered_server_queued (lr_proto self)\<rparr>"

text \<open>\<open>quit i\<close> tells whether the worker is asked to quit before round \<open>i\<close>.\<close>

partial_function (option) log_reader_loop ::
    "'w buffered_ops \<Rightarrow> lps_options \<Rightarrow> lr_options \<Rightarrow> (nat \<Rightarrow> bool) \<Rightarrow> (nat \<Rightarrow> nat) \<Rightarrow> nat \<Rightarrow> int \<Rightarrow> bool \<Rightarrow> log_reader \<Rightarrow> 'w \<Rightarrow>
      (notify_code \<times> int \<times> log_reader \<times> 'w) option" where
  "log_reader_loop ops options lo quit acks i msg_count may_read self w =
     (if msg_count < lo_fetch_limit lo \<and> \<not> quit i then
        (case buffered_fetch ops options may_read (lr_proto self) w of
           None \<Rightarrow> None
         | Some (status, r, may_read', proto, w') \<Rightarrow>
             let self1 = self\<lparr>lr_proto := proto\<rparr> in
             if status = LPS_EOF then Some (NC_CLOSE, msg_count, self1, w')
             else if status = LPS_ERROR then Some (NC_READ_ERROR, msg_count, self1, w')
             else
               (case r of
                  None \<Rightarrow> Some (NC_NONE, msg_count, self1, w')
                | Some msg \<Rightarrow>
                    if msg \<noteq> [] \<or> lo_empty_lines lo then
                      (case log_reader_handle_line acks msg self1 of
                         None \<Rightarrow> None
                       | Some (free, self2) \<Rightarrow>
                           if \<not> free then Some (NC_NONE, msg_count + 1, queued_proto self2, w')
                           else log_reader_loop ops options lo quit acks (Suc i) (msg_count + 1) may_read' (queued_proto self2) w')
                    else log_reader_loop ops options lo quit acks (Suc i) msg_count may_read' (queued_proto self1) w'))
      else Some (NC_NONE, msg_count, self, w))"

definition log_reader_fetch_log ::
    "'w buffered_ops \<Rightarrow> lps_options \<Rightarrow> lr_options \<Rightarrow> (nat \<Rightarrow> bool) \<Rightarrow> (nat \<Rightarrow> nat) \<Rightarrow> log_reader \<Rightarrow> 'w \<Rightarrow>
      (notify_code \<times> log_reader \<times> 'w) option" where
  "log_reader_fetch_log ops options lo quit acks self w =
     (case log_reader_loop ops options lo quit acks 0 0 (\<not> lr_waiting_for_preemption self) self w of
        None \<Rightarrow> None
      | Some (nc, msg_count, self1, w') \<Rightarrow>
          if nc \<noteq> NC_NONE then Some (nc, self1, w')
          else
            let self2 = (if lo_preempt lo then
                           (if log_proto_text_server_is_preemptable (lr_proto self1)
                            then self1\<lparr>lr_waiting_for_preemption := False, lr_file_skips := lr_file_skips self1 + 1\<rparr>
                            else self1\<lparr>lr_waiting_for_preemption := True\<rparr>)
                         else self1);
                self3 = (if msg_count = lo_fetch_limit lo then self2\<lparr>lr_immediate_check := True\<rparr> else self2)
            in Some (NC_NONE, self3, w'))"

text \<open>The event loop calls it while the window is open (\<^verbatim>\<open>log_reader_update_watches\<close>); between two calls acknowledgements may
  arrive.\<close>

fun reader_runs ::
    "'w buffered_ops \<Rightarrow> lps_options \<Rightarrow> lr_options \<Rightarrow> ((nat \<Rightarrow> bool) \<times> (nat \<Rightarrow> nat) \<times> nat) list \<Rightarrow> log_reader \<Rightarrow> 'w \<Rightarrow>
      (notify_code \<times> log_reader \<times> 'w) option" where
  "reader_runs ops options lo [] self w = Some (NC_NONE, self, w)"
| "reader_runs ops options lo ((quit, acks, late) # runs) self w =
     (if \<not> log_source_free_to_send self
      then reader_runs ops options lo runs (self\<lparr>lr_window_size := lr_window_size self + int late\<rparr>) w
      else case log_reader_fetch_log ops options lo quit acks self w of
             None \<Rightarrow> None
           | Some (nc, self1, w1) \<Rightarrow>
               if nc \<noteq> NC_NONE then Some (nc, self1, w1)
               else reader_runs ops options lo runs (self1\<lparr>lr_window_size := lr_window_size self1 + int late\<rparr>) w1)"

subsection \<open>Delivery\<close>

definition messages :: "lr_options \<Rightarrow> (string \<times> char) list \<Rightarrow> string list" where
  "messages lo ls = filter (\<lambda>m. m \<noteq> [] \<or> lo_empty_lines lo) (map (strip_eol \<circ> fst) ls)"

lemma messages_Cons: "messages lo ((l, e) # ls) = (if strip_eol l \<noteq> [] \<or> lo_empty_lines lo then [strip_eol l] else []) @ messages lo ls"
  by (simp add: messages_def)

lemma messages_append: "messages lo (ks @ ls) = messages lo ks @ messages lo ls"
  by (simp add: messages_def)

lemma bs_alloc_idem [simp]: "bs_alloc options (bs_alloc options self) = bs_alloc options self"
  by (simp add: bs_alloc_def)

lemma bs_alloc_ok: "bs_ok B self \<Longrightarrow> bs_alloc options self = self"
  by (auto simp: bs_alloc_def bs_ok_def bs_sound_def)

lemma bs_ok_buffer: "bs_ok B self \<Longrightarrow> bs_buffer self \<noteq> None"
  by (auto simp: bs_ok_def bs_sound_def)

lemma bs_alloc_status [simp]: "bs_status (bs_alloc options self) = bs_status self"
  by (simp add: bs_alloc_def)

lemma fetch_alloc: "log_proto_buffered_server_fetch ops options may_read (bs_alloc options self) w = log_proto_buffered_server_fetch ops options may_read self w"
  by (simp add: log_proto_buffered_server_fetch_def)

definition bs_origin :: "buffered_server \<Rightarrow> int \<times> int \<times> bool" where
  "bs_origin self = (st_file_inode (bs_state self), st_file_size (bs_state self), bs_pos_tracking self)"

lemma commit_origin: "bs_commit self' = bs_commit self \<Longrightarrow> bs_origin self' = bs_origin self"
  by (simp add: bs_commit_def bs_origin_def Let_def)

lemma queued_origin: "bs_origin (log_proto_buffered_server_queued self) = bs_origin self"
  by (simp add: log_proto_buffered_server_queued_def bs_origin_def Let_def)

context byte_stream
begin

text \<open>The server is about to deliver the lines \<open>ls\<close>, the rest of a stream of \<open>N\<close> bytes of which all before is confirmed.
  \<open>org\<close> tells where the stream comes from.\<close>

definition text_at :: "int \<times> int \<times> bool \<Rightarrow> nat \<Rightarrow> nat \<Rightarrow> lps_options \<Rightarrow> (string \<times> char) list \<Rightarrow> string \<Rightarrow> buffered_server \<Rightarrow> 'w \<Rightarrow> bool" where
  "text_at org B N options ls part proto w \<longleftrightarrow> alive w \<and> length (to_come w) \<le> N \<and> text_ok B ls part \<and> bs_ok B (bs_alloc options proto) \<and>
     bs_track (N - length (to_come w)) (bs_alloc options proto) \<and> bs_pending (bs_alloc options proto) @ to_come w = text_of ls part \<and>
     bs_committed B N (int N - int (length (text_of ls part))) (bs_alloc options proto) \<and> bs_origin (bs_alloc options proto) = org \<and>
     (bs_buffer proto = None \<longrightarrow> st_buffer_size (bs_state proto) = 0 \<and> st_raw_buffer_size (bs_state proto) = 0)"

lemma text_at_fetch:
  assumes "po_encoding options = None" "text_at org B N options ls part proto w"
  obtains (line) l e ls' proto' w' where "buffered_fetch (text_ops rd) options True proto w = Some (LPS_SUCCESS, Some (strip_eol l), True, proto', w')"
      "ls = (l, e) # ls'" "text_at org B N options ls' part (log_proto_buffered_server_queued proto') w'" "ahead w' \<le> ahead w"
  | (wait) proto' w' where "buffered_fetch (text_ops rd) options True proto w = Some (LPS_SUCCESS, None, True, proto', w')"
      "text_at org B N options ls part proto' w'" "ls = [] \<or> ahead w' < ahead w"
proof -
  let ?proto = "bs_alloc options proto"
  have a: "alive w" "length (to_come w) \<le> N" "text_ok B ls part" "bs_ok B ?proto" "bs_track (N - length (to_come w)) ?proto"
    "bs_pending ?proto @ to_come w = text_of ls part" "bs_committed B N (int N - int (length (text_of ls part))) ?proto" "bs_origin ?proto = org"
    using assms(2) by (auto simp: text_at_def)
  have "bs_status proto = LPS_SUCCESS" using a(4) by (simp add: bs_ok_def bs_sound_def)
  then have same: "buffered_fetch (text_ops rd) options True proto w = log_proto_buffered_server_fetch (text_ops rd) options True ?proto w"
    by (simp add: buffered_fetch_def fetch_alloc)
  obtain r proto' w' where f: "buffered_fetch (text_ops rd) options True proto w = Some (LPS_SUCCESS, r, True, proto', w')"
    "line_or_wait B N ls part w ?proto r proto' w'"
    using bs_fetch_ok[OF assms(1) a(3,4,5,2,1,6)] same by auto
  show thesis
  proof (cases r)
    case None
    then have o: "alive w'" "length (to_come w') \<le> N" "bs_commit proto' = bs_commit ?proto" "bs_waiting B (N - length (to_come w')) proto'"
      "bs_pending proto' @ to_come w' = text_of ls part" "ls = [] \<or> ahead w' < ahead w"
      using f(2) by (auto simp: line_or_wait_def)
    have w: "bs_ok B proto'" "bs_track (N - length (to_come w')) proto'" using waiting_ok[OF o(4)] by auto
    have "text_at org B N options ls part proto' w'"
      using o w bs_alloc_ok[OF w(1)] a(3,8) committed_waiting[OF a(7) o(3,4)] commit_origin[OF o(3)] by (simp add: text_at_def bs_ok_buffer)
    then show thesis using f(1) None o(6) by (intro that(2)[of proto' w']) auto
  next
    case (Some m)
    then obtain l e ls' where o: "alive w'" "length (to_come w') \<le> N" "ls = (l, e) # ls'" "m = strip_eol l" "bs_ok B proto'"
      "bs_track (N - length (to_come w')) proto'" "bs_pending proto' @ to_come w' = text_of ls' part" "text_ok B ls' part" "ahead w' \<le> ahead w"
      "bs_commit proto' = bs_commit ?proto"
      using f(2) by (auto simp: line_or_wait_def)
    note q = queued_ok[OF o(5,6), of N]
    have len: "int (N - length (to_come w')) - int (length (bs_pending proto')) = int N - int (length (text_of ls' part))"
      using arg_cong[OF o(7), of length] o(2) by simp
    have "text_at org B N options ls' part (log_proto_buffered_server_queued proto') w'"
      using q(1,2,3) q(4)[unfolded len] o(1,2,7,8) bs_alloc_ok[OF q(1)] a(8) commit_origin[OF o(10)] by (simp add: text_at_def bs_ok_buffer queued_origin)
    then show thesis using f(1) Some o by (intro that(1)[of l proto' w' e ls']) auto
  qed
qed

text \<open>Steps of the reader: what is left to do never grows, and shrinks unless all lines have been delivered.\<close>

definition reader_steps :: "int \<times> int \<times> bool \<Rightarrow> nat \<Rightarrow> nat \<Rightarrow> lps_options \<Rightarrow> lr_options \<Rightarrow> (string \<times> char) list \<Rightarrow> string \<Rightarrow> bool \<Rightarrow> log_reader \<Rightarrow> 'w \<Rightarrow> log_reader \<Rightarrow> 'w \<Rightarrow> bool" where
  "reader_steps org B N options lo ls part progress self w self' w' \<longleftrightarrow>
     (\<exists>ks ls'. ls = ks @ ls' \<and> text_at org B N options ls' part (lr_proto self') w' \<and> lr_received self' = lr_received self @ messages lo ks \<and>
        0 \<le> lr_window_size self' \<and> lr_waiting_for_preemption self' = lr_waiting_for_preemption self \<and>
        (ls' = [] \<or> length ls' + ahead w' + (if progress then 1 else 0) \<le> length ls + ahead w))"

lemma reader_steps_none:
  assumes "text_at org B N options ls part (lr_proto self') w'" "lr_received self' = lr_received self" "0 \<le> lr_window_size self'"
    "lr_waiting_for_preemption self' = lr_waiting_for_preemption self" "ls = [] \<or> ahead w' + (if progress then 1 else 0) \<le> ahead w"
  shows "reader_steps org B N options lo ls part progress self w self' w'"
  unfolding reader_steps_def using assms by (intro exI[of _ "[]"] exI[of _ ls]) (auto simp: messages_def)

lemma reader_steps_weak:
  assumes "reader_steps org B N options lo ls part progress self w self' w'"
  shows "reader_steps org B N options lo ls part False self w self' w'"
  using assms unfolding reader_steps_def by (elim exE) (intro exI, auto)

lemma reader_loop_ok:
  assumes "po_encoding options = None"
  shows "text_at org B N options ls part (lr_proto self) w \<Longrightarrow> 0 < lr_window_size self \<Longrightarrow>
    \<exists>cnt' self' w'. log_reader_loop (text_ops rd) options lo quit acks i cnt True self w = Some (NC_NONE, cnt', self', w') \<and>
      reader_steps org B N options lo ls part (cnt < lo_fetch_limit lo \<and> \<not> quit i) self w self' w'"
proof (induction ls arbitrary: i cnt self w rule: length_induct)
  case (1 ls)
  let ?loop = "log_reader_loop (text_ops rd) options lo quit acks"
  show ?case
  proof (cases "cnt < lo_fetch_limit lo \<and> \<not> quit i")
    case False
    then have "?loop i cnt True self w = Some (NC_NONE, cnt, self, w)" by (subst log_reader_loop.simps) auto
    moreover have "reader_steps org B N options lo ls part False self w self w"
      using "1.prems" by (intro reader_steps_none) auto
    ultimately show ?thesis using False by auto
  next
    case True
    from assms "1.prems"(1) show ?thesis
    proof (cases rule: text_at_fetch)
      case (wait proto' w')
      then have "?loop i cnt True self w = Some (NC_NONE, cnt, self\<lparr>lr_proto := proto'\<rparr>, w')"
        using True by (subst log_reader_loop.simps) auto
      moreover have "reader_steps org B N options lo ls part True self w (self\<lparr>lr_proto := proto'\<rparr>) w'"
        using wait "1.prems"(2) by (intro reader_steps_none) auto
      ultimately show ?thesis using True by auto
    next
      case (line l e ls' proto' w')
      let ?m = "strip_eol l" and ?q = "log_proto_buffered_server_queued proto'"
      let ?keep = "?m \<noteq> [] \<or> lo_empty_lines lo"
      define self2 where "self2 = (if ?keep
        then self\<lparr>lr_window_size := lr_window_size self - 1 + int (acks (length (lr_received self))), lr_received := lr_received self @ [?m], lr_proto := ?q\<rparr>
        else self\<lparr>lr_proto := ?q\<rparr>)"
      have up: "\<exists>cnt' self' w''. ?loop i cnt True self w = Some (NC_NONE, cnt', self', w'') \<and> reader_steps org B N options lo ls' part False self2 w' self' w''"
      proof (cases "0 < lr_window_size self2")
        case False
        have "?loop i cnt True self w = Some (NC_NONE, cnt + 1, self2, w')"
          using False True "1.prems"(2) line(1)
          by (subst log_reader_loop.simps) (auto simp: log_reader_handle_line_def log_source_free_to_send_def self2_def Let_def split: if_splits)
        moreover have "reader_steps org B N options lo ls' part False self2 w' self2 w'"
          using line(3) "1.prems"(2) by (intro reader_steps_none) (auto simp: self2_def)
        ultimately show ?thesis by blast
      next
        case open_: True
        have "?loop i cnt True self w = ?loop (Suc i) (if ?keep then cnt + 1 else cnt) True self2 w'"
          using open_ True "1.prems"(2) line(1)
          by (subst log_reader_loop.simps) (auto simp: log_reader_handle_line_def log_source_free_to_send_def self2_def Let_def)
        moreover have "text_at org B N options ls' part (lr_proto self2) w'" using line(3) by (simp add: self2_def)
        ultimately show ?thesis
          using "1.IH"[rule_format, of ls' self2 w' "Suc i" "if ?keep then cnt + 1 else cnt"] open_ line(2) reader_steps_weak
          by (metis length_Cons lessI)
      qed
      have "reader_steps org B N options lo ls part True self w self' w''" if "reader_steps org B N options lo ls' part False self2 w' self' w''" for self' w''
      proof -
        from that obtain ks ls2 where o: "ls' = ks @ ls2" "text_at org B N options ls2 part (lr_proto self') w''" "lr_received self' = lr_received self2 @ messages lo ks"
          "0 \<le> lr_window_size self'" "lr_waiting_for_preemption self' = lr_waiting_for_preemption self2" "ls2 = [] \<or> length ls2 + ahead w'' \<le> length ls' + ahead w'"
          by (auto simp: reader_steps_def)
        then show ?thesis
          unfolding reader_steps_def using line(2,4)
          by (intro exI[of _ "(l, e) # ks"] exI[of _ ls2]) (auto simp: messages_Cons self2_def)
      qed
      then show ?thesis using up True by metis
    qed
  qed
qed

lemma fetch_log_ok:
  assumes "po_encoding options = None" "\<not> lo_preempt lo" "\<not> lr_waiting_for_preemption self"
    "text_at org B N options ls part (lr_proto self) w" "0 < lr_window_size self"
  shows "\<exists>self' w'. log_reader_fetch_log (text_ops rd) options lo quit acks self w = Some (NC_NONE, self', w') \<and>
    reader_steps org B N options lo ls part (0 < lo_fetch_limit lo \<and> \<not> quit 0) self w self' w'"
  using reader_loop_ok[OF assms(1,4,5), of lo quit acks 0 0] assms(2,3)
  by (fastforce simp: log_reader_fetch_log_def reader_steps_def Let_def)

lemma reader_runs_ok:
  assumes "po_encoding options = None" "\<not> lo_preempt lo"
  shows "text_at org B N options ls part (lr_proto self) w \<Longrightarrow> \<not> lr_waiting_for_preemption self \<Longrightarrow> 0 \<le> lr_window_size self \<Longrightarrow>
    \<exists>self' w' ks ls'. reader_runs (text_ops rd) options lo runs self w = Some (NC_NONE, self', w') \<and> ls = ks @ ls' \<and>
      text_at org B N options ls' part (lr_proto self') w' \<and> lr_received self' = lr_received self @ messages lo ks \<and> 0 \<le> lr_window_size self' \<and>
      (0 < lo_fetch_limit lo \<and> 0 < lr_window_size self \<and> (\<forall>(quit, acks, late) \<in> set runs. \<not> quit 0 \<and> 0 < late) \<and>
         length ls + ahead w \<le> length runs \<longrightarrow> ls' = [])"
proof (induction runs arbitrary: ls self w)
  case Nil
  then show ?case by (intro exI[of _ self] exI[of _ w] exI[of _ "[]"] exI[of _ ls]) (auto simp: messages_def)
next
  case (Cons r runs)
  obtain quit acks late where r: "r = (quit, acks, late)" by (cases r) auto
  show ?case
  proof (cases "0 < lr_window_size self")
    case False
    let ?self = "self\<lparr>lr_window_size := lr_window_size self + int late\<rparr>"
    have "text_at org B N options ls part (lr_proto ?self) w" "\<not> lr_waiting_for_preemption ?self" "0 \<le> lr_window_size ?self" using Cons.prems by simp_all
    from Cons.IH[OF this] False show ?thesis by (auto simp: r log_source_free_to_send_def)
  next
    case True
    from fetch_log_ok[OF assms Cons.prems(2,1) True, of quit acks] obtain self1 w1
      where f: "log_reader_fetch_log (text_ops rd) options lo quit acks self w = Some (NC_NONE, self1, w1)"
        "reader_steps org B N options lo ls part (0 < lo_fetch_limit lo \<and> \<not> quit 0) self w self1 w1" by blast
    from f(2) obtain ks ls1 where o: "ls = ks @ ls1" "text_at org B N options ls1 part (lr_proto self1) w1" "lr_received self1 = lr_received self @ messages lo ks"
      "0 \<le> lr_window_size self1" "\<not> lr_waiting_for_preemption self1"
      "ls1 = [] \<or> length ls1 + ahead w1 + (if 0 < lo_fetch_limit lo \<and> \<not> quit 0 then 1 else 0) \<le> length ls + ahead w"
      using Cons.prems(2) by (auto simp: reader_steps_def)
    let ?self = "self1\<lparr>lr_window_size := lr_window_size self1 + int late\<rparr>"
    have "text_at org B N options ls1 part (lr_proto ?self) w1" "\<not> lr_waiting_for_preemption ?self" "0 \<le> lr_window_size ?self" using o by simp_all
    from Cons.IH[OF this] obtain self' w' ks' ls' where i: "reader_runs (text_ops rd) options lo runs ?self w1 = Some (NC_NONE, self', w')"
      "ls1 = ks' @ ls'" "text_at org B N options ls' part (lr_proto self') w'" "lr_received self' = lr_received ?self @ messages lo ks'" "0 \<le> lr_window_size self'"
      "0 < lo_fetch_limit lo \<and> 0 < lr_window_size ?self \<and> (\<forall>(quit, acks, late) \<in> set runs. \<not> quit 0 \<and> 0 < late) \<and>
         length ls1 + ahead w1 \<le> length runs \<longrightarrow> ls' = []" by blast
    have "reader_runs (text_ops rd) options lo (r # runs) self w = Some (NC_NONE, self', w')"
      using True f(1) i(1) by (simp add: r log_source_free_to_send_def)
    moreover have "ls' = []" if "0 < lo_fetch_limit lo" "\<forall>(quit, acks, late) \<in> set (r # runs). \<not> quit 0 \<and> 0 < late" "length ls + ahead w \<le> length (r # runs)"
      using that i(2,6) o(4,6) r by auto
    ultimately show ?thesis
      using o(1,3) i(2-5) by (intro exI[of _ self'] exI[of _ w'] exI[of _ "ks @ ks'"] exI[of _ ls']) (auto simp: messages_append)
  qed
qed

end

subsection \<open>Streams\<close>

lemma text_server_new_at:
  assumes "0 < unat cfg_log_msg_size" "unat cfg_log_msg_size < 2 ^ 31"
    "options = log_proto_server_options_init cfg_log_msg_size log_proto_server_options_defaults"
  shows "po_encoding options = None" "bs_ok (unat cfg_log_msg_size) (bs_alloc options (log_proto_buffered_server_init open_conv options))"
    "bs_pending (bs_alloc options (log_proto_buffered_server_init open_conv options)) = []"
    "\<not> bs_pos_tracking (bs_alloc options (log_proto_buffered_server_init open_conv options))"
proof -
  have o: "po_encoding options = None" "po_init_buffer_size options = cfg_log_msg_size"
    using assms(3) by (simp_all add: log_proto_server_options_init_def log_proto_server_options_defaults_def gint_min_def Let_def)
  then show "po_encoding options = None" "bs_ok (unat cfg_log_msg_size) (bs_alloc options (log_proto_buffered_server_init open_conv options))"
    "bs_pending (bs_alloc options (log_proto_buffered_server_init open_conv options)) = []"
    "\<not> bs_pos_tracking (bs_alloc options (log_proto_buffered_server_init open_conv options))"
    using assms(1,2)
    by (simp_all add: bs_ok_def bs_sound_def bs_alloc_def bs_mem_def bs_pending_def log_proto_buffered_server_init_def empty_state_def)
qed

text \<open>C10: A source that reads lines loses and invents nothing. Let the data of a stream socket or a file be any lines, each ended by a line feed or a NUL
  and shorter than log_msg_size(), and an incomplete last line. However the data are cut into pieces, for every fetch limit, every pattern of
  acknowledgements and every moment at which workers are asked to quit, no call of the reader fails, leaves the buffer
  or overruns its window, and what has been sent down the pipeline are the first lines, without carriage returns at their
  end and without empty ones unless they are wanted. If the workers are not asked to quit and acknowledgements come, enough
  calls deliver all complete lines.\<close>

theorem log_reader_delivers_lines:
  assumes "0 < unat cfg_log_msg_size" "unat cfg_log_msg_size < 2 ^ 31"
    "options = log_proto_server_options_init cfg_log_msg_size log_proto_server_options_defaults"
    "text_ok (unat cfg_log_msg_size) ls part" "calm w" "stream_bytes w = text_of ls part"
    "rd = log_transport_stream_socket_read_method \<or> rd = log_transport_file_read_method" "\<not> lo_preempt lo" "0 < window"
  shows "\<exists>self' w' ks ls'. reader_runs (text_ops rd) options lo runs (log_reader_new window (log_proto_buffered_server_init open_conv options)) w =
      Some (NC_NONE, self', w') \<and> ls = ks @ ls' \<and> lr_received self' = messages lo ks \<and> 0 \<le> lr_window_size self' \<and>
    (0 < lo_fetch_limit lo \<and> (\<forall>(quit, acks, late) \<in> set runs. \<not> quit 0 \<and> 0 < late) \<and>
       length ls + length (stream_bytes w) + length w \<le> length runs \<longrightarrow> ls' = [])"
proof -
  let ?proto = "log_proto_buffered_server_init open_conv options" and ?N = "length (stream_bytes w)"
  let ?self = "log_reader_new window ?proto"
  note new = text_server_new_at(1)[OF assms(1-3)] text_server_new_at(2-4)[OF assms(1-3), of open_conv]
  have lr: "lr_proto ?self = ?proto" "\<not> lr_waiting_for_preemption ?self" "lr_window_size ?self = window" "lr_received ?self = []"
    by (simp_all add: log_reader_new_def)
  have org: "bs_origin (bs_alloc options ?proto) = (0, 0, False)" "bs_buffer ?proto = None"
    "st_buffer_size (bs_state ?proto) = 0" "st_raw_buffer_size (bs_state ?proto) = 0"
    by (simp_all add: bs_origin_def bs_alloc_def log_proto_buffered_server_init_def empty_state_def)
  have untracked: "bs_track c (bs_alloc options ?proto)" "bs_committed B N off (bs_alloc options ?proto)" for c B N off
    using new(4) by (simp_all add: bs_track_def bs_committed_def)
  have "stream_socket.text_at (0, 0, False) (unat cfg_log_msg_size) ?N options ls part (lr_proto ?self) w"
    using assms(4-6) new untracked org lr(1) by (simp add: stream_socket.text_at_def)
  moreover have "regular_file.text_at (0, 0, False) (unat cfg_log_msg_size) ?N options ls part (lr_proto ?self) w"
    using assms(4-6) new untracked org lr(1) by (simp add: regular_file.text_at_def)
  ultimately have "\<exists>self' w' ks ls'. reader_runs (text_ops rd) options lo runs ?self w = Some (NC_NONE, self', w') \<and> ls = ks @ ls' \<and>
      lr_received self' = lr_received ?self @ messages lo ks \<and> 0 \<le> lr_window_size self' \<and>
      (0 < lo_fetch_limit lo \<and> 0 < lr_window_size ?self \<and> (\<forall>(quit, acks, late) \<in> set runs. \<not> quit 0 \<and> 0 < late) \<and>
         length ls + (length (stream_bytes w) + length w) \<le> length runs \<longrightarrow> ls' = [])"
    using assms(7,9) lr(2,3) stream_socket.reader_runs_ok[OF new(1) assms(8), where self = ?self and w = w and runs = runs]
      regular_file.reader_runs_ok[OF new(1) assms(8), where self = ?self and w = w and runs = runs] by (metis less_imp_le)
  then show ?thesis using lr(3,4) assms(9) by (simp add: add.assoc)
qed

theorem log_reader_delivers_lines_witness:
  "\<exists>self' w'. reader_runs (text_ops log_transport_stream_socket_read_method) (log_proto_server_options_init 8192 log_proto_server_options_defaults)
      \<lparr>lo_fetch_limit = 10, lo_empty_lines = False, lo_preempt = False\<rparr> (replicate 20 (\<lambda>i. False, \<lambda>i. 0, 1))
      (log_reader_new 1 (log_proto_buffered_server_init (\<lambda>e. None) (log_proto_server_options_init 8192 log_proto_server_options_defaults)))
      [Rdata ''ab'', Rerrno EAGAIN, Rdata [CHR 0x0A, CHR 0x0A, CHR ''c'', CHR 0x0D], Rerrno EINTR, Rdata [NUL, CHR ''d'']] = Some (NC_NONE, self', w') \<and>
    lr_received self' = [''ab'', ''c'']"
proof -
  let ?w = "[Rdata ''ab'', Rerrno EAGAIN, Rdata [CHR 0x0A, CHR 0x0A, CHR ''c'', CHR 0x0D], Rerrno EINTR, Rdata [NUL, CHR ''d'']]"
  let ?ls = "[(''ab'', CHR 0x0A), ([], CHR 0x0A), ([CHR ''c'', CHR 0x0D], NUL)]"
  let ?lo = "\<lparr>lo_fetch_limit = 10, lo_empty_lines = False, lo_preempt = False\<rparr>"
  let ?runs = "replicate 20 (\<lambda>i :: nat. False, \<lambda>i :: nat. 0 :: nat, 1 :: nat)"
  have c: "calm ?w" "stream_bytes ?w = text_of ?ls ''d''" "text_ok (unat (8192 :: guint32)) ?ls ''d''" "length (stream_bytes ?w) = 8"
    by (simp_all add: calm_def text_of_def text_ok_def)
  have m: "messages ?lo ?ls = [''ab'', ''c'']" by (simp add: messages_def strip_eol_def)
  have q: "\<forall>(quit, acks, late) \<in> set ?runs. \<not> quit 0 \<and> 0 < late" by simp
  have o: "0 < unat (8192 :: guint32)" "unat (8192 :: guint32) < 2 ^ 31" "\<not> lo_preempt ?lo" "0 < lo_fetch_limit ?lo" "(0 :: int) < 1" by simp_all
  have n: "length ?ls + length (stream_bytes ?w) + length ?w \<le> length ?runs" unfolding c(4) by simp
  from log_reader_delivers_lines[OF o(1,2) refl c(3,1,2) disjI1[OF refl] o(3,5), of ?runs "\<lambda>e. None"] obtain self' w' ks ls'
    where r: "reader_runs (text_ops log_transport_stream_socket_read_method) (log_proto_server_options_init 8192 log_proto_server_options_defaults) ?lo ?runs
      (log_reader_new 1 (log_proto_buffered_server_init (\<lambda>e. None) (log_proto_server_options_init 8192 log_proto_server_options_defaults))) ?w = Some (NC_NONE, self', w')"
      "?ls = ks @ ls'" "lr_received self' = messages ?lo ks" "ls' = []" using o(4) q n by blast
  then have "lr_received self' = [''ab'', ''c'']" using m by simp
  then show ?thesis using r(1) by blast
qed

end
