(* ===== verification/File_Source.thy ===== *)
theory File_Source
  imports Log_Reader "HOL-Library.Sublist"
begin

text \<open>
  Reading a file across restarts: the reader of \<open>Log_Reader\<close> over the text server with a stored position
  (\<^verbatim>\<open>log_proto_buffered_server_apply_state\<close>). A file is its contents and the position of the descriptor. Each run of the daemon sees
  the file at least as long as before, and starts with the state that the run before has left in the state file,
  which is mapped into memory and so survives every end of the process.
\<close>

subsection \<open>Files\<close>

type_synonym open_file = "string \<times> nat"

text \<open>Reading from a regular file gives all that is there, up to the size of the buffer; at the end the transport says
  \<^verbatim>\<open>EAGAIN\<close>.\<close>

fun file_read :: "open_file \<Rightarrow> nat \<Rightarrow> read_rc \<times> open_file" where
  "file_read (f, p) n = (let s = take n (drop p f) in if s = [] then (Rfail EAGAIN, (f, p)) else (Got s, (f, p + length s)))"

fun file_seek :: "int \<Rightarrow> open_file \<Rightarrow> open_file" where
  "file_seek ofs (f, p) = (f, nat ofs)"

abbreviation unread :: "open_file \<Rightarrow> string" where
  "unread w \<equiv> drop (snd w) (fst w)"

lemma file_read_fst: "file_read w n = (rc, w') \<Longrightarrow> fst w' = fst w"
  by (cases w) (auto simp: Let_def split: if_splits)

interpretation source_file: byte_stream file_read "\<lambda>w. True" unread "\<lambda>w. 0"
proof unfold_locales
  fix w :: open_file and n s w'
  assume "0 < n" and r: "file_read w n = (Got s, w')"
  obtain f p where w: "w = (f, p)" by fastforce
  from r have "s = take n (drop p f)" "s \<noteq> []" "w' = (f, p + length s)" by (auto simp: w Let_def split: if_splits)
  moreover have "take n (drop p f) @ drop (p + length (take n (drop p f))) f = drop p f"
    by (metis append_take_drop_id append_eq_conv_conj drop_drop add.commute)
  ultimately show "True \<and> s \<noteq> [] \<and> length s \<le> n \<and> unread w = s @ unread w' \<and> (0 :: nat) \<le> 0" using w by auto
next
  fix w :: open_file and n e w'
  assume "0 < n" "file_read w n = (Rfail e, w')"
  then show "e = EAGAIN \<and> True \<and> unread w = unread w' \<and> ((0 :: nat) < 0 \<or> unread w' = [])"
    by (cases w) (auto simp: Let_def split: if_splits)
qed

subsection \<open>A run of the daemon\<close>

text \<open>The server is set up with the state of the run before, as \<^verbatim>\<open>log_proto_buffered_server_restart_with_state\<close> does with a
  state of the current version.\<close>

definition open_source ::
    "(string \<Rightarrow> conv option) \<Rightarrow> lps_options \<Rightarrow> int \<Rightarrow> string \<Rightarrow> buffered_state \<Rightarrow> (buffered_server \<times> open_file) option" where
  "open_source open_conv options inode f st =
     log_proto_buffered_server_apply_state file_read file_seek (Some (inode, int (length f))) options
       ((log_proto_buffered_server_init open_conv options)\<lparr>bs_pos_tracking := True, bs_state := st\<rparr>) (f, 0)"

lemma alloc_fields:
  fixes options self
  defines "st \<equiv> bs_state (bs_alloc options self)"
  shows "st_buffer_pos st = st_buffer_pos (bs_state self)" "st_raw_stream_pos st = st_raw_stream_pos (bs_state self)"
    "st_raw_buffer_size st = st_raw_buffer_size (bs_state self)" "st_buffer_cached_eol st = st_buffer_cached_eol (bs_state self)"
    "st_pending_buffer_pos st = st_pending_buffer_pos (bs_state self)" "st_pending_buffer_end st = st_pending_buffer_end (bs_state self)"
    "st_pending_raw_stream_pos st = st_pending_raw_stream_pos (bs_state self)" "st_raw_buffer_leftover st = st_raw_buffer_leftover (bs_state self)"
    "st_file_inode st = st_file_inode (bs_state self)" "st_file_size st = st_file_size (bs_state self)"
    "bs_pos_tracking (bs_alloc options self) = bs_pos_tracking self"
    "bs_buffer self \<noteq> None \<Longrightarrow> st_buffer_size st = st_buffer_size (bs_state self)"
  by (auto simp: st_def bs_alloc_def)

lemma fresh_source:
  assumes "0 < unat cfg_log_msg_size" "unat cfg_log_msg_size < 2 ^ 31"
    "options = log_proto_server_options_init cfg_log_msg_size log_proto_server_options_defaults" "text_ok (unat cfg_log_msg_size) ls part" "f = text_of ls part"
  shows "\<exists>proto w. open_source open_conv options inode f empty_state = Some (proto, w) \<and>
    source_file.text_at (inode, int (length f), True) (unat cfg_log_msg_size) (length f) options ls part proto w"
proof -
  have o: "po_encoding options = None" "po_init_buffer_size options = cfg_log_msg_size"
    using assms(3) by (simp_all add: log_proto_server_options_init_def log_proto_server_options_defaults_def gint_min_def Let_def)
  show ?thesis
    using assms(1,2,4,5) o
    by (simp add: open_source_def log_proto_buffered_server_apply_state_def apply_error_def apply_exit_def empty_state_def
        log_proto_buffered_server_init_def source_file.text_at_def bs_alloc_def bs_ok_def bs_sound_def bs_mem_def bs_pending_def
        bs_track_def bs_committed_def bs_origin_def Let_def)
qed

text \<open>A stored state from which the file \<open>f\<close> can be continued at the offset \<open>off\<close>.\<close>

definition stored_at :: "guint32 \<Rightarrow> int \<Rightarrow> string \<Rightarrow> nat \<Rightarrow> buffered_state \<Rightarrow> bool" where
  "stored_at cfg_log_msg_size inode f off st \<longleftrightarrow> st_file_inode st = inode \<and> st_file_size st \<le> int (length f) \<and>
     0 \<le> st_raw_stream_pos st \<and> st_raw_stream_pos st + int (unat (st_buffer_pos st)) = int off \<and>
     int (unat (st_buffer_pos st)) \<le> st_raw_buffer_size st \<and> st_raw_buffer_size st \<le> int (unat cfg_log_msg_size) \<and>
     st_raw_stream_pos st + st_raw_buffer_size st \<le> int (length f) \<and> st_raw_buffer_leftover st = [] \<and>
     st_buffer_size st \<in> {0, cfg_log_msg_size} \<and> (st_raw_buffer_size st \<noteq> 0 \<longrightarrow> st_buffer_size st = cfg_log_msg_size) \<and>
     (st_buffer_cached_eol st \<noteq> 0 \<longrightarrow>
        eom_bytes (unat (st_buffer_pos st)) (take (nat (st_raw_buffer_size st) - unat (st_buffer_pos st)) (drop off f)) =
          Some (unat (st_buffer_cached_eol st)))"

lemma stored_at_grown:
  assumes "stored_at cfg_log_msg_size inode f off st"
  shows "stored_at cfg_log_msg_size inode (f @ grown) off st"
proof -
  have "off + (nat (st_raw_buffer_size st) - unat (st_buffer_pos st)) \<le> length f"
    using assms unfolding stored_at_def by linarith
  then have "take (nat (st_raw_buffer_size st) - unat (st_buffer_pos st)) (drop off (f @ grown)) =
      take (nat (st_raw_buffer_size st) - unat (st_buffer_pos st)) (drop off f)" by simp
  moreover have "st_raw_stream_pos st + st_raw_buffer_size st \<le> int (length (f @ grown))" "st_file_size st \<le> int (length (f @ grown))"
    using assms by (simp_all add: stored_at_def)
  ultimately show ?thesis using assms unfolding stored_at_def by presburger
qed

text \<open>What a server leaves.\<close>

lemma left_stored:
  assumes "options = log_proto_server_options_init cfg_log_msg_size log_proto_server_options_defaults"
    "source_file.text_at (inode, fsize, True) (unat cfg_log_msg_size) (length f) options ls part proto w" "fsize \<le> int (length f)"
    "f = pre @ text_of ls part"
  shows "stored_at cfg_log_msg_size inode f (length pre) (bs_state proto)"
proof -
  let ?B = "unat cfg_log_msg_size" and ?st = "bs_state proto" and ?proto = "bs_alloc options proto"
  let ?rsp = "st_raw_stream_pos ?st" and ?rbs = "st_raw_buffer_size ?st" and ?pos = "st_buffer_pos ?st" and ?cached = "st_buffer_cached_eol ?st"
  have at: "bs_ok ?B ?proto" "bs_pending ?proto @ unread w = text_of ls part"
    "bs_committed ?B (length f) (int (length f) - int (length (text_of ls part))) ?proto" "bs_origin ?proto = (inode, fsize, True)"
    "bs_buffer proto = None \<Longrightarrow> st_buffer_size ?st = 0 \<and> ?rbs = 0"
    using assms(2) by (auto simp: source_file.text_at_def)
  note alloc = alloc_fields[where options = options and self = proto]
  have org: "st_file_inode ?st = inode" "st_file_size ?st = fsize" "bs_pos_tracking proto" using at(4) by (auto simp: bs_origin_def alloc)
  have com: "0 \<le> ?rsp" "?rsp + int (unat ?pos) = int (length pre)" "int (unat ?pos) \<le> ?rbs" "?rbs \<le> int ?B" "?rsp + ?rbs \<le> int (length f)"
    "?cached \<noteq> 0 \<Longrightarrow> ?pos = st_pending_buffer_pos ?st \<and> ?rbs = int (unat (st_pending_buffer_end ?st)) \<and> st_pending_raw_stream_pos ?st = ?rsp"
    using at(3) org(3) assms(4) by (simp_all add: bs_committed_def alloc Let_def del: of_nat_unat)
  have "bs_buffer proto \<noteq> None \<Longrightarrow> unat (st_buffer_size ?st) = ?B" using at(1) by (simp add: bs_ok_def bs_sound_def alloc)
  then have size: "st_raw_buffer_leftover ?st = []" "bs_buffer proto \<noteq> None \<Longrightarrow> st_buffer_size ?st = cfg_log_msg_size"
    using at(1) by (simp_all add: bs_ok_def bs_sound_def alloc word_unat_eq_iff)
  have "eom_bytes (unat ?pos) (take (nat ?rbs - unat ?pos) (drop (length pre) f)) = Some (unat ?cached)" if c: "?cached \<noteq> 0"
  proof -
    have u: "?pos = st_pending_buffer_pos ?st" "unat (st_pending_buffer_end ?st) = nat ?rbs" using com(6)[OF c] by (simp_all del: of_nat_unat)
    have "length (bs_pending ?proto) = nat ?rbs - unat ?pos" using pending_length[of ?B ?proto] at(1) u by (simp add: bs_ok_def alloc)
    moreover have "take (length (bs_pending ?proto)) (drop (length pre) f) = bs_pending ?proto" using assms(4) unfolding at(2)[symmetric] by simp
    ultimately show ?thesis using at(1) c u(1) by (simp add: bs_ok_def alloc)
  qed
  then show ?thesis using org assms(3) com(1-5) size at(5) by (auto simp: stored_at_def simp del: of_nat_unat)
qed

text \<open>All of the buffer was confirmed: the file is continued behind it.\<close>

lemma reopened_empty:
  assumes "0 < unat cfg_log_msg_size" "unat cfg_log_msg_size < 2 ^ 31"
    "options = log_proto_server_options_init cfg_log_msg_size log_proto_server_options_defaults" "inode \<noteq> 0"
    "stored_at cfg_log_msg_size inode f (length pre) st" "f = pre @ text_of ls part" "text_ok (unat cfg_log_msg_size) ls part" "st_raw_buffer_size st = 0"
  shows "\<exists>proto w. open_source open_conv options inode f st = Some (proto, w) \<and>
    source_file.text_at (inode, int (length f), True) (unat cfg_log_msg_size) (length f) options ls part proto w"
proof -
  have o: "po_encoding options = None" "po_init_buffer_size options = cfg_log_msg_size"
    using assms(3) by (simp_all add: log_proto_server_options_init_def log_proto_server_options_defaults_def gint_min_def Let_def)
  have s: "st_file_inode st = inode" "st_file_size st \<le> int (length f)" "st_raw_stream_pos st + int (unat (st_buffer_pos st)) = int (length pre)"
    "int (unat (st_buffer_pos st)) \<le> st_raw_buffer_size st" "st_raw_buffer_leftover st = []" "st_buffer_size st = 0 \<or> st_buffer_size st = cfg_log_msg_size"
    using assms(5) by (auto simp: stored_at_def)
  have "unat (st_buffer_pos st) = 0" using assms(8) s(4) by (simp del: of_nat_unat)
  then have pos: "st_buffer_pos st = 0" by (simp only: unat_eq_zero)
  then have rsp: "st_raw_stream_pos st = int (length pre)" using s(3) by simp
  have cached: "st_buffer_cached_eol st = 0" using assms(5,8) by (auto simp: stored_at_def)
  have init: "bs_status (log_proto_buffered_server_init open_conv options) = LPS_SUCCESS" "\<not> bs_no_multi_read (log_proto_buffered_server_init open_conv options)"
    "bs_convert (log_proto_buffered_server_init open_conv options) = None" "bs_buffer (log_proto_buffered_server_init open_conv options) = None"
    using o(1) by (simp_all add: log_proto_buffered_server_init_def)
  show ?thesis
    using assms(1,2,4,6-8) s(1,2,5,6) pos rsp cached init o(2)
    by (auto simp: open_source_def log_proto_buffered_server_apply_state_def apply_exit_def source_file.text_at_def bs_alloc_def bs_ok_def
        bs_sound_def bs_mem_def bs_pending_def bs_track_def bs_committed_def bs_origin_def Let_def)
qed

text \<open>Otherwise the window of the file that was in the buffer is read again.\<close>

lemma reread_window:
  assumes "po_encoding options = None" "st_raw_buffer_size st = int n" "0 < n" "n \<le> unat cfg_log_msg_size" "unat cfg_log_msg_size < 2 ^ 31"
    "st_buffer_size st = cfg_log_msg_size" "unat (st_buffer_pos st) \<le> n" "unat (st_buffer_cached_eol st) \<le> n" "p + n \<le> length f"
    "bs_buffer self = Some (replicate (unat cfg_log_msg_size) NUL)" "bs_state self = st\<lparr>st_pending_buffer_end := 0\<rparr>"
  shows "reread file_read options self (f, p) = Some (True, self\<lparr>bs_buffer := Some (take n (drop p f) @ replicate (unat cfg_log_msg_size - n) NUL),
    bs_state := st\<lparr>st_pending_buffer_end := of_nat n\<rparr>\<rparr>, (f, p + n))"
proof -
  have un: "unat (of_nat n :: guint32) = n" using assms(4,5) by (simp add: unat_of_nat)
  have "int n \<le> uint cfg_log_msg_size" using assms(4) by (metis of_nat_unat of_nat_le_iff)
  moreover have "int n < 2 ^ 31" using assms(4,5) by simp
  ultimately have m: "\<not> int n mod 2 ^ 32 > uint cfg_log_msg_size" by simp
  have rd: "file_read (f, p) n = (Got (take n (drop p f)), (f, p + n))" using assms(3,9) by (simp add: Let_def)
  have len: "length (take n (drop p f)) = n" using assms(9) by simp
  have test: "\<not> of_nat n < st_buffer_pos st" "\<not> of_nat n < st_buffer_cached_eol st" using assms(7,8) un by (simp_all add: word_less_nat_alt)
  show ?thesis
    using assms(1,2,4,6,10,11) m rd len test un by (simp add: reread_def mem_write_def bs_mem_def Let_def del: file_read.simps)
qed

lemma reopened_window:
  assumes "0 < unat cfg_log_msg_size" "unat cfg_log_msg_size < 2 ^ 31"
    "options = log_proto_server_options_init cfg_log_msg_size log_proto_server_options_defaults" "inode \<noteq> 0"
    "stored_at cfg_log_msg_size inode f (length pre) st" "f = pre @ text_of ls part" "text_ok (unat cfg_log_msg_size) ls part" "st_raw_buffer_size st \<noteq> 0"
  shows "\<exists>proto w. open_source open_conv options inode f st = Some (proto, w) \<and>
    source_file.text_at (inode, int (length f), True) (unat cfg_log_msg_size) (length f) options ls part proto w"
proof -
  let ?B = "unat cfg_log_msg_size" and ?pos = "st_buffer_pos st"
  define n where "n = nat (st_raw_buffer_size st)"
  define p where "p = nat (st_raw_stream_pos st)"
  let ?s = "take n (drop p f)"
  have s: "st_file_inode st = inode" "st_file_size st \<le> int (length f)" "st_raw_buffer_leftover st = []" "st_buffer_size st = cfg_log_msg_size"
    using assms(5,8) by (auto simp: stored_at_def)
  have n: "st_raw_buffer_size st = int n" "0 < n" "n \<le> ?B" "unat ?pos \<le> n" "st_raw_stream_pos st = int p" "p + unat ?pos = length pre" "p + n \<le> length f"
    using assms(5,8) by (auto simp: stored_at_def n_def p_def simp del: of_nat_unat)
  have un: "unat (of_nat n :: guint32) = n" using n(3) assms(2) by (simp add: unat_of_nat)
  have o: "po_encoding options = None"
    using assms(3) by (simp add: log_proto_server_options_init_def log_proto_server_options_defaults_def Let_def)
  have window: "drop (unat ?pos) ?s = take (n - unat ?pos) (drop (length pre) f)" "drop (unat ?pos) ?s @ drop (p + n) f = text_of ls part" "length ?s = n"
  proof -
    show d: "drop (unat ?pos) ?s = take (n - unat ?pos) (drop (length pre) f)" using n(6) by (simp add: drop_take add.commute)
    have "drop (p + n) f = drop (n - unat ?pos) (drop (length pre) f)"
      using n(4) unfolding n(6)[symmetric] by (simp add: algebra_simps)
    then show "drop (unat ?pos) ?s @ drop (p + n) f = text_of ls part" using assms(6) unfolding d by simp
    show "length ?s = n" using n(7) by simp
  qed
  have cached: "st_buffer_cached_eol st \<noteq> 0 \<Longrightarrow> eom_bytes (unat ?pos) (drop (unat ?pos) ?s) = Some (unat (st_buffer_cached_eol st))"
    using assms(5) unfolding window(1) by (simp add: stored_at_def n_def)
  then have "unat (st_buffer_cached_eol st) \<le> n"
    using eom_bytes_less[of "unat ?pos" "drop (unat ?pos) ?s"] window(3) n(4) by (cases "st_buffer_cached_eol st = 0") fastforce+
  note again = reread_window[OF o n(1-3) assms(2) s(4) n(4) this n(7)]
  let ?self = "(log_proto_buffered_server_init open_conv options)\<lparr>bs_pos_tracking := True, bs_state := st\<rparr>"
  have init: "bs_status ?self = LPS_SUCCESS" "\<not> bs_no_multi_read ?self" "bs_convert ?self = None" "bs_buffer ?self = None"
    using o by (simp_all add: log_proto_buffered_server_init_def)
  let ?mem = "?s @ replicate (?B - n) NUL"
  let ?proto = "apply_exit inode (int (length f)) (int p) (?self\<lparr>bs_buffer := Some ?mem, bs_state := st\<lparr>st_pending_buffer_end := of_nat n\<rparr>\<rparr>)"
  have eq: "open_source open_conv options inode f st = Some (?proto, (f, p + n))"
    using again[of "?self\<lparr>bs_buffer := Some (replicate ?B NUL), bs_state := st\<lparr>st_pending_buffer_end := 0\<rparr>\<rparr>"] assms(1,4,8) s n(5,7) init(4)
    by (auto simp: open_source_def log_proto_buffered_server_apply_state_def Let_def)
  have pending: "bs_pending ?proto = drop (unat ?pos) ?s"
    using un n(4) window(3) by (simp add: bs_pending_def bs_mem_def apply_exit_def Let_def)
  have "bs_ok ?B ?proto"
    using cached pending init un n(3,4) window(3) assms(1,2) s(3,4)
    by (simp add: bs_ok_def bs_sound_def bs_mem_def apply_exit_def word_le_nat_alt Let_def)
  moreover have "bs_track (length f - length (drop (p + n) f)) ?proto"
    using n(1,7) un by (simp add: bs_track_def apply_exit_def Let_def)
  moreover have "bs_committed ?B (length f) (int (length f) - int (length (text_of ls part))) ?proto"
    using n un assms(6) by (simp add: bs_committed_def apply_exit_def Let_def del: of_nat_unat)
  moreover have "bs_origin ?proto = (inode, int (length f), True)" by (simp add: bs_origin_def apply_exit_def Let_def)
  ultimately have "source_file.text_at (inode, int (length f), True) ?B (length f) options ls part ?proto (f, p + n)"
    using assms(7) window(2) pending bs_alloc_ok bs_ok_buffer by (fastforce simp: source_file.text_at_def)
  then show ?thesis using eq by blast
qed

subsection \<open>Many runs of the daemon\<close>

text \<open>A list of runs, each with the contents of the file at that time and the calls of the reader. The result is the stored state and all that
  was sent down the pipeline.\<close>

fun daemon_runs ::
    "(string \<Rightarrow> conv option) \<Rightarrow> lps_options \<Rightarrow> lr_options \<Rightarrow> int \<Rightarrow> int \<Rightarrow> buffered_state \<Rightarrow>
      (string \<times> ((nat \<Rightarrow> bool) \<times> (nat \<Rightarrow> nat) \<times> nat) list) list \<Rightarrow> (buffered_state \<times> string list) option" where
  "daemon_runs open_conv options lo window inode st [] = Some (st, [])"
| "daemon_runs open_conv options lo window inode st ((f, runs) # rs) =
     (case open_source open_conv options inode f st of
        None \<Rightarrow> None
      | Some (proto, w) \<Rightarrow>
          (case reader_runs (text_ops file_read) options lo runs (log_reader_new window proto) w of
             None \<Rightarrow> None
           | Some (nc, self, w') \<Rightarrow>
               map_option (\<lambda>(st', ms). (st', lr_received self @ ms)) (daemon_runs open_conv options lo window inode (bs_state (lr_proto self)) rs)))"

text \<open>\<open>st\<close> is what a run has left that has delivered the part \<open>pre\<close> of the file, when the file had the contents \<open>f\<close>.\<close>

definition left_at :: "guint32 \<Rightarrow> int \<Rightarrow> string \<Rightarrow> string \<Rightarrow> buffered_state \<Rightarrow> bool" where
  "left_at cfg_log_msg_size inode pre f st \<longleftrightarrow> st = empty_state \<and> pre = [] \<or> stored_at cfg_log_msg_size inode f (length pre) st"

lemma text_of_append: "text_of (ks @ ls) part = text_of ks [] @ text_of ls part"
  by (simp add: text_of_def)

lemma text_ok_append: "text_ok B (ks @ ls) part \<Longrightarrow> text_ok B ls part"
  by (auto simp: text_ok_def)

abbreviation keeps_going :: "lr_options \<Rightarrow> ((nat \<Rightarrow> bool) \<times> (nat \<Rightarrow> nat) \<times> nat) list \<Rightarrow> string \<Rightarrow> bool" where
  "keeps_going lo runs f \<equiv> 0 < lo_fetch_limit lo \<and> (\<forall>(quit, acks, late) \<in> set runs. \<not> quit 0 \<and> 0 < late) \<and> 2 * length f \<le> length runs"

lemma text_lines_length: "length ls \<le> length (text_of ls part)"
  by (induction ls) (auto simp: text_of_def)

lemma one_run:
  assumes "0 < unat cfg_log_msg_size" "unat cfg_log_msg_size < 2 ^ 31"
    "options = log_proto_server_options_init cfg_log_msg_size log_proto_server_options_defaults" "\<not> lo_preempt lo" "0 < window" "inode \<noteq> 0"
    "left_at cfg_log_msg_size inode pre f0 st" "f = f0 @ grown" "f = pre @ text_of ls part" "text_ok (unat cfg_log_msg_size) ls part"
  shows "\<exists>proto w self w' ks ls'. open_source open_conv options inode f st = Some (proto, w) \<and>
    reader_runs (text_ops file_read) options lo runs (log_reader_new window proto) w = Some (NC_NONE, self, w') \<and>
    ls = ks @ ls' \<and> lr_received self = messages lo ks \<and> left_at cfg_log_msg_size inode (pre @ text_of ks []) f (bs_state (lr_proto self)) \<and>
    (keeps_going lo runs f \<longrightarrow> ls' = [])"
proof -
  let ?B = "unat cfg_log_msg_size"
  have "\<exists>proto w. open_source open_conv options inode f st = Some (proto, w) \<and>
      source_file.text_at (inode, int (length f), True) ?B (length f) options ls part proto w"
  proof (cases "st = empty_state \<and> pre = []")
    case True
    then show ?thesis using fresh_source[OF assms(1-3,10), of f open_conv inode] assms(9) by auto
  next
    case False
    then have "stored_at cfg_log_msg_size inode f (length pre) st" using assms(7,8) stored_at_grown by (auto simp: left_at_def)
    then show ?thesis
      using reopened_empty[OF assms(1-3,6) _ assms(9,10), of st open_conv] reopened_window[OF assms(1-3,6) _ assms(9,10), of st open_conv] by blast
  qed
  then obtain proto w where o: "open_source open_conv options inode f st = Some (proto, w)"
    "source_file.text_at (inode, int (length f), True) ?B (length f) options ls part proto w" by blast
  let ?self = "log_reader_new window proto"
  have enc: "po_encoding options = None"
    using assms(3) by (simp add: log_proto_server_options_init_def log_proto_server_options_defaults_def Let_def)
  have lr: "lr_proto ?self = proto" "\<not> lr_waiting_for_preemption ?self" "lr_window_size ?self = window" "lr_received ?self = []"
    by (simp_all add: log_reader_new_def)
  have at: "source_file.text_at (inode, int (length f), True) ?B (length f) options ls part (lr_proto ?self) w" "0 \<le> lr_window_size ?self"
    using o(2) lr(1,3) assms(5) by simp_all
  note run = source_file.reader_runs_ok[OF enc assms(4) at(1) lr(2) at(2), where runs = runs, unfolded lr append_Nil]
  from run obtain self w' ks ls' where r: "reader_runs (text_ops file_read) options lo runs ?self w = Some (NC_NONE, self, w')" "ls = ks @ ls'"
    "source_file.text_at (inode, int (length f), True) ?B (length f) options ls' part (lr_proto self) w'" "lr_received self = messages lo ks"
    "0 < lo_fetch_limit lo \<and> 0 < window \<and> (\<forall>(quit, acks, late) \<in> set runs. \<not> quit 0 \<and> 0 < late) \<and> length ls + (length (unread w) + 0) \<le> length runs \<longrightarrow> ls' = []"
    by blast
  have "length (unread w) \<le> length f" using o(2) by (simp add: source_file.text_at_def)
  moreover have "length ls \<le> length f" using text_lines_length[of ls part] assms(9) by simp
  ultimately have "keeps_going lo runs f \<longrightarrow> ls' = []" using r(5) assms(5) by auto
  moreover have "left_at cfg_log_msg_size inode (pre @ text_of ks []) f (bs_state (lr_proto self))"
  proof -
    have "f = (pre @ text_of ks []) @ text_of ls' part" using assms(9) r(2) by (simp add: text_of_append[of ks ls'])
    from left_stored[OF assms(3) r(3) order_refl this] show ?thesis by (simp add: left_at_def)
  qed
  ultimately show ?thesis using o(1) r by blast
qed

text \<open>A text that ends early is again one.\<close>

lemma text_prefix:
  assumes "f @ grown = text_of ls part" "text_ok B ls part"
  shows "\<exists>ls' part'. f = text_of ls' part' \<and> text_ok B ls' part'"
  using assms
proof (induction ls arbitrary: f)
  case Nil
  have "part = f @ grown" using Nil.prems(1) by (simp add: text_of_def)
  with Nil.prems(2) have "text_ok B [] f" by (simp add: text_ok_def)
  moreover have "f = text_of [] f" by (simp add: text_of_def)
  ultimately show ?case by blast
next
  case (Cons le ls)
  from Cons.prems show ?case
  proof (cases rule: text_cases)
    case (line l e ls' rest)
    from Cons.IH[of rest] line obtain ls2 part2 where rest: "rest = text_of ls2 part2" "text_ok B ls2 part2" by auto
    have "f = text_of ((l, e) # ls2) part2" using line(2) rest(1) by (simp add: text_of_Cons)
    moreover have "text_ok B ((l, e) # ls2) part2" using line(1) Cons.prems(2) rest(2) by (auto simp: text_ok_def)
    ultimately show ?thesis by blast
  next
    case part
    then have "text_ok B [] f" by (auto simp: text_ok_def)
    moreover have "f = text_of [] f" by (simp add: text_of_def)
    ultimately show ?thesis by blast
  qed
qed

text \<open>Complete lines at the beginning of a text are its first lines.\<close>

lemma text_first_lines:
  assumes "text_of ks [] @ x = text_of ls part" "text_ok B ks []" "text_ok B ls part"
  shows "\<exists>ls'. ls = ks @ ls' \<and> x = text_of ls' part \<and> text_ok B ls' part"
  using assms
proof (induction ks arbitrary: ls)
  case Nil
  then show ?case by (auto simp: text_of_def)
next
  case (Cons le ks)
  obtain l e where le: "le = (l, e)" by fastforce
  have ok: "\<forall>c \<in> set l. \<not> is_eom c" "is_eom e" "text_ok B ks []" using Cons.prems(2) by (auto simp: le text_ok_def)
  have "(l @ [e]) @ (text_of ks [] @ x) = text_of ls part" using Cons.prems(1) by (simp add: le text_of_Cons)
  from this Cons.prems(3) show ?case
  proof (cases rule: text_cases)
    case (line l2 e2 ls2 rest)
    have "rest = []"
    proof (rule ccontr)
      assume "rest \<noteq> []"
      then have "e2 \<in> set l" using line(2) by (cases rest rule: rev_cases) auto
      then show False using ok(1) line(5) by auto
    qed
    then have l2: "l2 = l" "e2 = e" "text_of ks [] @ x = text_of ls2 part" using line(2,3) by auto
    from Cons.IH[OF l2(3) ok(3) line(6)] show ?thesis using line(1) l2(1,2) le by auto
  next
    case part
    then show ?thesis using ok(2) by auto
  qed
qed

lemma part_only: "text_of ls part = part' \<Longrightarrow> text_ok B ls part \<Longrightarrow> \<forall>c \<in> set part'. \<not> is_eom c \<Longrightarrow> ls = []"
proof (rule ccontr)
  assume p: "text_of ls part = part'" "text_ok B ls part" "\<forall>c \<in> set part'. \<not> is_eom c" "ls \<noteq> []"
  then obtain l e ls' where ls: "ls = (l, e) # ls'" by (metis list.exhaust surj_pair)
  then have "e \<in> set part'" using p(1) by (auto simp: text_of_Cons)
  moreover have "is_eom e" using p(2) ls by (simp add: text_ok_def)
  ultimately show False using p(3) by blast
qed

lemma daemon_runs_ok:
  assumes "0 < unat cfg_log_msg_size" "unat cfg_log_msg_size < 2 ^ 31"
    "options = log_proto_server_options_init cfg_log_msg_size log_proto_server_options_defaults" "\<not> lo_preempt lo" "0 < window" "inode \<noteq> 0"
  shows "left_at cfg_log_msg_size inode pre f0 st \<Longrightarrow> f0 = pre @ text_of ls0 part0 \<Longrightarrow> sorted_wrt prefix (f0 # map fst rs) \<Longrightarrow>
    last (f0 # map fst rs) = pre @ text_of ls part \<Longrightarrow> text_ok (unat cfg_log_msg_size) ls part \<Longrightarrow>
    \<exists>st' ks ls'. daemon_runs open_conv options lo window inode st rs = Some (st', messages lo ks) \<and> ls = ks @ ls' \<and>
      (rs \<noteq> [] \<and> keeps_going lo (snd (last rs)) (fst (last rs)) \<longrightarrow> ls' = [])"
proof (induction rs arbitrary: pre f0 st ls0 part0 ls)
  case Nil
  then show ?case by (intro exI[of _ st] exI[of _ "[]"] exI[of _ ls]) (simp add: messages_def)
next
  case (Cons r rs)
  obtain f runs where r: "r = (f, runs)" by fastforce
  let ?B = "unat cfg_log_msg_size"
  obtain grown where f: "f = f0 @ grown" using Cons.prems(3) by (auto simp: r prefix_def)
  have "prefix f (last (f # map fst rs))" using Cons.prems(3) by (cases "rs = []") (auto simp: r last_map)
  then obtain more where more: "last (f # map fst rs) = f @ more" by (auto simp: prefix_def)
  have "f @ more = pre @ text_of ls part" using Cons.prems(4) more by (simp add: r)
  then have "(text_of ls0 part0 @ grown) @ more = text_of ls part" using f Cons.prems(2) by simp
  from text_prefix[OF this Cons.prems(5)] obtain ls1 part1 where t: "text_of ls0 part0 @ grown = text_of ls1 part1" "text_ok ?B ls1 part1" by blast
  have f1: "f = pre @ text_of ls1 part1" using f Cons.prems(2) t(1) by simp
  from one_run[OF assms Cons.prems(1) f f1 t(2), of open_conv runs] obtain proto w self w' ks ls2
    where o: "open_source open_conv options inode f st = Some (proto, w)"
      "reader_runs (text_ops file_read) options lo runs (log_reader_new window proto) w = Some (NC_NONE, self, w')"
      "ls1 = ks @ ls2" "lr_received self = messages lo ks" "left_at cfg_log_msg_size inode (pre @ text_of ks []) f (bs_state (lr_proto self))"
      "keeps_going lo runs f \<longrightarrow> ls2 = []" by blast
  have ok: "text_ok ?B ks []" using t(2) o(3) Cons.prems(5) by (auto simp: text_ok_def)
  have "text_of ks [] @ (text_of ls2 part1 @ more) = text_of ls part"
    using \<open>f @ more = pre @ text_of ls part\<close> f1 o(3) by (simp add: text_of_append)
  from text_first_lines[OF this ok Cons.prems(5)] obtain ls' where l: "ls = ks @ ls'" "text_of ls2 part1 @ more = text_of ls' part" "text_ok ?B ls' part"
    by blast
  have run: "daemon_runs open_conv options lo window inode st (r # rs) =
      map_option (\<lambda>(st', ms). (st', messages lo ks @ ms)) (daemon_runs open_conv options lo window inode (bs_state (lr_proto self)) rs)"
    using o(1,2,4) by (simp add: r)
  show ?case
  proof (cases "rs = []")
    case True
    have "ls' = []" if "keeps_going lo runs f"
    proof -
      have "text_of ls' part = part1" using l(2) o(6) that True more by (simp add: text_of_def)
      then show ?thesis using part_only[of ls' part part1 ?B] l(3) t(2) by (auto simp: text_ok_def)
    qed
    then show ?thesis using run True l(1) by (auto simp: r)
  next
    case False
    have "f = (pre @ text_of ks []) @ text_of ls2 part1" using f1 o(3) by (simp add: text_of_append)
    moreover have "sorted_wrt prefix (f # map fst rs)" using Cons.prems(3) by (simp add: r)
    moreover have "last (f # map fst rs) = (pre @ text_of ks []) @ text_of ls' part"
      unfolding more using f1 o(3) l(2) by (simp add: text_of_append)
    ultimately obtain st' ks' ls'' where i: "daemon_runs open_conv options lo window inode (bs_state (lr_proto self)) rs = Some (st', messages lo ks')"
      "ls' = ks' @ ls''" "rs \<noteq> [] \<and> keeps_going lo (snd (last rs)) (fst (last rs)) \<longrightarrow> ls'' = []"
      using Cons.IH[OF o(5) _ _ _ l(3)] by blast
    then have "daemon_runs open_conv options lo window inode st (r # rs) = Some (st', messages lo (ks @ ks'))"
      using run by (simp add: messages_append)
    moreover have "ls = (ks @ ks') @ ls''" using l(1) i(2) by simp
    moreover have "keeps_going lo (snd (last (r # rs))) (fst (last (r # rs))) \<longrightarrow> ls'' = []" using i(3) False by simp
    ultimately show ?thesis by blast
  qed
qed

text \<open>C9: A file is read to its end across restarts. Let the daemon run any number of times while the file grows, each time from the state the run before
  has left when it ended between two calls of the reader, with any fetch limit, acknowledgements and requests to quit. Then all the
  runs together have sent the first lines of the file down the pipeline, every line once and in order; and if the last run
  is long enough they have sent all complete lines. Lines are shorter than log_msg_size() and there is no character conversion.\<close>

theorem file_source_resumes:
  assumes "0 < unat cfg_log_msg_size" "unat cfg_log_msg_size < 2 ^ 31"
    "options = log_proto_server_options_init cfg_log_msg_size log_proto_server_options_defaults" "\<not> lo_preempt lo" "0 < window" "inode \<noteq> 0"
    "sorted_wrt prefix (map fst rs)" "rs \<noteq> []" "fst (last rs) = text_of ls part" "text_ok (unat cfg_log_msg_size) ls part"
  shows "\<exists>st' ks ls'. daemon_runs open_conv options lo window inode empty_state rs = Some (st', messages lo ks) \<and> ls = ks @ ls' \<and>
    (keeps_going lo (snd (last rs)) (fst (last rs)) \<longrightarrow> ls' = [])"
proof -
  have "left_at cfg_log_msg_size inode [] [] empty_state" by (simp add: left_at_def)
  moreover have "[] = [] @ text_of [] []" by (simp add: text_of_def)
  moreover have "sorted_wrt prefix ([] # map fst rs)" using assms(7) by simp
  moreover have "last ([] # map fst rs) = [] @ text_of ls part" using assms(8,9) by (simp add: last_map)
  ultimately show ?thesis using daemon_runs_ok[OF assms(1-6), of "[]" "[]" empty_state "[]" "[]" rs ls part open_conv] assms(8,10) by blast
qed

theorem file_source_resumes_witness:
  "\<exists>st'. daemon_runs (\<lambda>e. None) (log_proto_server_options_init 8192 log_proto_server_options_defaults)
      \<lparr>lo_fetch_limit = 10, lo_empty_lines = True, lo_preempt = False\<rparr> 1 7 empty_state
      [([CHR ''a'', CHR 0x0A, CHR ''b'', CHR 0x0A, CHR ''c''], [(\<lambda>i. 0 < i, \<lambda>i. 0, 1)]),
       ([CHR ''a'', CHR 0x0A, CHR ''b'', CHR 0x0A, CHR ''c'', CHR 0x0A], replicate 12 (\<lambda>i. False, \<lambda>i. 1, 1))] = Some (st', [''a'', ''b'', ''c''])"
proof -
  let ?f = "[CHR ''a'', CHR 0x0A, CHR ''b'', CHR 0x0A, CHR ''c'']"
  let ?lo = "\<lparr>lo_fetch_limit = 10, lo_empty_lines = True, lo_preempt = False\<rparr>"
  let ?ls = "[(''a'', CHR 0x0A), (''b'', CHR 0x0A), (''c'', CHR 0x0A)]"
  let ?rs = "[(?f, [(\<lambda>i :: nat. 0 < i, \<lambda>i :: nat. 0 :: nat, 1 :: nat)]), (?f @ [CHR 0x0A], replicate 12 (\<lambda>i :: nat. False, \<lambda>i :: nat. 1 :: nat, 1 :: nat))]"
  have o: "0 < unat (8192 :: guint32)" "unat (8192 :: guint32) < 2 ^ 31" "\<not> lo_preempt ?lo" "(0 :: int) < 1" "(7 :: int) \<noteq> 0" by simp_all
  have t: "sorted_wrt prefix (map fst ?rs)" "?rs \<noteq> []" "fst (last ?rs) = text_of ?ls []" "text_ok (unat (8192 :: guint32)) ?ls []"
    "keeps_going ?lo (snd (last ?rs)) (fst (last ?rs))" "messages ?lo ?ls = [''a'', ''b'', ''c'']"
    by (simp_all add: text_of_def text_ok_def messages_def strip_eol_def)
  from file_source_resumes[OF o(1,2) refl o(3,4,5) t(1-4), of "\<lambda>e. None"] t(5) obtain st' ks
    where "daemon_runs (\<lambda>e. None) (log_proto_server_options_init 8192 log_proto_server_options_defaults) ?lo 1 7 empty_state ?rs = Some (st', messages ?lo ks)"
      "?ls = ks" by auto
  then show ?thesis using t(6) by auto
qed

subsection \<open>An end between reading and confirming\<close>

text \<open>The first call of a server whose buffer is empty, on a file that fits into the buffer.\<close>

lemma first_fetch:
  fixes options self
  defines "S \<equiv> bs_alloc options self"
  assumes "bs_buffer S = Some (replicate B NUL)" "unat (st_buffer_size (bs_state S)) = B" "0 < length f" "length f \<le> B" "B < 2 ^ 31"
    "st_pending_buffer_pos (bs_state S) = 0" "st_pending_buffer_end (bs_state S) = 0" "st_raw_buffer_leftover (bs_state S) = []"
    "bs_status S = LPS_SUCCESS" "\<not> bs_no_multi_read S" "bs_convert S = None" "bs_pos_tracking S"
    "S2 = S\<lparr>bs_buffer := Some (f @ replicate (B - length f) NUL),
       bs_state := (bs_state S)\<lparr>st_pending_buffer_end := of_nat (length f), st_pending_raw_buffer_size := int (length f),
         st_pending_raw_stream_pos := st_pending_raw_stream_pos (bs_state S) + st_pending_raw_buffer_size (bs_state S)\<rparr>\<rparr>"
    "log_proto_text_server_fetch_from_buf options False S2 = Some (Some m, S3)"
  shows "buffered_fetch (text_ops file_read) options True self (f, 0) = Some (LPS_SUCCESS, Some m, True, S3, (f, length f))"
proof -
  let ?ops = "text_ops file_read" and ?st = "bs_state S"
  let ?T = "?st\<lparr>st_pending_raw_stream_pos := st_pending_raw_stream_pos ?st + st_pending_raw_buffer_size ?st, st_pending_raw_buffer_size := 0,
    st_pending_buffer_pos := 0, st_pending_buffer_end := 0\<rparr>"
  let ?S = "S\<lparr>bs_state := ?T\<rparr>"
  have ops: "bo_fetch_from_buf ?ops = log_proto_text_server_fetch_from_buf" "bo_read_data ?ops = (\<lambda>w n. Some (file_read w n))"
    by (simp_all add: text_ops_def)
  have empty: "log_proto_buffered_server_fetch_from_buf ?ops options False S = Some (None, ?S)"
    using assms(7,8,13) by (simp add: log_proto_buffered_server_fetch_from_buf_def Let_def)
  have st: "?T\<lparr>st_pending_raw_buffer_size := int (length f), st_raw_buffer_leftover := [], st_pending_buffer_end := of_nat (length f)\<rparr> = bs_state S2"
    by (rule buffered_state.equality) (simp_all add: assms(7,9,14))
  have store: "bs_store options f ?S = Some (True, S2)"
  proof -
    have "bs_store options f ?S = Some (True, S\<lparr>bs_state := ?T, bs_buffer := Some (f @ replicate (B - length f) NUL), bs_state := bs_state S2\<rparr>)"
      using assms(2,5,9,12) st by (simp add: bs_store_def mem_write_def bs_mem_def Let_def)
    moreover have "S\<lparr>bs_state := ?T, bs_buffer := Some (f @ replicate (B - length f) NUL), bs_state := bs_state S2\<rparr> = S2" by (simp add: assms(14))
    ultimately show ?thesis by simp
  qed
  have "unat (of_nat (length f) :: guint32) = length f" using assms(5,6) by (simp add: unat_of_nat)
  then have "(of_nat (length f) :: guint32) \<noteq> 0" using assms(4) by (metis less_irrefl unat_0)
  then have line: "log_proto_buffered_server_fetch_from_buf ?ops options False S2 = Some (Some m, S3)"
    using assms(7,15) by (simp add: log_proto_buffered_server_fetch_from_buf_def assms(14) ops(1) Let_def)
  have "take B f = f" using assms(5) by simp
  then have rd: "file_read (f, 0) B = (Got f, (f, length f))" using assms(4) by auto
  have "bs_fetch_loop ?ops options LPS_SUCCESS True ?S (f, 0) = Some (LPS_SUCCESS, Some m, True, S3, (f, length f))"
    using assms(3,4,8,11,12) store line rd by (subst bs_fetch_loop.simps) (simp add: ops(2) Let_def del: file_read.simps)
  then show ?thesis
    using empty assms(10) by (simp add: buffered_fetch_def log_proto_buffered_server_fetch_def S_def[symmetric] bs_exit_def Let_def)
      (simp add: S_def)
qed

text \<open>A buffer with the two lines and what taking the first \<open>k\<close> characters of it as a line gives.\<close>

lemma text_line_first:
  assumes "bs_mem self = l @ e # rest @ pad" "st_pending_buffer_pos (bs_state self) = 0" "unat (st_pending_buffer_end (bs_state self)) = Suc (length l + length rest)"
    "unat eol = length l" "Suc (length l + length rest) < 2 ^ 31" "rest = l' @ e' # rest'" "\<forall>c \<in> set l'. \<not> is_eom c" "is_eom e'"
  shows "text_line eol self = Some (Some (strip_eol l), self\<lparr>bs_state := (bs_state self)\<lparr>st_pending_buffer_pos := eol + 1,
    st_buffer_cached_eol := eol + 1 + of_nat (length l')\<rparr>\<rparr>)"
proof -
  let ?stop = "st_pending_buffer_end (bs_state self)"
  have pos: "unat (eol + 1) = Suc (length l)" using assms(4,5) by (simp add: unat_word_ariths(1))
  have "unat (?stop - (eol + 1)) = length rest" using pos assms(3) by (simp add: unat_sub word_le_nat_alt)
  moreover have "?stop \<noteq> eol + 1" using pos assms(3,6) by auto
  moreover have "find_eom (unat (eol + 1)) rest = Some (length l')" using eom_bytes_hit[OF assms(7,8), of 0 rest'] assms(6) by (simp add: find_eom_bytes)
  ultimately show ?thesis using pos assms(1,2,4) by (simp add: text_line_def mem_slice_def Let_def)
qed

text \<open>The first run takes the first line and does not confirm it.\<close>

lemma first_run:
  assumes "0 < unat cfg_log_msg_size" "unat cfg_log_msg_size < 2 ^ 31"
    "options = log_proto_server_options_init cfg_log_msg_size log_proto_server_options_defaults" "inode \<noteq> 0"
    "f = l1 @ e1 # l2 @ e2 # rest" "length f \<le> unat cfg_log_msg_size" "is_eom e1" "is_eom e2"
    "\<forall>c \<in> set (l1 @ l2). \<not> is_eom c"
  shows "\<exists>proto proto1. open_source open_conv options inode f empty_state = Some (proto, (f, 0)) \<and>
    buffered_fetch (text_ops file_read) options True proto (f, 0) = Some (LPS_SUCCESS, Some (strip_eol l1), True, proto1, (f, length f)) \<and>
    st_raw_buffer_size (bs_state proto1) = 0 \<and> st_raw_stream_pos (bs_state proto1) = 0 \<and> st_file_inode (bs_state proto1) = inode \<and>
    st_file_size (bs_state proto1) = int (length f) \<and> st_buffer_size (bs_state proto1) = cfg_log_msg_size \<and>
    st_raw_buffer_leftover (bs_state proto1) = [] \<and> st_buffer_cached_eol (bs_state proto1) = of_nat (length l1) + 1 + of_nat (length l2)"
proof -
  let ?B = "unat cfg_log_msg_size" and ?n = "length f"
  have o: "po_encoding options = None" "po_init_buffer_size options = cfg_log_msg_size"
    using assms(3) by (simp_all add: log_proto_server_options_init_def log_proto_server_options_defaults_def gint_min_def Let_def)
  have n: "0 < ?n" "cfg_log_msg_size \<noteq> 0" using assms(1,5) by auto
  have u: "unat (of_nat k :: guint32) = k" if "k \<le> ?n" for k using that assms(2,6) by (simp add: unat_of_nat)
  let ?mem = "f @ replicate (?B - ?n) NUL"
  let ?init = "(log_proto_buffered_server_init open_conv options)\<lparr>bs_pos_tracking := True\<rparr>"
  have init: "bs_status ?init = LPS_SUCCESS" "\<not> bs_no_multi_read ?init" "bs_convert ?init = None" "bs_buffer ?init = None" "bs_pos_tracking ?init"
    using o(1) by (simp_all add: log_proto_buffered_server_init_def)
  let ?st = "empty_state\<lparr>st_file_inode := inode, st_file_size := int ?n\<rparr>"
  have open1: "open_source open_conv options inode f empty_state = Some (?init\<lparr>bs_state := ?st\<rparr>, (f, 0))"
    by (simp add: open_source_def log_proto_buffered_server_apply_state_def apply_error_def apply_exit_def log_proto_buffered_server_init_def
        empty_state_def Let_def)
  let ?S = "bs_alloc options (?init\<lparr>bs_state := ?st\<rparr>)"
  let ?S2 = "?S\<lparr>bs_buffer := Some ?mem, bs_state := (bs_state ?S)\<lparr>st_pending_buffer_end := of_nat ?n, st_pending_raw_buffer_size := int ?n,
    st_pending_raw_stream_pos := st_pending_raw_stream_pos (bs_state ?S) + st_pending_raw_buffer_size (bs_state ?S)\<rparr>\<rparr>"
  let ?eol = "of_nat (length l1) :: guint32"
  let ?cached = "?eol + 1 + of_nat (length l2)"
  let ?S3 = "?S2\<lparr>bs_state := (bs_state ?S2)\<lparr>st_pending_buffer_pos := ?eol + 1, st_buffer_cached_eol := ?cached\<rparr>\<rparr>"
  have S: "bs_buffer ?S = Some (replicate ?B NUL)" "st_buffer_size (bs_state ?S) = cfg_log_msg_size" "st_pending_buffer_pos (bs_state ?S) = 0"
    "st_pending_buffer_end (bs_state ?S) = 0" "st_raw_buffer_leftover (bs_state ?S) = []" "st_buffer_cached_eol (bs_state ?S) = 0"
    "bs_status ?S = LPS_SUCCESS" "\<not> bs_no_multi_read ?S" "bs_convert ?S = None" "bs_pos_tracking ?S"
    using init o(2) by (simp_all add: bs_alloc_def empty_state_def)
  have eom: "\<forall>c \<in> set l1. \<not> is_eom c" "\<forall>c \<in> set l2. \<not> is_eom c" using assms(9) by auto
  have len: "?n = Suc (length l1 + Suc (length l2 + length rest))" using assms(5) by simp
  have "text_line ?eol ?S2 = Some (Some (strip_eol l1), ?S3)"
    using text_line_first[of ?S2 l1 e1 "l2 @ e2 # rest" "replicate (?B - ?n) NUL" ?eol l2 e2 rest] u[of ?n] u[of "length l1"] S(3) eom assms(2,5,6,8)
    by (simp add: bs_mem_def)
  moreover have "find_eom 0 f = Some (length l1)" using eom_bytes_hit[OF eom(1) assms(7), of 0 "l2 @ e2 # rest"] assms(5) by (simp add: find_eom_bytes)
  ultimately have ffb1: "log_proto_text_server_fetch_from_buf options False ?S2 = Some (Some (strip_eol l1), ?S3)"
    using S(3,6) u[of ?n] by (simp add: log_proto_text_server_fetch_from_buf_def mem_slice_def bs_mem_def Let_def)
  have fetch1: "buffered_fetch (text_ops file_read) options True (?init\<lparr>bs_state := ?st\<rparr>) (f, 0) = Some (LPS_SUCCESS, Some (strip_eol l1), True, ?S3, (f, ?n))"
    by (rule first_fetch[where B = ?B, OF _ _ n(1) assms(6,2) _ _ _ _ _ _ _ refl ffb1]) (use S in simp_all)
  have "st_raw_buffer_size (bs_state ?S3) = 0" "st_raw_stream_pos (bs_state ?S3) = 0" "st_file_inode (bs_state ?S3) = inode"
    "st_file_size (bs_state ?S3) = int ?n" "st_buffer_size (bs_state ?S3) = cfg_log_msg_size" "st_raw_buffer_leftover (bs_state ?S3) = []"
    "st_buffer_cached_eol (bs_state ?S3) = ?cached"
    using S(2,5) by (simp_all add: bs_alloc_def empty_state_def)
  then show ?thesis using open1 fetch1 by blast
qed

text \<open>C11: A daemon that is killed after it has read a line and before it has confirmed it joins lines. The state then has the position
  before the line, but the end of the line after it is remembered there as well. The next run starts with the line again,
  and takes the remembered end for its end: the first message it delivers is both lines, with the line end
  between them. The file has two lines or more and fits into the buffer.\<close>

theorem file_source_joins_lines:
  assumes "0 < unat cfg_log_msg_size" "unat cfg_log_msg_size < 2 ^ 31"
    "options = log_proto_server_options_init cfg_log_msg_size log_proto_server_options_defaults" "inode \<noteq> 0"
    "f = l1 @ e1 # l2 @ e2 # rest" "length f \<le> unat cfg_log_msg_size" "is_eom e1" "is_eom e2"
    "\<forall>c \<in> set (l1 @ l2). \<not> is_eom c"
  shows "\<exists>proto w proto1 w1 proto2 w2 proto3 w3. open_source open_conv options inode f empty_state = Some (proto, w) \<and>
    buffered_fetch (text_ops file_read) options True proto w = Some (LPS_SUCCESS, Some (strip_eol l1), True, proto1, w1) \<and>
    open_source open_conv options inode f (bs_state proto1) = Some (proto2, w2) \<and>
    buffered_fetch (text_ops file_read) options True proto2 w2 = Some (LPS_SUCCESS, Some (strip_eol (l1 @ e1 # l2)), True, proto3, w3)"
proof -
  let ?B = "unat cfg_log_msg_size" and ?n = "length f" and ?cached = "of_nat (length l1) + 1 + of_nat (length l2) :: guint32"
  let ?mem = "f @ replicate (?B - ?n) NUL"
  have n: "0 < ?n" "cfg_log_msg_size \<noteq> 0" using assms(1,5) by auto
  have u: "unat (of_nat ?n :: guint32) = ?n" using assms(2,6) by (simp add: unat_of_nat)
  obtain proto proto1 where first: "open_source open_conv options inode f empty_state = Some (proto, (f, 0))"
    "buffered_fetch (text_ops file_read) options True proto (f, 0) = Some (LPS_SUCCESS, Some (strip_eol l1), True, proto1, (f, ?n))"
    and st1: "st_raw_buffer_size (bs_state proto1) = 0" "st_raw_stream_pos (bs_state proto1) = 0" "st_file_inode (bs_state proto1) = inode"
    "st_file_size (bs_state proto1) = int ?n" "st_buffer_size (bs_state proto1) = cfg_log_msg_size" "st_raw_buffer_leftover (bs_state proto1) = []"
    "st_buffer_cached_eol (bs_state proto1) = ?cached"
    using first_run[OF assms, of open_conv] by blast
  have init: "bs_status (log_proto_buffered_server_init open_conv options) = LPS_SUCCESS" "\<not> bs_no_multi_read (log_proto_buffered_server_init open_conv options)"
    "bs_convert (log_proto_buffered_server_init open_conv options) = None" "bs_buffer (log_proto_buffered_server_init open_conv options) = None"
    using assms(3) by (simp_all add: log_proto_buffered_server_init_def log_proto_server_options_init_def log_proto_server_options_defaults_def Let_def)
  obtain P where open2: "open_source open_conv options inode f (bs_state proto1) = Some (P, (f, 0))"
    and P: "bs_buffer P = Some (replicate ?B NUL)" "st_buffer_size (bs_state P) = cfg_log_msg_size" "st_pending_buffer_pos (bs_state P) = 0"
    "st_pending_buffer_end (bs_state P) = 0" "st_raw_buffer_leftover (bs_state P) = []" "st_buffer_cached_eol (bs_state P) = ?cached"
    "bs_status P = LPS_SUCCESS" "\<not> bs_no_multi_read P" "bs_convert P = None" "bs_pos_tracking P"
    using st1 init n(2) assms(4) by (simp add: open_source_def log_proto_buffered_server_apply_state_def apply_exit_def Let_def)
  let ?P2 = "P\<lparr>bs_buffer := Some ?mem, bs_state := (bs_state P)\<lparr>st_pending_buffer_end := of_nat ?n, st_pending_raw_buffer_size := int ?n,
    st_pending_raw_stream_pos := st_pending_raw_stream_pos (bs_state P) + st_pending_raw_buffer_size (bs_state P)\<rparr>\<rparr>"
  let ?P3 = "?P2\<lparr>bs_state := (bs_state ?P2)\<lparr>st_buffer_cached_eol := 0\<rparr>\<rparr>"
  have alloc: "bs_alloc options P = P" using P(1) by (simp add: bs_alloc_def)
  have cached: "unat ?cached = length (l1 @ e1 # l2)" using assms(2,5,6) by (simp add: unat_word_ariths(1) unat_of_nat)
  have "bs_sound ?B ?P3"
    using P u assms(1,2,6) by (simp add: bs_sound_def bs_mem_def)
  moreover have "bs_pending ?P3 = (l1 @ e1 # l2) @ e2 # rest"
    using P(3) u assms(5) by (simp add: bs_pending_def bs_mem_def)
  ultimately obtain P4 where "text_line ?cached ?P3 = Some (Some (strip_eol (l1 @ e1 # l2)), P4)"
    using text_line_ok[of ?B ?P3 "l1 @ e1 # l2" e2 rest ?cached] P(3) cached by auto
  moreover have "?cached \<noteq> 0" using cached by (metis length_0_conv append_is_Nil_conv list.distinct(1) unat_0)
  ultimately have ffb2: "log_proto_text_server_fetch_from_buf options False ?P2 = Some (Some (strip_eol (l1 @ e1 # l2)), P4)"
    using P(6) by (simp add: log_proto_text_server_fetch_from_buf_def Let_def)
  have "buffered_fetch (text_ops file_read) options True P (f, 0) = Some (LPS_SUCCESS, Some (strip_eol (l1 @ e1 # l2)), True, P4, (f, ?n))"
    by (rule first_fetch[where B = ?B and options = options and self = P, unfolded alloc, OF _ _ n(1) assms(6,2) _ _ _ _ _ _ _ refl ffb2]) (use P in simp_all)
  then show ?thesis using first open2 by blast
qed

theorem file_source_joins_lines_witness:
  "\<exists>proto w proto1 w1 proto2 w2 proto3 w3.
    open_source (\<lambda>e. None) (log_proto_server_options_init 8192 log_proto_server_options_defaults) 7 [CHR ''a'', CHR 0x0A, CHR ''b'', CHR 0x0A] empty_state =
      Some (proto, w) \<and>
    buffered_fetch (text_ops file_read) (log_proto_server_options_init 8192 log_proto_server_options_defaults) True proto w =
      Some (LPS_SUCCESS, Some ''a'', True, proto1, w1) \<and>
    open_source (\<lambda>e. None) (log_proto_server_options_init 8192 log_proto_server_options_defaults) 7 [CHR ''a'', CHR 0x0A, CHR ''b'', CHR 0x0A] (bs_state proto1) =
      Some (proto2, w2) \<and>
    buffered_fetch (text_ops file_read) (log_proto_server_options_init 8192 log_proto_server_options_defaults) True proto2 w2 =
      Some (LPS_SUCCESS, Some [CHR ''a'', CHR 0x0A, CHR ''b''], True, proto3, w3)"
  using file_source_joins_lines[of 8192 _ 7 "[CHR ''a'', CHR 0x0A, CHR ''b'', CHR 0x0A]" "''a''" "CHR 0x0A" "''b''" "CHR 0x0A" "[]" "\<lambda>e. None", OF _ _ refl]
  by (simp add: strip_eol_def)

end
