(* ===== verification/Spec2Isabelle.thy ===== *)
theory Spec2Isabelle
  imports Syslog_Names Log_Message Ref_Cache Log_Queue Serialize Str_Format Time_Zone Log_Stamp Find_Crlf Syslog_Proto Log_Writer Timer_Wheel File_Source
begin

text \<open>
  Verification development for syslog-ng.

  \<^bold>\<open>The program.\<close> A syslog daemon receives messages from sources, parses them, routes them through filters
  and rewrite rules and sends them to destinations. A message is a reference-counted object
  (\<^verbatim>\<open>lib/logmsg.c\<close>) whose values live in one block of memory (\<^verbatim>\<open>lib/nvtable.c\<close>) under handles that a
  global registry gives to names; it also carries tags (\<^verbatim>\<open>lib/tags.c\<close>) and structured data. A source reads from a
  transport (\<^verbatim>\<open>lib/logtransport.c\<close>) through a server protocol (\<^verbatim>\<open>lib/logproto-*-server.c\<close>) that cuts
  the stream into messages, and a format plugin (\<^verbatim>\<open>modules/syslogformat\<close>) fills the message. A destination
  has a queue (\<^verbatim>\<open>lib/logqueue-fifo.c\<close>), a writer (\<^verbatim>\<open>lib/logwriter.c\<close>) that formats what it takes from the queue, and
  a client protocol (\<^verbatim>\<open>lib/logproto-*-client.c\<close>).

  \<^bold>\<open>The theories\<close>, with the code they translate. Operations have the names of their C functions; parts of a function
  that are definitions of their own are named after what they do.

  \<^item> \<open>Prelude\<close>: C characters, strings and integer widths. \<open>Interning\<close>: the locale of a table that gives
    permanent numbers to names; the registry and the tag table provide it.
  \<^item> \<open>Syslog_Names\<close> (\<^verbatim>\<open>lib/syslog-names.c\<close>): the tables of severities and facilities and the
    masks of ranges; lookups are inverse to each other.
  \<^item> \<open>NV_Registry\<close>, \<open>NV_Table\<close>, \<open>NV_Table_Props\<close>, \<open>NV_Table_Refs\<close> (\<^verbatim>\<open>lib/nvtable.c\<close>): the block of
    values with its offsets, direct values and references into other values. Shown: well-formedness is
    kept, a stored value is read back and all others are unchanged, also when references to an
    overwritten value have to be made direct first; growing and sharing.
  \<^item> \<open>Log_Tags\<close> (\<^verbatim>\<open>lib/tags.c\<close> and the tag bits in \<^verbatim>\<open>lib/logmsg.c\<close>): the bits implement a set.
  \<^item> \<open>Log_Message\<close> (\<^verbatim>\<open>lib/logmsg.c\<close>): setting values with growth of the payload, matches,
    structured data elements. \<open>Sdata_Format\<close>: their text form.
  \<^item> \<open>Ref_Cache\<close> (\<^verbatim>\<open>lib/logmsg.c\<close>): reference and acknowledgement counters packed in one word and the
    per-thread cache in front of them, with every interleaving of threads: a message is freed
    exactly when it is referenced no more.
  \<^item> \<open>Log_Queue\<close> (\<^verbatim>\<open>lib/logqueue.c\<close>, \<^verbatim>\<open>lib/logqueue-fifo.c\<close>): conservation and order of messages, capacity,
    throttling, no lost wake-up.
  \<^item> \<open>Serialize\<close> (\<^verbatim>\<open>lib/serialize.c\<close>), \<open>Str_Format\<close> (\<^verbatim>\<open>lib/str-format.c\<close>), \<open>Time_Zone\<close> (\<^verbatim>\<open>lib/timeutils.c\<close>),
    \<open>Log_Stamp\<close> (\<^verbatim>\<open>lib/logstamp.c\<close>): encodings and their round trips, the parser of compiled
    zone files, the calendar caches.
  \<^item> \<open>Find_Crlf\<close> (\<^verbatim>\<open>lib/misc.c\<close>): the word-wise search for line ends equals the bytewise one.
  \<^item> \<open>Syslog_Format\<close> (\<^verbatim>\<open>modules/syslogformat/syslog-format.c\<close>): both message formats on explicit memory, where a read
    outside of the message is the result \<open>None\<close>. \<open>Msg_Store\<close> is the interface to the message it fills
    (locale \<open>msg_store\<close>, interpreted on \<open>Log_Message\<close>), \<open>Syslog_Format_Props\<close> shows memory safety of the legacy
    parser, \<open>Syslog_Proto\<close> that an RFC 5424 message is parsed back to the fields it was printed from.
  \<^item> \<open>Log_Transport\<close> (\<^verbatim>\<open>lib/logtransport.c\<close>): system calls answer from a list, so that statements for
    all lists cover every chunking, partial write and interruption; the locale \<open>byte_stream\<close>.
  \<^item> \<open>Log_Proto\<close>, \<open>Log_Proto_Framed\<close> (\<^verbatim>\<open>lib/logproto-framed-server.c\<close>): the framed server with its buffer as
    memory; delivery of all messages, and the defect in growing the buffer.
  \<^item> \<open>Log_Proto_Client\<close> (\<^verbatim>\<open>lib/logproto-text-client.c\<close>, \<^verbatim>\<open>lib/logproto-framed-client.c\<close>) and \<open>Log_Writer\<close> (the flush
    loop of \<^verbatim>\<open>lib/logwriter.c\<close>, composed of the queue and a client): what is on the wire is an
    initial part of the frames of the queued messages, and no message is lost.
  \<^item> \<open>Find_Eom\<close>, \<open>Log_Proto_Buffered\<close> (\<^verbatim>\<open>lib/logproto-buffered-server.c\<close> with the text, datagram and record servers on top of it): the
    shared buffer, character conversion and the stored position. \<open>Log_Proto_Text\<close> shows that the text server cuts any stream into
    its lines. \<open>Log_Reader\<close> (\<^verbatim>\<open>lib/logreader.c\<close>) adds the loop of the source and its flow control, \<open>File_Source\<close> runs
    of the daemon on a growing file, with the state each leaves to the next.
  \<^item> \<open>Timer_Wheel\<close> (\<^verbatim>\<open>modules/dbparser/timerwheel.c\<close>): the timers of the pattern database. The wheel implements
    a set of timers with deadlines, for timeouts up to 64512 seconds, the length for which only
    the two lowest levels matter, and other than 1024 seconds, where the code errs.

  Below, the composition of queue, writer, client, transport and server.

  \<^bold>\<open>Fuel and bounds.\<close> Recursion that the data do not bound has fuel, and a lemma says that it is enough: the
  depth of references in a table is at most two (\<open>nv_fuel\<close>, and the nested call of \<open>nv_table_add_value\<close>), the payload of
  a message doubles until it reaches the largest size, at most 64 times (\<open>payload_store\<close>), and the
  parser of structured data advances in every round, so that the length of the memory is enough.
  All other loops have a termination proof. Integers have their width where it matters
  (counters, sizes in the table and in the framed server, sequence numbers); positions in the
  message parser and file offsets are unbounded. Loops that depend on what a transport or a converter answers are partial functions, where no
  result is \<open>None\<close>, and the properties show that there is one.

  \<^bold>\<open>Assumptions.\<close> A 64-bit little-endian machine; the C library's calendar functions, the template that
  formats a message and the answers of the operating system are arguments. Operations on a queue and on
  the shared counters are atomic, as the locks and atomic instructions of the source make them.

  \<^bold>\<open>Not modelled.\<close> The configuration language and the construction of the pipeline; the event loop, drivers,
  plugins, TLS and persistent state, which mostly call the operating system or libraries; templates,
  filters, rewrite rules and the pattern database but for its timers; stored positions of older versions; construction and cloning of messages.
\<close>

subsection \<open>From one syslog-ng to another\<close>

lemma clip_short: "length m \<le> 9999999 \<Longrightarrow> clip m = m"
  by (simp add: clip_def)


lemma sample_run:
  "\<exists>self'. flush_runs framed_proto sample_format [(LW_FLUSH_QUEUE, \<lambda>i. False)] (log_writer_new sample_queue False)
      ([Wrote 10, Wrote 10, Wrote 10, Wrote 10], []) = Some (True, self', ([], ''2 ab3 cde'')) \<and>
    q_content (lw_queue self') = [] \<and> map_option tc_partial (lw_proto self') = Some None"
proof -
  have h: "frame_hdr (Suc (Suc 0)) = ''2 ''" "frame_hdr (Suc (Suc (Suc 0))) = ''3 ''"
    by (simp_all add: frame_hdr_def rdigs.simps digits_def)
  have post: "po_post framed_proto log_proto_text_client_new msg (Wrote 10 # Wrote 10 # as, out) =
      Some (True, LPS_SUCCESS, log_proto_text_client_new\<lparr>tc_partial_pos := 0\<rparr>, (as, out @ frame_hdr (length msg) @ msg))"
    if "msg = ''ab'' \<or> msg = ''cde''" for msg as out
    using that h by (auto simp: framed_proto_def log_proto_framed_client_post_def clip_def framed_post_loop.simps
        log_proto_text_client_submit_write_def log_proto_text_client_flush_def log_proto_text_client_new_def Let_def)
  have c: "log_proto_text_client_new\<lparr>tc_partial_pos := 0\<rparr> = log_proto_text_client_new" by (simp add: log_proto_text_client_new_def)
  have fl: "po_flush framed_proto log_proto_text_client_new d = (LPS_SUCCESS, log_proto_text_client_new, d)" for d
    by (simp add: framed_proto_def log_proto_text_client_flush_def log_proto_text_client_new_def)
  have n: "tc_partial log_proto_text_client_new = None" by (simp add: log_proto_text_client_new_def)
  let ?n = "\<lambda>i. \<lparr>qn_msg = i, qn_ack_needed = True\<rparr>" and ?w = "[Wrote 10, Wrote 10]" and ?turn = "log_writer_turn framed_proto sample_format True"
  let ?q = "\<lambda>ns. sample_queue\<lparr>qoverflow_output := ns, qoverflow_output_len := int (length ns), stored_messages := int (length ns)\<rparr>"
  let ?self = "\<lambda>ns seq acked. (log_writer_new (?q ns) False)\<lparr>lw_seq_num := seq, lw_acked := acked\<rparr>"
  have start: "log_writer_new sample_queue False = ?self [?n 7, ?n 8] 1 []" by (simp add: log_writer_new_def sample_queue_def)
  have turns: "?turn (?self [?n 7, ?n 8] 1 []) log_proto_text_client_new (?w @ ?w, []) = Some (Lw_more, ?self [?n 8] 2 [?n 7], log_proto_text_client_new, (?w, ''2 ab''))"
    "?turn (?self [?n 8] 2 [?n 7]) log_proto_text_client_new (?w, ''2 ab'') = Some (Lw_more, ?self [] 3 [?n 7, ?n 8], log_proto_text_client_new, ([], ''2 ab3 cde''))"
    "?turn (?self [] 3 [?n 7, ?n 8]) log_proto_text_client_new ([], ''2 ab3 cde'') = Some (Lw_stop, ?self [] 3 [?n 7, ?n 8], log_proto_text_client_new, ([], ''2 ab3 cde''))"
    using post[of "''ab''", unfolded c] post[of "''cde''", unfolded c] h
    by (simp_all add: log_writer_turn_def lw_post_def log_writer_new_def sample_format_def next_seq_def step_sequence_number_def
        log_queue_fifo_pop_head_def fill_output_def sample_queue_def log_queue_fifo_new_def Let_def)
  have "log_writer_loop framed_proto sample_format LW_FLUSH_QUEUE (\<lambda>i. False) 0 (?self [?n 7, ?n 8] 1 []) log_proto_text_client_new (?w @ ?w, []) =
      Some (True, 2, ?self [] 3 [?n 7, ?n 8], log_proto_text_client_new, ([], ''2 ab3 cde''))"
    using turns by (subst log_writer_loop.simps, simp) (subst log_writer_loop.simps, simp, subst log_writer_loop.simps, simp)
  moreover have "lw_proto (log_writer_new r False) = Some log_proto_text_client_new" "lw_queue (log_writer_new r False) = r" for r
    by (simp_all add: log_writer_new_def)
  moreover have "q_content (sample_queue\<lparr>qoverflow_output := [], qoverflow_output_len := 0, stored_messages := 0\<rparr>) = []"
    by (simp add: q_content_def sample_queue_def log_queue_fifo_new_def)
  ultimately show ?thesis unfolding start using n fl by (simp add: log_writer_flush_def)
qed


end
